(* ===== verification/Klados_Prelude.thy ===== *)
theory Klados_Prelude
  imports Complex_Main "HOL-Library.Word" "HOL-Library.AList" "HOL-Library.Multiset"
begin

text \<open>
  Shared vocabulary of the development: bytes and paths, Python exceptions as values, the
  state-and-exception style in which every effectful operation is written, and the generic
  lemmas on lists and dictionaries that the component theories use.

  An operation of type \<open>'s \<Rightarrow> (exn + 'a) \<times> 's\<close> is a Python function that reads and updates
  the state \<open>'s\<close>: \<open>Inl e\<close> is a raised exception and, as in Python, what was already written
  to the state before the raise stays written. A dictionary whose iteration order matters is an
  association list in insertion order (\<open>AList.update\<close> keeps the position of an existing key, as
  Python does), one whose order is never observed is a map.
\<close>

named_theorems effect_simps \<open>unfolding of the state-and-exception combinators\<close>
named_theorems preserve_intros \<open>an operation preserves a predicate of the state\<close>

type_synonym byte = "8 word"
type_synonym bytes = "byte list"
type_synonym path = "string list"

section \<open>Exceptions\<close>

text \<open>The exceptions the code raises or relies on, with their argument.\<close>

datatype exn =
    KeyError string
  | Forbidden string
  | RuntimeError string
  | ValueError string
  | TypeError string
  | FileNotFoundError string
  | IntegrityError string
  | InterfaceError string
  | TimeoutError string
  | KladosError string
  | OSError string
  | PermissionError string
  | ProcessLookupError string
  | IndexError string
  | ZeroDivisionError string
  | ConnectionError string
  | SystemExit string

text \<open>
  \<open>repr\<close> of a string: single quotes unless the text holds one and no double quote, with
  backslash, the chosen quote and the control characters escaped.
\<close>

definition hex_digit :: "nat \<Rightarrow> char" where
  "hex_digit n = ''0123456789abcdef'' ! (n mod 16)"

definition repr_char :: "char \<Rightarrow> char \<Rightarrow> string" where
  "repr_char q c =
     (if c = q \<or> c = CHR 0x5C then [CHR 0x5C, c]
      else if c = CHR 0x0A then [CHR 0x5C, CHR ''n'']
      else if c = CHR 0x0D then [CHR 0x5C, CHR ''r'']
      else if c = CHR 0x09 then [CHR 0x5C, CHR ''t'']
      else if of_char c < (32::nat) \<or> of_char c \<ge> (127::nat)
      then [CHR 0x5C, CHR ''x'', hex_digit (of_char c div 16), hex_digit (of_char c)]
      else [c])"

definition py_repr :: "string \<Rightarrow> string" where
  "py_repr s =
     (let q = (if CHR 0x27 \<in> set s \<and> CHR 0x22 \<notin> set s then CHR 0x22 else CHR 0x27)
      in [q] @ concat (map (repr_char q) s) @ [q])"

text \<open>\<open>str(e)\<close>: the argument, except that \<open>KeyError\<close> shows its argument's \<open>repr\<close>.\<close>

fun exn_str :: "exn \<Rightarrow> string" where
  "exn_str (KeyError s) = py_repr s"
| "exn_str (Forbidden s) = s"
| "exn_str (RuntimeError s) = s"
| "exn_str (ValueError s) = s"
| "exn_str (TypeError s) = s"
| "exn_str (FileNotFoundError s) = s"
| "exn_str (IntegrityError s) = s"
| "exn_str (InterfaceError s) = s"
| "exn_str (TimeoutError s) = s"
| "exn_str (KladosError s) = s"
| "exn_str (OSError s) = s"
| "exn_str (PermissionError s) = s"
| "exn_str (ProcessLookupError s) = s"
| "exn_str (IndexError s) = s"
| "exn_str (ZeroDivisionError s) = s"
| "exn_str (ConnectionError s) = s"
| "exn_str (SystemExit s) = s"

section \<open>State and exceptions\<close>

definition ret :: "'a \<Rightarrow> 's \<Rightarrow> (exn + 'a) \<times> 's" where
  "ret x s = (Inr x, s)"

definition throw :: "exn \<Rightarrow> 's \<Rightarrow> (exn + 'a) \<times> 's" where
  "throw e s = (Inl e, s)"

definition andthen ::
  "('s \<Rightarrow> (exn + 'a) \<times> 's) \<Rightarrow> ('a \<Rightarrow> 's \<Rightarrow> (exn + 'b) \<times> 's) \<Rightarrow> 's \<Rightarrow> (exn + 'b) \<times> 's" where
  "andthen m f s = (case m s of (Inl e, s') \<Rightarrow> (Inl e, s') | (Inr x, s') \<Rightarrow> f x s')"

text \<open>\<open>try: m except Exception as e: h e\<close>.\<close>

definition attempt ::
  "('s \<Rightarrow> (exn + 'a) \<times> 's) \<Rightarrow> (exn \<Rightarrow> 's \<Rightarrow> (exn + 'a) \<times> 's) \<Rightarrow> 's \<Rightarrow> (exn + 'a) \<times> 's" where
  "attempt m h s = (case m s of (Inl e, s') \<Rightarrow> h e s' | (Inr x, s') \<Rightarrow> (Inr x, s'))"

declare ret_def [effect_simps] throw_def [effect_simps]

lemma andthen_ret [simp]: "andthen (ret x) f = f x"
  by (rule ext) (simp add: andthen_def ret_def)

lemma andthen_throw [simp]: "andthen (throw e) f = throw e"
  by (rule ext) (simp add: andthen_def throw_def)

lemma andthen_Inr: "m s = (Inr x, s') \<Longrightarrow> andthen m f s = f x s'"
  by (simp add: andthen_def)

lemma andthen_Inl: "m s = (Inl e, s') \<Longrightarrow> andthen m f s = (Inl e, s')"
  by (simp add: andthen_def)

text \<open>Inversion: a composition that returned normally went through both parts.\<close>

lemma andthen_InrE:
  assumes "andthen m f s = (Inr y, t)"
  obtains x u where "m s = (Inr x, u)" "f x u = (Inr y, t)"
  using assms by (auto simp: andthen_def split: prod.splits sum.splits)

lemma andthen_InlE:
  assumes "andthen m f s = (Inl e, t)"
  obtains (first) "m s = (Inl e, t)" | (second) x u where "m s = (Inr x, u)" "f x u = (Inl e, t)"
  using assms by (auto simp: andthen_def split: prod.splits sum.splits)

subsection \<open>Preservation\<close>

text \<open>
  \<open>keeps R m\<close>: whatever \<open>m\<close> does, and however it ends, the states before and after it are
  related by \<open>R\<close>. Invariants are the special case \<open>R s t = (I s \<longrightarrow> I t)\<close>; frame conditions and
  growth of a log are others. All of them compose along \<open>andthen\<close> and \<open>attempt\<close> as soon as
  \<open>R\<close> is reflexive and transitive, which the locale states once.
\<close>

definition keeps :: "('s \<Rightarrow> 's \<Rightarrow> bool) \<Rightarrow> ('s \<Rightarrow> (exn + 'a) \<times> 's) \<Rightarrow> bool" where
  "keeps R m \<longleftrightarrow> (\<forall>s. R s (snd (m s)))"

lemma keepsI: "(\<And>s. R s (snd (m s))) \<Longrightarrow> keeps R m"
  by (simp add: keeps_def)

lemma keepsD: "keeps R m \<Longrightarrow> m s = (r, t) \<Longrightarrow> R s t"
  by (metis keeps_def snd_conv)

lemma keeps_snd: "keeps R m \<Longrightarrow> R s (snd (m s))"
  by (simp add: keeps_def)

locale state_order =
  fixes R :: "'s \<Rightarrow> 's \<Rightarrow> bool"
  assumes R_refl: "R s s"
    and R_trans: "R s t \<Longrightarrow> R t u \<Longrightarrow> R s u"
begin

lemma keeps_ret: "keeps R (ret x)"
  by (rule keepsI) (simp add: ret_def R_refl)

lemma keeps_throw: "keeps R (throw e)"
  by (rule keepsI) (simp add: throw_def R_refl)

lemma keeps_andthen:
  assumes "keeps R m" and "\<And>x. keeps R (f x)"
  shows "keeps R (andthen m f)"
proof (rule keepsI)
  fix s
  obtain r t where m: "m s = (r, t)" by fastforce
  then have st: "R s t" by (rule keepsD [OF assms(1)])
  show "R s (snd (andthen m f s))"
  proof (cases r)
    case (Inl e)
    with m st show ?thesis by (simp add: andthen_def)
  next
    case (Inr x)
    with m R_trans [OF st keeps_snd [OF assms(2)]] show ?thesis by (simp add: andthen_def)
  qed
qed

lemma keeps_attempt:
  assumes "keeps R m" and "\<And>e. keeps R (h e)"
  shows "keeps R (attempt m h)"
proof (rule keepsI)
  fix s
  obtain r t where m: "m s = (r, t)" by fastforce
  then have st: "R s t" by (rule keepsD [OF assms(1)])
  show "R s (snd (attempt m h s))"
  proof (cases r)
    case (Inl e)
    with m R_trans [OF st keeps_snd [OF assms(2)]] show ?thesis by (simp add: attempt_def)
  next
    case (Inr x)
    with m st show ?thesis by (simp add: attempt_def)
  qed
qed

lemma keeps_if: "keeps R m \<Longrightarrow> keeps R n \<Longrightarrow> keeps R (if b then m else n)"
  by simp

lemma keeps_reader: "(\<And>x. keeps R (f x)) \<Longrightarrow> keeps R (\<lambda>s. f (g s) s)"
  by (auto simp: keeps_def)

end

section \<open>Lists and dictionaries\<close>

text \<open>\<open>xs[i:j]\<close> for \<open>0 \<le> i\<close>.\<close>

definition py_slice :: "'a list \<Rightarrow> nat \<Rightarrow> nat \<Rightarrow> 'a list" where
  "py_slice xs i j = take (j - i) (drop i xs)"

lemma py_slice_append: "i \<le> j \<Longrightarrow> j \<le> k \<Longrightarrow> py_slice xs i j @ py_slice xs j k = py_slice xs i k"
  using take_add [of "j - i" "k - j" "drop i xs"] by (simp add: py_slice_def add.commute)

lemma length_py_slice: "j \<le> length xs \<Longrightarrow> length (py_slice xs i j) = j - i"
  by (simp add: py_slice_def)

lemma py_slice_to_end: "py_slice xs i (length xs) = drop i xs"
  by (simp add: py_slice_def)

text \<open>
  The consecutive pieces of length \<open>n\<close> of a list, the last one possibly shorter: what
  \<open>[xs[i:i+n] for i in range(0, len(xs), n)]\<close> and repeated \<open>f.read(n)\<close> both yield.
\<close>

function pieces :: "nat \<Rightarrow> 'a list \<Rightarrow> 'a list list" where
  "pieces n xs = (if n = 0 \<or> xs = [] then [] else take n xs # pieces n (drop n xs))"
  by pat_completeness auto
termination
  by (relation "measure (\<lambda>(n, xs). length xs)") auto

declare pieces.simps [simp del]

lemma pieces_Nil [simp]: "pieces n [] = []"
  by (simp add: pieces.simps)

lemma pieces_step: "0 < n \<Longrightarrow> xs \<noteq> [] \<Longrightarrow> pieces n xs = take n xs # pieces n (drop n xs)"
  by (subst pieces.simps) simp

lemma concat_pieces: "0 < n \<Longrightarrow> concat (pieces n xs) = xs"
proof (induction n xs rule: pieces.induct)
  case (1 n xs)
  then show ?case by (cases "xs = []") (auto simp: pieces_step)
qed

lemma pieces_sizes: "b \<in> set (pieces n xs) \<Longrightarrow> b \<noteq> [] \<and> length b \<le> n"
proof (induction n xs rule: pieces.induct)
  case (1 n xs)
  show ?case
  proof (cases "n = 0 \<or> xs = []")
    case True
    with "1.prems" show ?thesis by (auto simp: pieces.simps)
  next
    case False
    with 1 show ?thesis by (auto simp: pieces_step)
  qed
qed

lemma pieces_full: "0 < n \<Longrightarrow> b \<in> set (butlast (pieces n xs)) \<Longrightarrow> length b = n"
proof (induction n xs rule: pieces.induct)
  case (1 n xs)
  show ?case
  proof (cases "n = 0 \<or> xs = []")
    case True
    with "1.prems" show ?thesis by (auto simp: pieces.simps)
  next
    case False
    with 1 show ?thesis
      by (cases "drop n xs = []") (auto simp: pieces_step split: if_splits)
  qed
qed

lemma pieces_append:
  "0 < n \<Longrightarrow> n dvd length xs \<Longrightarrow> pieces n (xs @ ys) = pieces n xs @ pieces n ys"
proof (induction n xs rule: pieces.induct)
  case (1 n xs)
  show ?case
  proof (cases "xs = []")
    case False
    with "1.prems" have "n \<le> length xs"
      by (simp add: dvd_imp_le)
    with False 1 show ?thesis
      by (simp add: pieces_step [of n "xs @ ys"] pieces_step [of n xs] dvd_diff_nat)
  qed simp
qed

text \<open>
  Reading in a buffer that is a multiple of the block size and cutting each buffer into blocks
  gives the blocks of the whole: no block straddles a buffer boundary.
\<close>

lemma pieces_of_pieces:
  assumes "0 < n" and "n dvd m" and "0 < m"
  shows "concat (map (pieces n) (pieces m xs)) = pieces n xs"
  using assms
proof (induction m xs rule: pieces.induct)
  case (1 m xs)
  show ?case
  proof (cases "xs = []")
    case False
    then have eq: "concat (map (pieces n) (pieces m xs)) = pieces n (take m xs) @ pieces n (drop m xs)"
      using 1 by (simp add: pieces_step)
    show ?thesis
    proof (cases "length xs \<le> m")
      case True
      with eq show ?thesis by simp
    next
      case False
      then have "n dvd length (take m xs)" using "1.prems" by simp
      from pieces_append [OF _ this, of "drop m xs"] show ?thesis
        using eq "1.prems" by simp
    qed
  qed simp
qed

lemma map_of_update [simp]: "map_of (AList.update k v d) k' = (if k' = k then Some v else map_of d k')"
  by (simp add: update_conv)

lemma map_of_deleted [simp]: "map_of (AList.delete k d) k' = (if k' = k then None else map_of d k')"
  by (simp add: delete_conv')

lemma find_None_iff_key: "find (\<lambda>r. key r = k) xs = None \<longleftrightarrow> k \<notin> key ` set xs"
  by (auto simp: find_None_iff)

lemma find_SomeD: "find P xs = Some x \<Longrightarrow> x \<in> set xs \<and> P x"
  by (auto simp: find_Some_iff)

lemma find_key_distinct:
  "distinct (map key xs) \<Longrightarrow> x \<in> set xs \<Longrightarrow> find (\<lambda>r. key r = key x) xs = Some x"
  by (induction xs) auto

lemma find_append: "find P (xs @ ys) = (case find P xs of None \<Rightarrow> find P ys | Some x \<Rightarrow> Some x)"
  by (induction xs) auto


section \<open>Text\<close>

definition digit_char :: "nat \<Rightarrow> char" where
  "digit_char n = char_of (48 + n)"

text \<open>\<open>str(n)\<close> of a non-negative integer, and of any integer.\<close>

fun show_nat :: "nat \<Rightarrow> string" where
  "show_nat n = (if n < 10 then [digit_char n] else show_nat (n div 10) @ [digit_char (n mod 10)])"

declare show_nat.simps [simp del]

definition show_int :: "int \<Rightarrow> string" where
  "show_int i = (if i < 0 then CHR ''-'' # show_nat (nat (- i)) else show_nat (nat i))"

text \<open>\<open>%0<w>d\<close>.\<close>

definition pad_nat :: "nat \<Rightarrow> nat \<Rightarrow> string" where
  "pad_nat w n = replicate (w - length (show_nat n)) (CHR ''0'') @ show_nat n"

text \<open>\<open>s.encode()\<close> and its inverse on ASCII text, and \<open>bytes.hex()\<close>.\<close>

definition encode :: "string \<Rightarrow> bytes" where
  "encode s = map of_char s"

definition decode_bytes :: "bytes \<Rightarrow> string" where
  "decode_bytes bs = map (\<lambda>b. char_of (unat b)) bs"

text \<open>\<open>%r\<close> of a byte string.\<close>

definition bytes_repr :: "bytes \<Rightarrow> string" where
  "bytes_repr bs = CHR ''b'' # py_repr (decode_bytes bs)"

definition hex_byte :: "byte \<Rightarrow> string" where
  "hex_byte b = [hex_digit (unat b div 16), hex_digit (unat b)]"

definition hex_of :: "bytes \<Rightarrow> string" where
  "hex_of bs = concat (map hex_byte bs)"

lemma of_char_digit [simp]: "n < 10 \<Longrightarrow> of_char (digit_char n) = 48 + n"
  by (simp add: digit_char_def)

definition read_nat :: "string \<Rightarrow> nat" where
  "read_nat s = foldl (\<lambda>acc c. 10 * acc + (of_char c - 48)) 0 s"

lemma read_show_nat [simp]: "read_nat (show_nat n) = n"
proof (induction n rule: show_nat.induct)
  case (1 n)
  show ?case
  proof (cases "n < 10")
    case True
    then show ?thesis by (subst show_nat.simps) (simp add: read_nat_def)
  next
    case False
    with 1 have "read_nat (show_nat (n div 10)) = n div 10" by simp
    then have "foldl (\<lambda>acc c. 10 * acc + (of_char c - 48)) 0 (show_nat (n div 10)) = n div 10"
      by (simp add: read_nat_def)
    with False show ?thesis by (subst show_nat.simps) (simp add: read_nat_def)
  qed
qed

lemma show_nat_inj [simp]: "show_nat m = show_nat n \<longleftrightarrow> m = n"
  by (metis read_show_nat)

lemma show_nat_digits: "c \<in> set (show_nat n) \<Longrightarrow> c \<in> digit_char ` {..<10}"
proof (induction n rule: show_nat.induct)
  case (1 n)
  then show ?case by (subst (asm) show_nat.simps) (auto split: if_splits)
qed

lemma digit_char_cases: "c \<in> digit_char ` {..<10} \<Longrightarrow> 48 \<le> (of_char c :: nat) \<and> (of_char c :: nat) \<le> 57"
  by auto

lemma show_nat_range: "c \<in> set (show_nat n) \<Longrightarrow> 48 \<le> (of_char c :: nat) \<and> (of_char c :: nat) \<le> 57"
  by (drule show_nat_digits) (rule digit_char_cases)

lemma show_nat_nonempty [simp]: "show_nat n \<noteq> []"
  by (subst show_nat.simps) simp

text \<open>The part of a text up to its first separator is determined by the whole.\<close>

lemma append_sep_inj:
  "c \<notin> set a \<Longrightarrow> c \<notin> set b \<Longrightarrow> a @ c # x = b @ c # y \<longleftrightarrow> a = b \<and> x = y"
  by (induction a arbitrary: b; case_tac b) auto

lemma inj_hex_digit: "m < 16 \<Longrightarrow> n < 16 \<Longrightarrow> hex_digit m = hex_digit n \<Longrightarrow> m = n"
  using nth_eq_iff_index_eq [of "''0123456789abcdef''" m n] by (simp add: hex_digit_def)

lemma hex_digit_mod: "hex_digit m = hex_digit n \<Longrightarrow> m mod 16 = n mod 16"
  using inj_hex_digit [of "m mod 16" "n mod 16"] by (simp add: hex_digit_def)

lemma hex_byte_inj: "hex_byte a = hex_byte b \<longleftrightarrow> a = b"
proof
  assume eq: "hex_byte a = hex_byte b"
  have "unat a div 16 < 16" "unat b div 16 < 16"
    using unsigned_less [of a, where ?'a = nat] unsigned_less [of b, where ?'a = nat] by auto
  then have "unat a div 16 = unat b div 16" "unat a mod 16 = unat b mod 16"
    using eq hex_digit_mod [of "unat a div 16" "unat b div 16"] hex_digit_mod [of "unat a" "unat b"]
    by (simp_all add: hex_byte_def)
  then show "a = b" by (metis div_mult_mod_eq unsigned_word_eqI)
qed simp

lemma hex_of_inj [simp]: "hex_of a = hex_of b \<longleftrightarrow> a = b"
proof (induction a arbitrary: b)
  case Nil
  then show ?case by (cases b) (simp_all add: hex_of_def hex_byte_def)
next
  case (Cons x xs)
  then show ?case using hex_byte_inj
    by (cases b) (auto simp: hex_of_def hex_byte_def)
qed

lemma length_hex_of [simp]: "length (hex_of a) = 2 * length a"
  by (induction a) (simp_all add: hex_of_def hex_byte_def)

lemma hex_digit_range: "hex_digit n \<in> set ''0123456789abcdef''"
  unfolding hex_digit_def by (rule nth_mem) simp

lemma hex_of_chars: "c \<in> set (hex_of a) \<Longrightarrow> c \<in> set ''0123456789abcdef''"
  using hex_digit_range by (fastforce simp: hex_of_def hex_byte_def)

lemma length_encode [simp]: "length (encode s) = length s"
  by (simp add: encode_def)

lemma encode_Nil_iff [simp]: "encode s = [] \<longleftrightarrow> s = []" "[] = encode s \<longleftrightarrow> s = []"
  by (simp_all add: encode_def)

lemma encode_append [simp]: "encode (s @ t) = encode s @ encode t"
  by (simp add: encode_def)

lemma char_of_byte [simp]: "char_of (unat (of_char c :: byte)) = c"
proof -
  have "unat (of_char c :: byte) = of_char c"
    using of_nat_of_char [of c, where ?'a = byte, symmetric]
    by (simp add: unat_of_nat take_bit_nat_eq_self_iff)
  then show ?thesis by simp
qed

lemma decode_encode [simp]: "decode_bytes (encode s) = s"
  by (induction s) (simp_all add: encode_def decode_bytes_def)

lemma encode_inj [simp]: "encode s = encode t \<longleftrightarrow> s = t"
  by (metis decode_encode)


section \<open>Indexing\<close>

text \<open>\<open>xs[i]\<close>: a negative index counts from the end, an index out of range raises.\<close>

definition py_index :: "'a list \<Rightarrow> int \<Rightarrow> exn + 'a" where
  "py_index xs i =
     (if 0 \<le> i \<and> i < int (length xs) then Inr (xs ! nat i)
      else if - int (length xs) \<le> i \<and> i < 0 then Inr (xs ! nat (int (length xs) + i))
      else Inl (IndexError ''list index out of range''))"

lemma py_index_nat [simp]: "i < length xs \<Longrightarrow> py_index xs (int i) = Inr (xs ! i)"
  by (simp add: py_index_def)

section \<open>Rounding\<close>

text \<open>
  \<open>round(x, n)\<close>: to the nearest multiple of \<open>10\<^sup>-\<^sup>n\<close>, ties to the even one. Floating-point numbers are
  modelled by rationals throughout the development.
\<close>

definition round_half_even :: "rat \<Rightarrow> int" where
  "round_half_even x =
     (let f = \<lfloor>x\<rfloor>; d = x - of_int f
      in if d < 1 / 2 then f else if 1 / 2 < d then f + 1 else if even f then f else f + 1)"

definition py_round :: "rat \<Rightarrow> nat \<Rightarrow> rat" where
  "py_round x n = of_int (round_half_even (x * 10 ^ n)) / 10 ^ n"

lemma round_half_even_bounds: "x - 1 / 2 \<le> of_int (round_half_even x) \<and> of_int (round_half_even x) \<le> x + 1 / 2"
proof -
  have f: "of_int \<lfloor>x\<rfloor> \<le> x" "x < of_int \<lfloor>x\<rfloor> + 1" by linarith+
  show ?thesis
    unfolding round_half_even_def Let_def using f by (auto split: if_splits) linarith+
qed

lemma round_half_even_int [simp]: "round_half_even (of_int i) = i"
  by (simp add: round_half_even_def)

lemma py_round_error: "\<bar>py_round x n - x\<bar> \<le> 1 / (2 * 10 ^ n)"
proof -
  have p: "(0::rat) < 10 ^ n" by simp
  have "\<bar>of_int (round_half_even (x * 10 ^ n)) - x * 10 ^ n\<bar> \<le> 1 / 2"
    using round_half_even_bounds [of "x * 10 ^ n"] by linarith
  then have "\<bar>of_int (round_half_even (x * 10 ^ n)) - x * 10 ^ n\<bar> / 10 ^ n \<le> 1 / 2 / 10 ^ n"
    using p by (intro divide_right_mono) auto
  moreover have "py_round x n - x = (of_int (round_half_even (x * 10 ^ n)) - x * 10 ^ n) / 10 ^ n"
    using p by (simp add: py_round_def diff_divide_distrib)
  ultimately show ?thesis by (simp add: abs_divide)
qed

lemma round_half_even_mono: "x \<le> y \<Longrightarrow> round_half_even x \<le> round_half_even y"
proof (rule ccontr)
  assume le: "x \<le> y" and "\<not> round_half_even x \<le> round_half_even y"
  then have less: "round_half_even y + 1 \<le> round_half_even x" by linarith
  have "of_int (round_half_even x) \<le> x + 1 / 2" "y - 1 / 2 \<le> of_int (round_half_even y)"
    using round_half_even_bounds [of x] round_half_even_bounds [of y] by blast+
  moreover have "of_int (round_half_even y) + 1 \<le> (of_int (round_half_even x) :: rat)" using less by linarith
  ultimately have "x = y" using le by linarith
  with less show False by simp
qed

lemma py_round_mono: "x \<le> y \<Longrightarrow> py_round x n \<le> py_round y n"
proof -
  assume "x \<le> y"
  then have "round_half_even (x * 10 ^ n) \<le> round_half_even (y * 10 ^ n)"
    by (intro round_half_even_mono mult_right_mono) simp_all
  then show ?thesis unfolding py_round_def by (intro divide_right_mono) simp_all
qed

end
