(* ===== verification/Chunking.thy ===== *)
theory Chunking
  imports Klados_Prelude
begin

text \<open>
  How the content-addressed store cuts data into chunks (\<open>CAS._blocks\<close> and the gear table of
  \<open>spikes/storage/cas.py\<close>): fixed-size blocks, or content-defined chunks found by a 64-bit gear
  hash. BLAKE2b is a parameter. Both cutters are shown lossless, with the size bounds the code
  announces.
\<close>

unbundle bit_operations_syntax

section \<open>The gear table\<close>

text \<open>\<open>int.from_bytes(bs, "big")\<close>.\<close>

definition from_bytes_big :: "bytes \<Rightarrow> int" where
  "from_bytes_big bs = foldl (\<lambda>acc b. acc * 256 + uint b) 0 bs"

text \<open>
  One entry of \<open>_GEAR\<close>. \<open>blake8\<close> is \<open>hashlib.blake2b(_, digest_size=8).digest()\<close>; the code
  hashes \<open>bytes([i])\<close> twice, shifts the first byte of one digest up by 56 and ORs it onto the
  digest read as a big-endian integer.
\<close>

definition gear_entry :: "(bytes \<Rightarrow> bytes) \<Rightarrow> byte \<Rightarrow> 64 word" where
  "gear_entry blake8 i =
     word_of_int ((push_bit 56 (uint (blake8 [i] ! 0)) OR from_bytes_big (blake8 [i]))
                  AND 0xFFFFFFFFFFFFFFFF)"

section \<open>Cutting\<close>

text \<open>
  The loop of the content-defined branch. \<open>i\<close> is the loop index, \<open>start\<close> the start of the open
  chunk, \<open>h\<close> the rolling hash (64 bits, so the mask of the code is the word's own wrap-around).
\<close>

definition gear_step :: "(byte \<Rightarrow> 64 word) \<Rightarrow> 64 word \<Rightarrow> byte \<Rightarrow> 64 word" where
  "gear_step gear h b = push_bit 1 h + gear b"

definition cdc_cut :: "64 word \<Rightarrow> nat \<Rightarrow> nat \<Rightarrow> nat \<Rightarrow> 64 word \<Rightarrow> bool" where
  "cdc_cut msk mn mx sz h \<longleftrightarrow> (mn \<le> sz \<and> h AND msk = 0) \<or> mx \<le> sz"

function cdc_loop ::
  "64 word \<Rightarrow> nat \<Rightarrow> nat \<Rightarrow> (byte \<Rightarrow> 64 word) \<Rightarrow> bytes \<Rightarrow> nat \<Rightarrow> nat \<Rightarrow> 64 word \<Rightarrow> bytes list" where
  "cdc_loop msk mn mx gear data i start h =
     (if i < length data then
        let h' = gear_step gear h (data ! i);
            sz = i - start + 1
        in if cdc_cut msk mn mx sz h'
           then py_slice data start (i + 1) # cdc_loop msk mn mx gear data (i + 1) (i + 1) 0
           else cdc_loop msk mn mx gear data (i + 1) start h'
      else if start < length data then [drop start data] else [])"
  by pat_completeness auto
termination
  by (relation "measure (\<lambda>(msk, mn, mx, gear, data, i, start, h). length data - i)") auto

declare cdc_loop.simps [simp del]

definition cdc_mask :: "64 word" where "cdc_mask = push_bit 13 1 - 1"
definition cdc_min :: nat where "cdc_min = 2048"
definition cdc_max :: nat where "cdc_max = 65536"

definition cdc_blocks :: "(byte \<Rightarrow> 64 word) \<Rightarrow> bytes \<Rightarrow> bytes list" where
  "cdc_blocks gear data = cdc_loop cdc_mask cdc_min cdc_max gear data 0 0 0"

text \<open>
  \<open>_blocks\<close>. The fixed-size branch iterates over \<open>range(0, len(data), block)\<close>: a zero step
  raises, a negative one yields nothing.
\<close>

definition blocks :: "bool \<Rightarrow> int \<Rightarrow> (byte \<Rightarrow> 64 word) \<Rightarrow> bytes \<Rightarrow> exn + bytes list" where
  "blocks cdc block gear data =
     (if \<not> cdc then
        (if block = 0 then Inl (ValueError ''range() arg 3 must not be zero'')
         else if block < 0 then Inr []
         else Inr (pieces (nat block) data))
      else Inr (cdc_blocks gear data))"

section \<open>The gear entries\<close>

lemma from_bytes_big_bound: "0 \<le> foldl (\<lambda>acc b. acc * 256 + uint (b::byte)) 0 bs
    \<and> foldl (\<lambda>acc b. acc * 256 + uint (b::byte)) 0 bs < 256 ^ length bs"
proof (induction bs rule: rev_induct)
  case (snoc b bs)
  have "0 \<le> uint b" and "uint b < 256"
    using uint_lt2p [of b] by simp_all
  with snoc show ?case by simp
qed simp

lemma from_bytes_big_head:
  assumes "length bs = Suc n"
  shows "from_bytes_big bs div 256 ^ n = uint (bs ! 0)"
proof -
  obtain b cs where bs: "bs = b # cs" and n: "length cs = n"
    using assms by (cases bs) auto
  have shift: "foldl (\<lambda>acc x. acc * 256 + uint (x::byte)) a cs
      = a * 256 ^ length cs + foldl (\<lambda>acc x. acc * 256 + uint x) 0 cs" for a
    by (induction cs rule: rev_induct) (simp_all add: algebra_simps)
  show ?thesis
    using shift [of "uint b"] from_bytes_big_bound [of cs] n
    by (simp add: from_bytes_big_def bs)
qed

text \<open>
  The shifted first byte is redundant: for an 8-byte digest the table entry is exactly the
  digest read as a big-endian number, so the OR of the code changes nothing.
\<close>

lemma gear_entry_is_digest:
  assumes "length (blake8 [i]) = 8"
  shows "uint (gear_entry blake8 i) = from_bytes_big (blake8 [i])"
proof -
  let ?y = "from_bytes_big (blake8 [i])"
  have head: "drop_bit 56 ?y = uint (blake8 [i] ! 0)"
    using from_bytes_big_head [of "blake8 [i]" 7] assms by (simp add: drop_bit_eq_div)
  have "push_bit 56 (uint (blake8 [i] ! 0)) OR ?y = ?y"
    by (rule bit_eqI) (auto simp: bit_simps head [symmetric])
  moreover have "0 \<le> ?y" "?y < 2 ^ 64"
    using from_bytes_big_bound [of "blake8 [i]"] assms by (simp_all add: from_bytes_big_def)
  moreover have "?y AND 0xFFFFFFFFFFFFFFFF = take_bit 64 ?y"
    by (simp add: take_bit_eq_mask mask_eq_exp_minus_1)
  ultimately show ?thesis
    by (simp add: gear_entry_def uint_word_of_int take_bit_eq_mod)
qed


section \<open>Content-defined chunks\<close>

lemma cdc_loop_cut:
  assumes "i < length data"
    and "cdc_cut msk mn mx (i - start + 1) (gear_step gear h (data ! i))"
  shows "cdc_loop msk mn mx gear data i start h =
    py_slice data start (i + 1) # cdc_loop msk mn mx gear data (i + 1) (i + 1) 0"
  using assms by (subst cdc_loop.simps) (simp add: Let_def)

lemma cdc_loop_go:
  assumes "i < length data"
    and "\<not> cdc_cut msk mn mx (i - start + 1) (gear_step gear h (data ! i))"
  shows "cdc_loop msk mn mx gear data i start h =
    cdc_loop msk mn mx gear data (i + 1) start (gear_step gear h (data ! i))"
  using assms by (subst cdc_loop.simps) (simp add: Let_def)

lemma cdc_loop_stop:
  "\<not> i < length data \<Longrightarrow>
    cdc_loop msk mn mx gear data i start h = (if start < length data then [drop start data] else [])"
  by (subst cdc_loop.simps) simp

lemma cdc_loop_concat:
  "start \<le> i \<Longrightarrow> i \<le> length data \<Longrightarrow>
    concat (cdc_loop msk mn mx gear data i start h) = drop start data"
proof (induction msk mn mx gear data i start h rule: cdc_loop.induct)
  case (1 msk mn mx gear data i start h)
  let ?cut = "cdc_cut msk mn mx (i - start + 1) (gear_step gear h (data ! i))"
  consider "\<not> i < length data" | "i < length data" "?cut" | "i < length data" "\<not> ?cut"
    by blast
  then show ?case
  proof cases
    case 1
    then show ?thesis by (simp add: cdc_loop_stop)
  next
    case 2
    have "concat (cdc_loop msk mn mx gear data (i + 1) (i + 1) 0) = drop (i + 1) data"
      by (rule "1.IH"(1)) (use 2 in auto)
    moreover have "py_slice data start (i + 1) @ drop (i + 1) data = drop start data"
      using py_slice_append [of start "i + 1" "length data" data] 1 2 by (simp add: py_slice_to_end)
    ultimately show ?thesis by (simp add: cdc_loop_cut [OF 2])
  next
    case 3
    have "concat (cdc_loop msk mn mx gear data (i + 1) start (gear_step gear h (data ! i))) = drop start data"
      by (rule "1.IH"(2)) (use 3 1 in auto)
    then show ?thesis by (simp add: cdc_loop_go [OF 3])
  qed
qed

text \<open>
  Sizes: no chunk is empty or longer than \<open>mx\<close>, and only the last can be shorter than \<open>mn\<close>. The
  loop runs with the open chunk still shorter than \<open>mx\<close>.
\<close>

lemma cdc_loop_sizes:
  "start \<le> i \<Longrightarrow> i \<le> length data \<Longrightarrow> i - start < mx \<Longrightarrow> mn \<le> mx \<Longrightarrow>
    (\<forall>c \<in> set (cdc_loop msk mn mx gear data i start h). c \<noteq> [] \<and> length c \<le> mx) \<and>
    (\<forall>c \<in> set (butlast (cdc_loop msk mn mx gear data i start h)). mn \<le> length c)"
proof (induction msk mn mx gear data i start h rule: cdc_loop.induct)
  case (1 msk mn mx gear data i start h)
  let ?cut = "cdc_cut msk mn mx (i - start + 1) (gear_step gear h (data ! i))"
  consider "\<not> i < length data" | "i < length data" "?cut" | "i < length data" "\<not> ?cut"
    by blast
  then show ?case
  proof cases
    case 1
    then show ?thesis using "1.prems" by (auto simp: cdc_loop_stop)
  next
    case 2
    let ?r = "cdc_loop msk mn mx gear data (i + 1) (i + 1) 0"
    have len: "length (py_slice data start (i + 1)) = i + 1 - start"
      using 2 by (simp add: length_py_slice)
    have "(\<forall>c \<in> set ?r. c \<noteq> [] \<and> length c \<le> mx) \<and> (\<forall>c \<in> set (butlast ?r). mn \<le> length c)"
      by (rule "1.IH"(1)) (use 2 "1.prems" in \<open>auto\<close>)
    then show ?thesis
      using len "1.prems" 2 by (auto simp: cdc_loop_cut [OF 2] cdc_cut_def)
  next
    case 3
    let ?r = "cdc_loop msk mn mx gear data (i + 1) start (gear_step gear h (data ! i))"
    have "(\<forall>c \<in> set ?r. c \<noteq> [] \<and> length c \<le> mx) \<and> (\<forall>c \<in> set (butlast ?r). mn \<le> length c)"
      by (rule "1.IH"(2)) (use 3 "1.prems" in \<open>auto simp: cdc_cut_def\<close>)
    then show ?thesis by (simp add: cdc_loop_go [OF 3])
  qed
qed

text \<open>
  The loop looks at the data from \<open>start\<close> on only: what came before a chunk boundary cannot
  influence the cuts after it.
\<close>

lemma cdc_loop_shift:
  "start \<le> i \<Longrightarrow>
    cdc_loop msk mn mx gear (pre @ data) (length pre + i) (length pre + start) h
    = cdc_loop msk mn mx gear data i start h"
proof (induction msk mn mx gear data i start h rule: cdc_loop.induct)
  case (1 msk mn mx gear data i start h)
  let ?cut = "cdc_cut msk mn mx (i - start + 1) (gear_step gear h (data ! i))"
  consider "\<not> i < length data" | "i < length data" "?cut" | "i < length data" "\<not> ?cut"
    by blast
  then show ?case
  proof cases
    case 1
    then show ?thesis by (simp add: cdc_loop_stop)
  next
    case 2
    have "cdc_loop msk mn mx gear (pre @ data) (length pre + (i + 1)) (length pre + (i + 1)) 0
        = cdc_loop msk mn mx gear data (i + 1) (i + 1) 0"
      by (rule "1.IH"(1)) (use 2 in auto)
    with 2 show ?thesis
      by (simp add: cdc_loop_cut py_slice_def)
  next
    case 3
    have "cdc_loop msk mn mx gear (pre @ data) (length pre + (i + 1)) (length pre + start)
            (gear_step gear h (data ! i))
        = cdc_loop msk mn mx gear data (i + 1) start (gear_step gear h (data ! i))"
      by (rule "1.IH"(2)) (use 3 "1.prems" in auto)
    with 3 show ?thesis by (simp add: cdc_loop_go)
  qed
qed

lemma cdc_loop_tail:
  "start \<le> i \<Longrightarrow> i \<le> length data \<Longrightarrow> cdc_loop msk mn mx gear data i start h = c # cs \<Longrightarrow>
    cs = cdc_loop msk mn mx gear (drop (start + length c) data) 0 0 0"
proof (induction msk mn mx gear data i start h rule: cdc_loop.induct)
  case (1 msk mn mx gear data i start h)
  let ?cut = "cdc_cut msk mn mx (i - start + 1) (gear_step gear h (data ! i))"
  consider "\<not> i < length data" | "i < length data" "?cut" | "i < length data" "\<not> ?cut"
    by blast
  then show ?case
  proof cases
    case 1
    then show ?thesis using "1.prems" by (auto simp: cdc_loop_stop split: if_splits)
  next
    case 2
    then have c: "c = py_slice data start (i + 1)" and cs: "cs = cdc_loop msk mn mx gear data (i + 1) (i + 1) 0"
      using "1.prems" by (simp_all add: cdc_loop_cut)
    have "start + length c = i + 1"
      using 2 "1.prems" by (simp add: c length_py_slice)
    moreover have "cs = cdc_loop msk mn mx gear (drop (i + 1) data) 0 0 0"
      using cdc_loop_shift [of 0 0 msk mn mx gear "take (i + 1) data" "drop (i + 1) data" 0] 2 cs
      by (simp add: min_absorb2)
    ultimately show ?thesis by simp
  next
    case 3
    show ?thesis
      by (rule "1.IH"(2)) (use 3 "1.prems" in \<open>auto simp: cdc_loop_go\<close>)
  qed
qed

lemma cdc_blocks_Cons: "cdc_blocks gear data = c # cs \<Longrightarrow> cs = cdc_blocks gear (drop (length c) data)"
  unfolding cdc_blocks_def by (drule cdc_loop_tail [rotated 2]) auto

lemma cdc_blocks_drop:
  "drop k (cdc_blocks gear data) = cdc_blocks gear (drop (length (concat (take k (cdc_blocks gear data)))) data)"
proof (induction k arbitrary: data)
  case (Suc k)
  show ?case
  proof (cases "cdc_blocks gear data")
    case Nil
    then have "data = []"
      using cdc_loop_concat [of 0 0 data cdc_mask cdc_min cdc_max gear 0] by (simp add: cdc_blocks_def)
    with Nil show ?thesis by simp
  next
    case (Cons c cs)
    with Suc [of "drop (length c) data"] cdc_blocks_Cons [OF Cons] show ?thesis
      by (simp add: add.commute)
  qed
qed simp

section \<open>Properties of the cutters\<close>

text \<open>
  Chunking is lossless: whatever mode and block size, whenever \<open>_blocks\<close> does not raise and the
  block size is positive, the concatenation of the chunks it yields is the data.
\<close>

theorem blocks_lossless:
  assumes "blocks cdc block gear data = Inr bs" and "cdc \<or> 0 < block"
  shows "concat bs = data"
  using assms cdc_loop_concat [of 0 0 data cdc_mask cdc_min cdc_max gear 0]
  by (auto simp: blocks_def cdc_blocks_def concat_pieces split: if_splits)

theorem blocks_lossless_witness:
  "\<exists>bs. blocks False 2 (\<lambda>_. 0) [1, 2, 3] = Inr bs \<and> length bs = 2 \<and> concat bs = [1, 2, 3]"
proof -
  have b: "blocks False 2 (\<lambda>_. 0) [1, 2, 3] = Inr [[1, 2], [3]]"
    by (simp add: blocks_def pieces.simps numeral_2_eq_2)
  show ?thesis using b blocks_lossless [OF b] by auto
qed

text \<open>
  The size bounds of the content-defined mode: every chunk is non-empty and at most 64 KiB,
  and every chunk but the last is at least 2 KiB.
\<close>

theorem cdc_chunk_sizes:
  assumes "c \<in> set (cdc_blocks gear data)"
  shows "0 < length c \<and> length c \<le> 65536 \<and> (c \<in> set (butlast (cdc_blocks gear data)) \<longrightarrow> 2048 \<le> length c)"
  using assms cdc_loop_sizes [of 0 0 data cdc_max cdc_min cdc_mask gear 0]
  by (auto simp: cdc_blocks_def cdc_max_def cdc_min_def)

theorem cdc_chunk_sizes_witness:
  "cdc_blocks (\<lambda>_. 1) [7, 7] = [[7, 7]] \<and> 0 < length [7::byte, 7] \<and> length [7::byte, 7] \<le> 65536"
proof -
  have b: "cdc_blocks (\<lambda>_. 1) [7, 7] = [[7, 7]]"
    by (simp add: cdc_blocks_def cdc_loop.simps cdc_min_def cdc_max_def cdc_cut_def Let_def)
  show ?thesis using b cdc_chunk_sizes [of "[7, 7]" "\<lambda>_. 1" "[7, 7]"] by simp
qed

text \<open>
  C38. Content-defined cuts resynchronise: if two images share the suffix that follows a chunk
  boundary of each, they have the same chunks from there on, whatever came before and however far
  it was shifted. This is what makes shifted data deduplicate.
\<close>

theorem cdc_resync:
  assumes "drop (length (concat (take j (cdc_blocks gear d1)))) d1
         = drop (length (concat (take k (cdc_blocks gear d2)))) d2"
  shows "drop j (cdc_blocks gear d1) = drop k (cdc_blocks gear d2)"
  using assms by (simp add: cdc_blocks_drop)

theorem cdc_resync_witness:
  "drop 1 (cdc_blocks (\<lambda>_. 1) [7]) = drop 1 (cdc_blocks (\<lambda>_. 1) [9, 9])"
  by (rule cdc_resync) (simp add: cdc_blocks_def cdc_loop.simps cdc_min_def cdc_max_def cdc_cut_def Let_def)

end
