(* ===== verification/Object_Store.thy ===== *)
theory Object_Store
  imports Klados_Prelude
begin

text \<open>
  The cold tier: the S3 client of \<open>spikes/storage/s3.py\<close> (class \<open>S3\<close>: SigV4 headers, the request,
  \<open>make_bucket\<close>, \<open>put\<close>, \<open>get\<close>, \<open>head\<close>) and, as a locale, the object interface the chunk store
  expects of it ("duck-typed: put/get/head"). The server, SHA-256, HMAC and the clock are parameters
  of the client record; \<open>s3_server\<close> states what an S3 server documents about its objects.
\<close>

section \<open>The client\<close>

record utc =
  u_year :: nat
  u_month :: nat
  u_day :: nat
  u_hour :: nat
  u_minute :: nat
  u_second :: nat

record http_request =
  rq_method :: string
  rq_uri :: string
  rq_headers :: "(string \<times> string) list"
  rq_body :: "bytes option"

text \<open>
  \<open>S3.__init__\<close>'s fields, and what the client calls: \<open>hashlib.sha256(_).digest()\<close>,
  \<open>hmac.new(key, msg, sha256).digest()\<close>, \<open>datetime.now(timezone.utc)\<close> and one HTTP exchange with
  the endpoint. \<open>objects\<close> is the server's content by request path, an observer used in statements only.
\<close>

record 'srv s3_client =
  host :: string
  access :: string
  secret :: string
  region :: string
  sha256 :: "bytes \<Rightarrow> bytes"
  hmac_sha256 :: "bytes \<Rightarrow> bytes \<Rightarrow> bytes"
  utc_now :: "'srv \<Rightarrow> utc"
  http :: "http_request \<Rightarrow> 'srv \<Rightarrow> (exn + nat \<times> bytes) \<times> 'srv"
  objects :: "'srv \<Rightarrow> string \<Rightarrow> bytes option"

definition nl :: char where "nl = CHR 0x0A"

definition datestamp :: "utc \<Rightarrow> string" where
  "datestamp t = show_nat (u_year t) @ pad_nat 2 (u_month t) @ pad_nat 2 (u_day t)"

definition amzdate :: "utc \<Rightarrow> string" where
  "amzdate t = show_nat (u_year t) @ pad_nat 2 (u_month t) @ pad_nat 2 (u_day t) @ ''T'' @
     pad_nat 2 (u_hour t) @ pad_nat 2 (u_minute t) @ pad_nat 2 (u_second t) @ ''Z''"

definition empty_sha :: "'srv s3_client \<Rightarrow> string" where
  "empty_sha C = hex_of (sha256 C [])"

definition payload_hash :: "'srv s3_client \<Rightarrow> bytes \<Rightarrow> string" where
  "payload_hash C payload = (if payload \<noteq> [] then hex_of (sha256 C payload) else empty_sha C)"

definition canonical_headers :: "'srv s3_client \<Rightarrow> utc \<Rightarrow> bytes \<Rightarrow> string" where
  "canonical_headers C t payload =
     ''host:'' @ host C @ [nl] @
     ''x-amz-content-sha256:'' @ payload_hash C payload @ [nl] @
     ''x-amz-date:'' @ amzdate t @ [nl]"

definition signed_headers :: string where
  "signed_headers = ''host;x-amz-content-sha256;x-amz-date''"

definition canonical_request :: "'srv s3_client \<Rightarrow> utc \<Rightarrow> string \<Rightarrow> string \<Rightarrow> bytes \<Rightarrow> string" where
  "canonical_request C t meth uri payload =
     meth @ [nl] @ uri @ [nl, nl] @ canonical_headers C t payload @ [nl] @ signed_headers @ [nl] @
     payload_hash C payload"

definition scope :: "'srv s3_client \<Rightarrow> utc \<Rightarrow> string" where
  "scope C t = datestamp t @ ''/'' @ region C @ ''/s3/aws4_request''"

definition string_to_sign :: "'srv s3_client \<Rightarrow> utc \<Rightarrow> string \<Rightarrow> string \<Rightarrow> bytes \<Rightarrow> string" where
  "string_to_sign C t meth uri payload =
     ''AWS4-HMAC-SHA256'' @ [nl] @ amzdate t @ [nl] @ scope C t @ [nl] @
     hex_of (sha256 C (encode (canonical_request C t meth uri payload)))"

definition signing_key :: "'srv s3_client \<Rightarrow> utc \<Rightarrow> bytes" where
  "signing_key C t =
     (let k_date = hmac_sha256 C (encode (''AWS4'' @ secret C)) (encode (datestamp t));
          k_region = hmac_sha256 C k_date (encode (region C));
          k_service = hmac_sha256 C k_region (encode ''s3'')
      in hmac_sha256 C k_service (encode ''aws4_request''))"

definition signature :: "'srv s3_client \<Rightarrow> utc \<Rightarrow> string \<Rightarrow> string \<Rightarrow> bytes \<Rightarrow> string" where
  "signature C t meth uri payload =
     hex_of (hmac_sha256 C (signing_key C t) (encode (string_to_sign C t meth uri payload)))"

definition sign_headers ::
  "'srv s3_client \<Rightarrow> utc \<Rightarrow> string \<Rightarrow> string \<Rightarrow> bytes \<Rightarrow> (string \<times> string) list" where
  "sign_headers C t meth uri payload =
     [(''Authorization'', ''AWS4-HMAC-SHA256 Credential='' @ access C @ ''/'' @ scope C t @
         '', SignedHeaders='' @ signed_headers @ '', Signature='' @ signature C t meth uri payload),
      (''x-amz-content-sha256'', payload_hash C payload),
      (''x-amz-date'', amzdate t),
      (''Host'', host C)]"

definition s3_req ::
  "'srv s3_client \<Rightarrow> string \<Rightarrow> string \<Rightarrow> bytes \<Rightarrow> 'srv \<Rightarrow> (exn + nat \<times> bytes) \<times> 'srv" where
  "s3_req C meth uri payload w =
     http C \<lparr>rq_method = meth, rq_uri = uri,
             rq_headers = sign_headers C (utc_now C w) meth uri payload,
             rq_body = (if payload \<noteq> [] then Some payload else None)\<rparr> w"

definition object_uri :: "string \<Rightarrow> string \<Rightarrow> string" where
  "object_uri bucket key = ''/'' @ bucket @ ''/'' @ key"

definition s3_make_bucket :: "'srv s3_client \<Rightarrow> string \<Rightarrow> 'srv \<Rightarrow> (exn + bool) \<times> 'srv" where
  "s3_make_bucket C bucket =
     andthen (s3_req C ''PUT'' (''/'' @ bucket) [])
       (\<lambda>(status, _). ret (status \<in> {200, 204, 409}))"

definition s3_put :: "'srv s3_client \<Rightarrow> string \<Rightarrow> string \<Rightarrow> bytes \<Rightarrow> 'srv \<Rightarrow> (exn + unit) \<times> 'srv" where
  "s3_put C bucket key data =
     andthen (s3_req C ''PUT'' (object_uri bucket key) data)
       (\<lambda>(status, body). if status \<notin> {200, 204}
          then throw (RuntimeError (''S3 PUT '' @ key @ '' -> '' @ show_nat status @ '': '' @
                 bytes_repr (take 200 body)))
          else ret ())"

definition s3_get :: "'srv s3_client \<Rightarrow> string \<Rightarrow> string \<Rightarrow> 'srv \<Rightarrow> (exn + bytes) \<times> 'srv" where
  "s3_get C bucket key =
     andthen (s3_req C ''GET'' (object_uri bucket key) [])
       (\<lambda>(status, body). if status \<noteq> 200
          then throw (RuntimeError (''S3 GET '' @ key @ '' -> '' @ show_nat status))
          else ret body)"

definition s3_head :: "'srv s3_client \<Rightarrow> string \<Rightarrow> string \<Rightarrow> 'srv \<Rightarrow> (exn + bool) \<times> 'srv" where
  "s3_head C bucket key =
     andthen (s3_req C ''HEAD'' (object_uri bucket key) []) (\<lambda>(status, _). ret (status = 200))"

section \<open>What is signed\<close>

lemma nl_not_digit: "nl \<notin> set (show_nat n)"
proof
  assume "nl \<in> set (show_nat n)"
  then have "48 \<le> (of_char nl :: nat)" using show_nat_range by blast
  then show False by (simp add: nl_def)
qed

lemma nl_not_pad [simp]: "nl \<notin> set (pad_nat w n)"
  using nl_not_digit [of n] by (auto simp: pad_nat_def nl_def split: if_splits)

lemma nl_not_amzdate [simp]: "nl \<notin> set (amzdate t)"
  using nl_not_digit by (simp add: amzdate_def) (simp add: nl_def)

lemma nl_not_scope: "nl \<notin> set (region C) \<Longrightarrow> nl \<notin> set (scope C t)"
  using nl_not_digit by (simp add: scope_def datestamp_def) (simp add: nl_def)

lemma nl_not_hex [simp]: "nl \<notin> set (hex_of a)"
proof
  assume "nl \<in> set (hex_of a)"
  then have "nl \<in> set ''0123456789abcdef''" by (rule hex_of_chars)
  then show False by (simp add: nl_def)
qed

lemma payload_hash_is_hash: "payload_hash C payload = hex_of (sha256 C payload)"
  by (simp add: payload_hash_def empty_sha_def)

lemma canonical_request_inj:
  assumes "canonical_request C t m u p = canonical_request C t' m' u' p'"
    and "nl \<notin> set m" "nl \<notin> set m'" "nl \<notin> set u" "nl \<notin> set u'"
  shows "m = m' \<and> u = u' \<and> sha256 C p = sha256 C p' \<and> amzdate t = amzdate t'"
proof -
  have 1: "m = m' \<and> u @ nl # nl # canonical_headers C t p @ [nl] @ signed_headers @ [nl] @ payload_hash C p
      = u' @ nl # nl # canonical_headers C t' p' @ [nl] @ signed_headers @ [nl] @ payload_hash C p'"
    using assms by (simp add: canonical_request_def append_sep_inj)
  then have 2: "u = u' \<and> canonical_headers C t p @ [nl] @ signed_headers @ [nl] @ payload_hash C p
      = canonical_headers C t' p' @ [nl] @ signed_headers @ [nl] @ payload_hash C p'"
    using assms by (simp add: append_sep_inj)
  then have "hex_of (sha256 C p) = hex_of (sha256 C p') \<and>
      ''x-amz-date:'' @ amzdate t @ nl # nl # signed_headers @ nl # hex_of (sha256 C p)
      = ''x-amz-date:'' @ amzdate t' @ nl # nl # signed_headers @ nl # hex_of (sha256 C p')"
    by (simp add: canonical_headers_def payload_hash_is_hash append_sep_inj)
  with 1 2 show ?thesis by (simp add: append_sep_inj)
qed

text \<open>
  The signature binds the request: if two requests of one client have the same string to sign,
  they have the same method, path, payload and date, as long as SHA-256 has no collision among the
  two canonical requests and the two payloads, and method, path and region hold no newline.
\<close>

theorem string_to_sign_binds_request:
  assumes "string_to_sign C t m u p = string_to_sign C t' m' u' p'"
    and "nl \<notin> set m" "nl \<notin> set m'" "nl \<notin> set u" "nl \<notin> set u'" "nl \<notin> set (region C)"
    and "inj_on (sha256 C) {encode (canonical_request C t m u p), encode (canonical_request C t' m' u' p'), p, p'}"
  shows "m = m' \<and> u = u' \<and> p = p' \<and> amzdate t = amzdate t'"
proof -
  have "amzdate t = amzdate t' \<and> scope C t @ nl # hex_of (sha256 C (encode (canonical_request C t m u p)))
      = scope C t' @ nl # hex_of (sha256 C (encode (canonical_request C t' m' u' p')))"
    using assms(1) by (simp add: string_to_sign_def append_sep_inj)
  then have "sha256 C (encode (canonical_request C t m u p)) = sha256 C (encode (canonical_request C t' m' u' p'))"
    using assms(6) by (simp add: append_sep_inj nl_not_scope)
  then have "canonical_request C t m u p = canonical_request C t' m' u' p'"
    using assms(7) by (auto dest: inj_onD)
  from canonical_request_inj [OF this assms(2-5)] show ?thesis
    using assms(7) by (auto dest: inj_onD)
qed

definition demo_utc :: utc where
  "demo_utc = \<lparr>u_year = 2026, u_month = 1, u_day = 2, u_hour = 3, u_minute = 4, u_second = 5\<rparr>"

definition demo_client :: "unit s3_client" where
  "demo_client = \<lparr>host = ''h'', access = ''a'', secret = ''s'', region = ''r'', sha256 = (\<lambda>b. b),
     hmac_sha256 = (\<lambda>k m. k @ m), utc_now = (\<lambda>_. demo_utc),
     http = (\<lambda>_ w. (Inr (200, []), w)), objects = (\<lambda>_ _. None)\<rparr>"

theorem string_to_sign_binds_request_witness:
  "inj_on (sha256 demo_client) {[1], [2]} \<and> nl \<notin> set (region demo_client) \<and>
   (''PUT'' = ''PUT'' \<and> ''/b/k'' = ''/b/k'' \<and> [1::byte] = [1] \<and> amzdate demo_utc = amzdate demo_utc)"
proof -
  have inj: "inj_on (sha256 demo_client) A" for A
    by (simp add: demo_client_def)
  have r: "nl \<notin> set (region demo_client)" "nl \<notin> set ''PUT''" "nl \<notin> set ''/b/k''"
    by (simp_all add: demo_client_def nl_def)
  from string_to_sign_binds_request [where C = demo_client and t = demo_utc and t' = demo_utc
      and m = "''PUT''" and m' = "''PUT''" and u = "''/b/k''" and u' = "''/b/k''" and p = "[1]" and p' = "[1]",
      OF refl r(2) r(2) r(3) r(3) r(1) inj]
  show ?thesis using inj r(1) by blast
qed

section \<open>The object interface\<close>

text \<open>
  What an S3 server documents: a \<open>PUT\<close> of an object path answered 200 or 204 has replaced that
  object and nothing else, any other outcome has at most done that; \<open>GET\<close> and \<open>HEAD\<close> change nothing,
  and a \<open>GET\<close> answered 200 carries the object.
\<close>

definition s3_server :: "'srv s3_client \<Rightarrow> bool" where
  "s3_server C \<longleftrightarrow>
     (\<forall>rq w r w'. http C rq w = (r, w') \<longrightarrow> CHR ''/'' \<in> set (tl (rq_uri rq)) \<longrightarrow>
        (rq_method rq = ''PUT'' \<longrightarrow>
           (let d = (case rq_body rq of None \<Rightarrow> [] | Some d \<Rightarrow> d);
                new = (objects C w)(rq_uri rq := Some d)
            in (\<forall>st body. r = Inr (st, body) \<longrightarrow> st \<in> {200, 204} \<longrightarrow> objects C w' = new) \<and>
               (objects C w' = objects C w \<or> objects C w' = new))) \<and>
        (rq_method rq \<in> {''GET'', ''HEAD''} \<longrightarrow> objects C w' = objects C w) \<and>
        (rq_method rq = ''GET'' \<longrightarrow> (\<forall>body. r = Inr (200, body) \<longrightarrow> objects C w (rq_uri rq) = Some body)))"

text \<open>A server that is reachable answers \<open>GET\<close> of an existing object with it.\<close>

definition s3_available :: "'srv s3_client \<Rightarrow> bool" where
  "s3_available C \<longleftrightarrow>
     (\<forall>rq w d. rq_method rq = ''GET'' \<longrightarrow> objects C w (rq_uri rq) = Some d \<longrightarrow>
        fst (http C rq w) = Inr (200, d))"

text \<open>
  The interface: \<open>tput\<close>, \<open>tget\<close> for one bucket, with \<open>obj\<close> its observable content and \<open>tok\<close> the
  condition under which the laws hold.
\<close>

fun upload_all ::
  "(string \<Rightarrow> bytes \<Rightarrow> 'srv \<Rightarrow> (exn + unit) \<times> 'srv) \<Rightarrow> (string \<times> bytes) list \<Rightarrow> 'srv \<Rightarrow> (exn + unit) \<times> 'srv" where
  "upload_all put [] = ret ()"
| "upload_all put ((k, d) # rest) = andthen (put k d) (\<lambda>_. upload_all put rest)"

locale object_tier =
  fixes tput :: "string \<Rightarrow> bytes \<Rightarrow> 'srv \<Rightarrow> (exn + unit) \<times> 'srv"
    and tget :: "string \<Rightarrow> 'srv \<Rightarrow> (exn + bytes) \<times> 'srv"
    and obj :: "'srv \<Rightarrow> string \<Rightarrow> bytes option"
    and tok :: bool
  assumes put_stores: "tok \<Longrightarrow> tput k d w = (Inr (), w') \<Longrightarrow> obj w' = (obj w)(k := Some d)"
    and put_frame: "tok \<Longrightarrow> tput k d w = (r, w') \<Longrightarrow> obj w' = obj w \<or> obj w' = (obj w)(k := Some d)"
    and get_sound: "tok \<Longrightarrow> tget k w = (Inr d, w') \<Longrightarrow> obj w k = Some d"
    and get_frame: "tok \<Longrightarrow> tget k w = (r2, w') \<Longrightarrow> obj w' = obj w"
begin

text \<open>Uploading a batch: on success everything is there, and what is not in the batch is untouched.\<close>

lemma upload_all_stores:
  assumes "tok"
  shows "upload_all tput kvs w = (Inr (), w') \<Longrightarrow> distinct (map fst kvs) \<Longrightarrow>
    obj w' = (\<lambda>k. case map_of kvs k of Some d \<Rightarrow> Some d | None \<Rightarrow> obj w k)"
proof (induction kvs arbitrary: w)
  case (Cons kv kvs)
  obtain k d where kv: "kv = (k, d)" by (cases kv)
  from Cons.prems obtain u where put: "tput k d w = (Inr (), u)" and rest: "upload_all tput kvs u = (Inr (), w')"
    by (auto simp: kv elim!: andthen_InrE)
  have "obj w' = (\<lambda>k. case map_of kvs k of Some d \<Rightarrow> Some d | None \<Rightarrow> obj u k)"
    using Cons.IH [OF rest] Cons.prems by simp
  moreover have "map_of kvs k = None"
    using Cons.prems by (simp add: kv map_of_eq_None_iff)
  ultimately show ?case
    using put_stores [OF assms put] by (auto simp: kv fun_eq_iff split: option.splits)
qed (simp add: ret_def)

text \<open>
  However a batch ends, every object is either what it was or the batch's own value for that key.
\<close>

lemma upload_all_frame:
  assumes "tok"
  shows "upload_all tput kvs w = (r, w') \<Longrightarrow>
    obj w' k = obj w k \<or> (\<exists>d. (k, d) \<in> set kvs \<and> obj w' k = Some d)"
proof (induction kvs arbitrary: w)
  case (Cons kv kvs)
  obtain k0 d0 where kv: "kv = (k0, d0)" by (cases kv)
  obtain r0 u where put: "tput k0 d0 w = (r0, u)" by fastforce
  have step: "obj u k = obj w k \<or> (k = k0 \<and> obj u k = Some d0)"
    using put_frame [OF assms put] by (cases "k = k0") auto
  show ?case
  proof (cases r0)
    case (Inl e)
    with Cons.prems put have "w' = u" by (simp add: kv andthen_Inl)
    with step show ?thesis by (auto simp: kv)
  next
    case (Inr x)
    with Cons.prems put have "upload_all tput kvs u = (r, w')" by (simp add: kv andthen_Inr)
    from Cons.IH [OF this] step show ?thesis by (auto simp: kv)
  qed
qed (simp add: ret_def)

end

lemma object_uri_slash: "CHR ''/'' \<in> set (tl (object_uri b k))"
  by (simp add: object_uri_def)

lemma object_uri_inj [simp]: "object_uri b k = object_uri b k' \<longleftrightarrow> k = k'"
  by (simp add: object_uri_def)

definition s3_object :: "'srv s3_client \<Rightarrow> string \<Rightarrow> 'srv \<Rightarrow> string \<Rightarrow> bytes option" where
  "s3_object C bucket w key = objects C w (object_uri bucket key)"

lemma s3_object_upd:
  "objects C w' = (objects C w)(object_uri b k := Some d) \<Longrightarrow> s3_object C b w' = (s3_object C b w)(k := Some d)"
  by (simp add: s3_object_def fun_eq_iff)

lemma s3_put_object:
  assumes "s3_server C" and "s3_put C b k d w = (r, w')"
  shows "(r = Inr () \<longrightarrow> objects C w' = (objects C w)(object_uri b k := Some d)) \<and>
    (objects C w' = objects C w \<or> objects C w' = (objects C w)(object_uri b k := Some d))"
proof -
  define rq where "rq = \<lparr>rq_method = ''PUT'', rq_uri = object_uri b k,
      rq_headers = sign_headers C (utc_now C w) ''PUT'' (object_uri b k) d,
      rq_body = (if d \<noteq> [] then Some d else None)\<rparr>"
  obtain h where h: "http C rq w = (h, w')" and
    ok: "r = Inr () \<longrightarrow> (\<exists>st body. h = Inr (st, body) \<and> st \<in> {200, 204})"
    using assms(2) by (cases "http C rq w")
      (auto simp: s3_put_def s3_req_def rq_def andthen_def ret_def throw_def split: sum.splits if_splits)
  have "(case rq_body rq of None \<Rightarrow> [] | Some d \<Rightarrow> d) = d"
    by (simp add: rq_def)
  then show ?thesis
    using assms(1) [unfolded s3_server_def, rule_format, OF h] object_uri_slash [of b k] ok
    by (auto simp: rq_def Let_def)
qed

lemma s3_get_object:
  assumes "s3_server C" and "s3_get C b k w = (r, w')"
  shows "(\<forall>d. r = Inr d \<longrightarrow> objects C w (object_uri b k) = Some d) \<and> objects C w' = objects C w"
proof -
  define rq where "rq = \<lparr>rq_method = ''GET'', rq_uri = object_uri b k,
      rq_headers = sign_headers C (utc_now C w) ''GET'' (object_uri b k) [], rq_body = None\<rparr>"
  obtain h where h: "http C rq w = (h, w')" and ok: "\<forall>d. r = Inr d \<longrightarrow> h = Inr (200, d)"
    using assms(2) by (cases "http C rq w")
      (auto simp: s3_get_def s3_req_def rq_def andthen_def ret_def throw_def split: sum.splits if_splits)
  show ?thesis
    using assms(1) [unfolded s3_server_def, rule_format, OF h] object_uri_slash [of b k] ok
    by (auto simp: rq_def)
qed

interpretation s3: object_tier "s3_put C b" "s3_get C b" "s3_object C b" "s3_server C"
  for C b
proof (unfold_locales, goal_cases)
  case (1 k d w w')
  then show ?case using s3_put_object [of C b k d w "Inr ()" w'] by (simp add: s3_object_upd)
next
  case (2 k d w r w')
  then have "s3_object C b w' = s3_object C b w \<or> objects C w' = (objects C w)(object_uri b k := Some d)"
    using s3_put_object [of C b k d w r w'] by (auto simp: s3_object_def fun_eq_iff)
  then show ?case by (auto intro: s3_object_upd)
next
  case (3 k w d w')
  then show ?case using s3_get_object [of C b k w "Inr d" w'] by (simp add: s3_object_def)
next
  case (4 k w r w')
  then show ?case using s3_get_object [of C b k w r w'] by (simp add: s3_object_def fun_eq_iff)
qed

lemma s3_get_available:
  assumes "s3_available C" and "s3_object C b w k = Some d"
  shows "\<exists>w'. s3_get C b k w = (Inr d, w')"
proof -
  define rq where "rq = \<lparr>rq_method = ''GET'', rq_uri = object_uri b k,
      rq_headers = sign_headers C (utc_now C w) ''GET'' (object_uri b k) [], rq_body = None\<rparr>"
  have "fst (http C rq w) = Inr (200, d)"
    using assms by (simp add: s3_available_def s3_object_def rq_def)
  then show ?thesis
    by (cases "http C rq w") (simp add: s3_get_def s3_req_def rq_def andthen_def ret_def)
qed

end
