(* ===== verification/Chunk_Store.thy ===== *)
theory Chunk_Store
  imports Chunking Object_Store
begin

text \<open>
  The content-addressed store (class \<open>CAS\<close> of \<open>spikes/storage/cas.py\<close>): chunks are named by their
  hash, kept compressed in a local hot cache, queued for the S3 cold tier, and fetched from either.
  BLAKE2b and zlib are parameters of the configuration; what is assumed of them is \<open>zlib_ok\<close>
  (decompression undoes compression) and, where content is recovered by name, that no two different
  blocks involved have the same hash (\<open>collision_free\<close>).
\<close>

section \<open>State\<close>

record 'srv cas_cfg =
  cfg_root :: bool              \<comment> \<open>\<open>root\<close> is given, so there is a hot cache\<close>
  cfg_block :: int
  cfg_cdc :: bool
  cfg_level :: int
  cfg_s3 :: "'srv s3_client option"
  cfg_bucket :: "string option"
  cfg_gear :: "byte \<Rightarrow> 64 word"
  blake :: "bytes \<Rightarrow> string"     \<comment> \<open>\<open>hashlib.blake2b(_, digest_size=16).hexdigest()\<close>\<close>
  zcompress :: "bytes \<Rightarrow> int \<Rightarrow> bytes"
  zdecompress :: "bytes \<Rightarrow> exn + bytes"

record 'srv cas =
  cs_index :: "(string \<times> nat) list"
  cs_pending :: "(string \<times> bytes) list"
  cs_logical :: nat
  cs_stored :: nat
  cs_chunks :: nat
  cs_hot :: "string \<Rightarrow> bytes option"   \<comment> \<open>files under \<open>root\<close>, by their path below it\<close>
  cs_srv :: 'srv

definition chunk_key :: "string \<Rightarrow> string" where
  "chunk_key h = take 2 h @ ''/'' @ h"

text \<open>\<open>self.s3 and self.bucket\<close>: the tier is used when both are set and the bucket's name is not empty.\<close>

definition tier_of :: "'srv cas_cfg \<Rightarrow> ('srv s3_client \<times> string) option" where
  "tier_of cfg =
     (case (cfg_s3 cfg, cfg_bucket cfg) of
        (Some c, Some b) \<Rightarrow> (if b \<noteq> [] then Some (c, b) else None)
      | _ \<Rightarrow> None)"

definition cas_new :: "(string \<Rightarrow> bytes option) \<Rightarrow> 'srv \<Rightarrow> 'srv cas" where
  "cas_new files w = \<lparr>cs_index = [], cs_pending = [], cs_logical = 0, cs_stored = 0, cs_chunks = 0,
     cs_hot = files, cs_srv = w\<rparr>"

text \<open>\<open>__init__\<close>: creates the bucket first, when there is a tier.\<close>

definition cas_init ::
  "'srv cas_cfg \<Rightarrow> (string \<Rightarrow> bytes option) \<Rightarrow> 'srv \<Rightarrow> (exn + 'srv cas) \<times> 'srv" where
  "cas_init cfg files w =
     (case tier_of cfg of
        None \<Rightarrow> (Inr (cas_new files w), w)
      | Some (c, b) \<Rightarrow>
          (case s3_make_bucket c b w of
             (Inl e, w') \<Rightarrow> (Inl e, w')
           | (Inr _, w') \<Rightarrow> (Inr (cas_new files w'), w')))"

section \<open>Storing\<close>

text \<open>The body of the loop of \<open>put_bytes\<close> for one block.\<close>

definition put_block :: "'srv cas_cfg \<Rightarrow> bytes \<Rightarrow> 'srv cas \<Rightarrow> string \<times> 'srv cas" where
  "put_block cfg blk s =
     (let s1 = s\<lparr>cs_logical := cs_logical s + length blk, cs_chunks := cs_chunks s + 1\<rparr>;
          h = blake cfg blk
      in if map_of (cs_index s1) h = None
         then (let z = zcompress cfg blk (cfg_level cfg);
                   s2 = s1\<lparr>cs_index := cs_index s1 @ [(h, length z)], cs_stored := cs_stored s1 + length z\<rparr>;
                   s3 = (if cfg_root cfg
                         then (if cs_hot s2 (chunk_key h) = None
                               then s2\<lparr>cs_hot := (cs_hot s2)(chunk_key h := Some z)\<rparr> else s2)
                         else s2);
                   s4 = (if tier_of cfg \<noteq> None then s3\<lparr>cs_pending := cs_pending s3 @ [(h, z)]\<rparr> else s3)
               in (h, s4))
         else (h, s1))"

fun put_blocks :: "'srv cas_cfg \<Rightarrow> bytes list \<Rightarrow> 'srv cas \<Rightarrow> string list \<times> 'srv cas" where
  "put_blocks cfg [] s = ([], s)"
| "put_blocks cfg (b # bs) s =
     (let (h, s1) = put_block cfg b s; (hs, s2) = put_blocks cfg bs s1 in (h # hs, s2))"

definition put_bytes :: "'srv cas_cfg \<Rightarrow> bytes \<Rightarrow> 'srv cas \<Rightarrow> (exn + string list) \<times> 'srv cas" where
  "put_bytes cfg data s =
     (case blocks (cfg_cdc cfg) (cfg_block cfg) (cfg_gear cfg) data of
        Inl e \<Rightarrow> (Inl e, s)
      | Inr bs \<Rightarrow> (let (hs, s') = put_blocks cfg bs s in (Inr hs, s')))"

fun put_reads :: "'srv cas_cfg \<Rightarrow> bytes list \<Rightarrow> 'srv cas \<Rightarrow> (exn + string list) \<times> 'srv cas" where
  "put_reads cfg [] = ret []"
| "put_reads cfg (d # ds) =
     andthen (put_bytes cfg d) (\<lambda>m. andthen (put_reads cfg ds) (\<lambda>ms. ret (m @ ms)))"

text \<open>\<open>put_file\<close> on the content of the file, read \<open>buf\<close> bytes at a time (8 MiB by default).\<close>

definition read_buf :: nat where "read_buf = 8 * 2 ^ 20"

definition put_file :: "'srv cas_cfg \<Rightarrow> nat \<Rightarrow> bytes \<Rightarrow> 'srv cas \<Rightarrow> (exn + string list) \<times> 'srv cas" where
  "put_file cfg buf content = put_reads cfg (pieces buf content)"

section \<open>Flushing and fetching\<close>

text \<open>
  \<open>flush_s3\<close>: the queue is emptied first, then uploaded by the thread pool, in the order \<open>sched\<close>
  gives it; the first upload that fails ends the call with its exception and the queued uploads
  after it are cancelled.
\<close>

definition flush_s3 ::
  "((string \<times> bytes) list \<Rightarrow> (string \<times> bytes) list) \<Rightarrow> 'srv cas_cfg \<Rightarrow> 'srv cas \<Rightarrow> (exn + nat) \<times> 'srv cas" where
  "flush_s3 sched cfg s =
     (case tier_of cfg of
        None \<Rightarrow> (Inr 0, s)
      | Some (c, b) \<Rightarrow>
          if cs_pending s = [] then (Inr 0, s)
          else let pending = cs_pending s;
                   s1 = s\<lparr>cs_pending := []\<rparr>;
                   (r, w) = upload_all (s3_put c b) (map (\<lambda>hc. (chunk_key (fst hc), snd hc)) (sched pending)) (cs_srv s1)
               in (case r of
                     Inl e \<Rightarrow> (Inl e, s1\<lparr>cs_srv := w\<rparr>)
                   | Inr _ \<Rightarrow> (Inr (length pending), s1\<lparr>cs_srv := w\<rparr>)))"

definition cas_get :: "'srv cas_cfg \<Rightarrow> string \<Rightarrow> 'srv cas \<Rightarrow> (exn + bytes) \<times> 'srv cas" where
  "cas_get cfg h s =
     (case (if cfg_root cfg then cs_hot s (chunk_key h) else None) of
        Some z \<Rightarrow> (zdecompress cfg z, s)
      | None \<Rightarrow>
          (case tier_of cfg of
             Some (c, b) \<Rightarrow>
               (case s3_get c b (chunk_key h) (cs_srv s) of
                  (Inl e, w) \<Rightarrow> (Inl e, s\<lparr>cs_srv := w\<rparr>)
                | (Inr z, w) \<Rightarrow>
                    (zdecompress cfg z,
                     (if cfg_root cfg
                      then s\<lparr>cs_srv := w, cs_hot := (cs_hot s)(chunk_key h := Some z)\<rparr>
                      else s\<lparr>cs_srv := w\<rparr>)))
           | None \<Rightarrow> (Inl (FileNotFoundError (''chunk '' @ h @ '' not in hot cache and no S3 tier configured'')), s)))"

text \<open>Fetching a manifest in order, as a restore does, and concatenating.\<close>

fun fetch_all :: "(string \<Rightarrow> 's \<Rightarrow> (exn + bytes) \<times> 's) \<Rightarrow> string list \<Rightarrow> 's \<Rightarrow> (exn + bytes) \<times> 's" where
  "fetch_all get [] = ret []"
| "fetch_all get (h # hs) = andthen (get h) (\<lambda>b. andthen (fetch_all get hs) (\<lambda>bs. ret (b @ bs)))"

record cas_stats =
  st_logical :: nat
  st_chunks_total :: nat
  st_chunks_unique :: nat
  st_stored :: nat
  st_dedup_ratio :: rat
  st_unique_fraction :: rat

definition cas_statistics :: "'srv cas \<Rightarrow> cas_stats" where
  "cas_statistics s =
     \<lparr>st_logical = cs_logical s, st_chunks_total = cs_chunks s, st_chunks_unique = length (cs_index s),
      st_stored = cs_stored s,
      st_dedup_ratio = (if cs_stored s \<noteq> 0 then py_round (of_nat (cs_logical s) / of_nat (cs_stored s)) 2 else 0),
      st_unique_fraction = (if cs_chunks s \<noteq> 0 then py_round (of_nat (length (cs_index s)) / of_nat (cs_chunks s)) 4 else 0)\<rparr>"


section \<open>The interface the engine uses\<close>

text \<open>
  A store of byte strings addressed by manifests: what \<open>put\<close> returned can be fetched back, now and
  after any number of further \<open>put\<close>s. \<open>look\<close> is the content by chunk name, \<open>fits\<close> the condition
  under which a new content can be told apart from what is stored.
\<close>

locale chunk_store =
  fixes put :: "bytes \<Rightarrow> 's \<Rightarrow> (exn + string list) \<times> 's"
    and get :: "string \<Rightarrow> 's \<Rightarrow> (exn + bytes) \<times> 's"
    and look :: "'s \<Rightarrow> string \<Rightarrow> bytes option"
    and ok :: "'s \<Rightarrow> bool"
    and fits :: "'s \<Rightarrow> bytes \<Rightarrow> bool"
  assumes put_ok: "ok s \<Longrightarrow> put d s = (r, s') \<Longrightarrow> ok s'"
    and put_stored: "ok s \<Longrightarrow> fits s d \<Longrightarrow> put d s = (Inr hs, s') \<Longrightarrow>
      \<exists>bs. map (look s') hs = map Some bs \<and> concat bs = d"
    and put_grows: "ok s \<Longrightarrow> put d s = (r, s') \<Longrightarrow> look s h = Some b \<Longrightarrow> look s' h = Some b"
    and get_look: "ok s \<Longrightarrow> look s h = Some b \<Longrightarrow> get h s = (Inr b, s)"
begin

lemma fetch_all_look:
  "ok s \<Longrightarrow> map (look s) hs = map Some bs \<Longrightarrow> fetch_all get hs s = (Inr (concat bs), s)"
proof (induction hs arbitrary: bs)
  case (Cons h hs)
  then obtain b bs' where bs: "bs = b # bs'" and h: "look s h = Some b" and r: "map (look s) hs = map Some bs'"
    by (cases bs) auto
  from Cons.IH [OF Cons.prems(1) r] get_look [OF Cons.prems(1) h] show ?case
    by (simp add: bs andthen_def ret_def)
qed (simp add: ret_def)

text \<open>Further contents stored one after the other, each of which may fail.\<close>

fun put_many :: "bytes list \<Rightarrow> 's \<Rightarrow> 's" where
  "put_many [] s = s"
| "put_many (d # ds) s = put_many ds (snd (put d s))"

lemma put_many_grows: "ok s \<Longrightarrow> ok (put_many ds s) \<and> (look s h = Some b \<longrightarrow> look (put_many ds s) h = Some b)"
proof (induction ds arbitrary: s)
  case (Cons d ds)
  obtain r s' where p: "put d s = (r, s')" by fastforce
  with Cons show ?case using put_ok [OF _ p] put_grows [OF _ p] by auto
qed simp

lemma put_fetch:
  assumes "ok s" "fits s d" "put d s = (Inr hs, s')"
  shows "fetch_all get hs (put_many ds s') = (Inr d, put_many ds s')"
proof -
  obtain bs where bs: "map (look s') hs = map Some bs" "concat bs = d"
    using put_stored [OF assms] by blast
  have ok': "ok s'" using put_ok [OF assms(1,3)] .
  have "map (look (put_many ds s')) hs = map Some bs"
    using bs(1) put_many_grows [OF ok'] by (auto simp: list_eq_iff_nth_eq)
  with fetch_all_look [of "put_many ds s'"] put_many_grows [OF ok'] bs(2) show ?thesis by auto
qed

end

section \<open>The hot cache\<close>

definition hot_lookup :: "'srv cas_cfg \<Rightarrow> 'srv cas \<Rightarrow> string \<Rightarrow> bytes option" where
  "hot_lookup cfg s h =
     (case cs_hot s (chunk_key h) of
        None \<Rightarrow> None
      | Some z \<Rightarrow> (case zdecompress cfg z of Inl _ \<Rightarrow> None | Inr b \<Rightarrow> Some b))"

definition zlib_ok :: "'srv cas_cfg \<Rightarrow> bool" where
  "zlib_ok cfg \<longleftrightarrow> (\<forall>b. zdecompress cfg (zcompress cfg b (cfg_level cfg)) = Inr b)"

text \<open>
  The well-formed states: there is a hot cache, every indexed chunk is in it, every file of it
  decompresses to a block of that name, and the counters agree with the index.
\<close>

definition cas_ok :: "'srv cas_cfg \<Rightarrow> 'srv cas \<Rightarrow> bool" where
  "cas_ok cfg s \<longleftrightarrow>
     cfg_root cfg \<and>
     (\<forall>h. map_of (cs_index s) h \<noteq> None \<longrightarrow> cs_hot s (chunk_key h) \<noteq> None) \<and>
     (\<forall>h z. cs_hot s (chunk_key h) = Some z \<longrightarrow> (\<exists>b. zdecompress cfg z = Inr b \<and> blake cfg b = h)) \<and>
     distinct (map fst (cs_index s)) \<and>
     cs_stored s = sum_list (map snd (cs_index s)) \<and>
     length (cs_index s) \<le> cs_chunks s"

text \<open>The blocks \<open>put_file\<close> cuts a content into.\<close>

definition file_blocks :: "'srv cas_cfg \<Rightarrow> nat \<Rightarrow> bytes \<Rightarrow> bytes list" where
  "file_blocks cfg buf content =
     concat (map (\<lambda>d. case blocks (cfg_cdc cfg) (cfg_block cfg) (cfg_gear cfg) d of Inl _ \<Rightarrow> [] | Inr bs \<Rightarrow> bs)
       (pieces buf content))"

definition stored_blocks :: "'srv cas_cfg \<Rightarrow> 'srv cas \<Rightarrow> bytes set" where
  "stored_blocks cfg s = {b. \<exists>h. hot_lookup cfg s h = Some b}"

definition collision_free :: "'srv cas_cfg \<Rightarrow> 'srv cas \<Rightarrow> bytes list \<Rightarrow> bool" where
  "collision_free cfg s bs \<longleftrightarrow> inj_on (blake cfg) (set bs \<union> stored_blocks cfg s)"

lemma chunk_key_inj [simp]: "chunk_key h = chunk_key h' \<longleftrightarrow> h = h'"
proof
  assume eq: "chunk_key h = chunk_key h'"
  then have "min (length h) 2 + (1 + length h) = min (length h') 2 + (1 + length h')"
    unfolding chunk_key_def by (metis length_append length_take list.size(3,4) One_nat_def add.commute min.commute plus_1_eq_Suc add_Suc_right)
  then have len: "length h = length h'" by (simp add: min_def split: if_splits)
  have "drop (length (take 2 h) + 1) (chunk_key h) = h" for h
    by (simp add: chunk_key_def)
  then show "h = h'" using eq len by (metis length_take)
qed simp

lemma put_block_hash [simp]: "fst (put_block cfg blk s) = blake cfg blk"
  by (simp add: put_block_def Let_def)

lemma put_block_logical [simp]:
  "cs_logical (snd (put_block cfg blk s)) = cs_logical s + length blk"
  "cs_chunks (snd (put_block cfg blk s)) = cs_chunks s + 1"
  "cs_srv (snd (put_block cfg blk s)) = cs_srv s"
  by (simp_all add: put_block_def Let_def)

text \<open>A known chunk only moves the two counters.\<close>

lemma put_block_known:
  "map_of (cs_index s) (blake cfg blk) \<noteq> None \<Longrightarrow>
    put_block cfg blk s = (blake cfg blk, s\<lparr>cs_logical := cs_logical s + length blk, cs_chunks := cs_chunks s + 1\<rparr>)"
  by (auto simp: put_block_def Let_def simp del: not_None_eq)

lemma put_block_index:
  "map_of (cs_index (snd (put_block cfg blk s))) (blake cfg blk) \<noteq> None \<and>
   (map_of (cs_index s) h \<noteq> None \<longrightarrow> map_of (cs_index (snd (put_block cfg blk s))) h \<noteq> None)"
  by (auto simp: put_block_def Let_def map_add_def split: option.splits)

lemma put_block_hot:
  "cs_hot (snd (put_block cfg blk s)) =
     (if map_of (cs_index s) (blake cfg blk) = None \<and> cfg_root cfg \<and> cs_hot s (chunk_key (blake cfg blk)) = None
      then (cs_hot s)(chunk_key (blake cfg blk) := Some (zcompress cfg blk (cfg_level cfg))) else cs_hot s)"
  by (simp add: put_block_def Let_def)

lemma put_block_ok:
  assumes "zlib_ok cfg" "cas_ok cfg s"
  shows "cas_ok cfg (snd (put_block cfg blk s))"
proof (cases "map_of (cs_index s) (blake cfg blk)")
  case (Some n)
  then have "put_block cfg blk s = (blake cfg blk, s\<lparr>cs_logical := cs_logical s + length blk, cs_chunks := cs_chunks s + 1\<rparr>)"
    by (intro put_block_known) simp
  with assms(2) show ?thesis by (simp add: cas_ok_def)
next
  case None
  let ?h = "blake cfg blk"
  let ?z = "zcompress cfg blk (cfg_level cfg)"
  let ?t = "snd (put_block cfg blk s)"
  have idx: "cs_index ?t = cs_index s @ [(?h, length ?z)]" "cs_stored ?t = cs_stored s + length ?z"
    "cs_chunks ?t = cs_chunks s + 1"
    using None by (simp_all add: put_block_def Let_def)
  have hot: "cs_hot ?t = (if cs_hot s (chunk_key ?h) = None then (cs_hot s)(chunk_key ?h := Some ?z) else cs_hot s)"
    using None assms(2) by (simp add: put_block_hot cas_ok_def)
  have notin: "?h \<notin> fst ` set (cs_index s)"
    using None by (simp add: map_of_eq_None_iff)
  have "zdecompress cfg ?z = Inr blk" using assms(1) by (simp add: zlib_ok_def)
  then show ?thesis
    using assms(2) notin unfolding cas_ok_def idx hot
    by (auto simp: map_add_def map_of_eq_None_iff split: option.splits if_splits)
qed

lemma put_block_grows:
  "cas_ok cfg s \<Longrightarrow> hot_lookup cfg s h = Some b \<Longrightarrow> hot_lookup cfg (snd (put_block cfg blk s)) h = Some b"
  by (auto simp: hot_lookup_def put_block_hot split: option.splits)

lemma put_block_lookup:
  assumes "zlib_ok cfg" "cas_ok cfg s" "inj_on (blake cfg) (insert blk (stored_blocks cfg s))"
  shows "hot_lookup cfg (snd (put_block cfg blk s)) (blake cfg blk) = Some blk"
proof (cases "cs_hot s (chunk_key (blake cfg blk))")
  case None
  with assms(2) have "map_of (cs_index s) (blake cfg blk) = None" "cfg_root cfg"
    unfolding cas_ok_def by blast+
  with None assms(1) show ?thesis by (simp add: hot_lookup_def put_block_hot zlib_ok_def)
next
  case (Some z)
  then obtain b where b: "zdecompress cfg z = Inr b" "blake cfg b = blake cfg blk"
    using assms(2) unfolding cas_ok_def by blast
  with Some have hl: "hot_lookup cfg s (blake cfg blk) = Some b" by (simp add: hot_lookup_def)
  then have "b \<in> stored_blocks cfg s" by (auto simp: stored_blocks_def)
  then have "b = blk" using inj_onD [OF assms(3) b(2)] by simp
  with put_block_grows [OF assms(2) hl] show ?thesis by simp
qed

lemma put_block_stored:
  assumes "zlib_ok cfg"
  shows "stored_blocks cfg (snd (put_block cfg blk s)) \<subseteq> insert blk (stored_blocks cfg s)"
  using assms by (auto simp: stored_blocks_def hot_lookup_def put_block_hot zlib_ok_def split: if_splits option.splits)

lemma put_blocks_Cons_snd:
  "snd (put_blocks cfg (b # bs) s) = snd (put_blocks cfg bs (snd (put_block cfg b s)))"
  "fst (put_blocks cfg (b # bs) s) = blake cfg b # fst (put_blocks cfg bs (snd (put_block cfg b s)))"
  using put_block_hash [of cfg b s] by (auto simp: split_beta simp del: put_block_hash)

lemma put_blocks_hashes: "fst (put_blocks cfg bs s) = map (blake cfg) bs"
  by (induction bs arbitrary: s) (simp_all add: put_blocks_Cons_snd del: put_blocks.simps(2))

lemma put_blocks_ok:
  "zlib_ok cfg \<Longrightarrow> cas_ok cfg s \<Longrightarrow> cas_ok cfg (snd (put_blocks cfg bs s))"
  by (induction bs arbitrary: s) (simp_all add: put_blocks_Cons_snd put_block_ok del: put_blocks.simps(2))

lemma put_blocks_grows:
  "zlib_ok cfg \<Longrightarrow> cas_ok cfg s \<Longrightarrow> hot_lookup cfg s h = Some b \<Longrightarrow>
    hot_lookup cfg (snd (put_blocks cfg bs s)) h = Some b"
  by (induction bs arbitrary: s)
    (simp_all add: put_blocks_Cons_snd put_block_ok put_block_grows del: put_blocks.simps(2))

lemma put_blocks_lookup:
  assumes "zlib_ok cfg"
  shows "cas_ok cfg s \<Longrightarrow> collision_free cfg s bs \<Longrightarrow>
    map (hot_lookup cfg (snd (put_blocks cfg bs s))) (map (blake cfg) bs) = map Some bs"
proof (induction bs arbitrary: s)
  case (Cons b bs)
  let ?s1 = "snd (put_block cfg b s)"
  have ok1: "cas_ok cfg ?s1" using put_block_ok [OF assms Cons.prems(1)] .
  have "hot_lookup cfg ?s1 (blake cfg b) = Some b"
    by (rule put_block_lookup [OF assms Cons.prems(1)])
      (use Cons.prems(2) in \<open>auto simp: collision_free_def elim: inj_on_subset\<close>)
  then have "hot_lookup cfg (snd (put_blocks cfg bs ?s1)) (blake cfg b) = Some b"
    by (rule put_blocks_grows [OF assms ok1])
  moreover have "collision_free cfg ?s1 bs"
    using Cons.prems(2) put_block_stored [OF assms, of b s] unfolding collision_free_def
    by (elim inj_on_subset) auto
  ultimately show ?case
    using Cons.IH [OF ok1] by (simp add: put_blocks_Cons_snd del: put_blocks.simps(2))
qed simp

subsection \<open>A file is its blocks\<close>

text \<open>Storing a content read by read is storing the blocks of all its reads.\<close>

lemma put_blocks_append:
  "put_blocks cfg (as @ bs) s =
    (fst (put_blocks cfg as s) @ fst (put_blocks cfg bs (snd (put_blocks cfg as s))),
     snd (put_blocks cfg bs (snd (put_blocks cfg as s))))"
  by (induction as arbitrary: s) (simp_all add: split_beta)

lemma put_reads_blocks:
  "put_reads cfg ds s = (Inr hs, s') \<Longrightarrow>
    put_blocks cfg (concat (map (\<lambda>d. case blocks (cfg_cdc cfg) (cfg_block cfg) (cfg_gear cfg) d of
        Inl _ \<Rightarrow> [] | Inr bs \<Rightarrow> bs) ds)) s = (hs, s')"
proof (induction ds arbitrary: s hs)
  case (Cons d ds)
  then obtain m s1 ms where m: "put_bytes cfg d s = (Inr m, s1)" and r: "put_reads cfg ds s1 = (Inr ms, s')"
    and hs: "hs = m @ ms"
    by (auto elim!: andthen_InrE simp: ret_def)
  from m obtain bs where "blocks (cfg_cdc cfg) (cfg_block cfg) (cfg_gear cfg) d = Inr bs" "put_blocks cfg bs s = (m, s1)"
    by (auto simp: put_bytes_def split: sum.splits prod.splits)
  with Cons.IH [OF r] hs show ?case by (simp add: put_blocks_append)
qed (simp add: ret_def)

lemma put_file_blocks:
  "put_file cfg buf content s = (Inr hs, s') \<Longrightarrow> put_blocks cfg (file_blocks cfg buf content) s = (hs, s')"
  unfolding put_file_def file_blocks_def by (rule put_reads_blocks)

lemma put_reads_total:
  assumes "cfg_cdc cfg \<or> cfg_block cfg \<noteq> 0"
  shows "\<exists>hs s'. put_reads cfg ds s = (Inr hs, s')"
proof (induction ds arbitrary: s)
  case (Cons d ds)
  have "\<exists>bs. blocks (cfg_cdc cfg) (cfg_block cfg) (cfg_gear cfg) d = Inr bs"
    using assms by (auto simp: blocks_def)
  then obtain m s1 where "put_bytes cfg d s = (Inr m, s1)"
    by (auto simp: put_bytes_def split_beta)
  with Cons.IH [of s1] show ?case by (auto simp: andthen_def ret_def)
qed (simp add: ret_def)

lemma put_file_eq:
  assumes "cfg_cdc cfg \<or> cfg_block cfg \<noteq> 0"
  shows "put_file cfg buf content s =
    (Inr (fst (put_blocks cfg (file_blocks cfg buf content) s)), snd (put_blocks cfg (file_blocks cfg buf content) s))"
  using put_reads_total [OF assms, of "pieces buf content" s] put_file_blocks [of cfg buf content s]
  by (fastforce simp: put_file_def)

lemma put_reads_failed:
  assumes "put_reads cfg ds s = (Inl e, s')"
  shows "s' = s"
proof (cases "cfg_block cfg = 0 \<and> \<not> cfg_cdc cfg")
  case True
  with assms show ?thesis by (cases ds) (auto simp: ret_def put_bytes_def blocks_def andthen_def)
next
  case False
  with assms put_reads_total [of cfg ds s] show ?thesis by auto
qed

lemma concat_file_blocks:
  assumes "cfg_cdc cfg \<or> 0 < cfg_block cfg" and "0 < buf"
  shows "concat (file_blocks cfg buf content) = content"
proof -
  have one: "concat (case blocks (cfg_cdc cfg) (cfg_block cfg) (cfg_gear cfg) d of Inl _ \<Rightarrow> [] | Inr bs \<Rightarrow> bs) = d" for d
  proof -
    have "\<exists>bs. blocks (cfg_cdc cfg) (cfg_block cfg) (cfg_gear cfg) d = Inr bs"
      using assms(1) by (auto simp: blocks_def)
    then show ?thesis using concat_pieces [of "nat (cfg_block cfg)" d]
      cdc_loop_concat [of 0 0 d cdc_mask cdc_min cdc_max "cfg_gear cfg" 0] assms(1)
      by (auto simp: blocks_def cdc_blocks_def)
  qed
  have "concat (concat (map f xs)) = concat (map (concat \<circ> f) xs)" for f :: "bytes \<Rightarrow> bytes list" and xs
    by (induction xs) simp_all
  then show ?thesis
    by (simp add: file_blocks_def comp_def one concat_pieces [OF assms(2)])
qed

definition store_fits :: "'srv cas_cfg \<Rightarrow> nat \<Rightarrow> 'srv cas \<Rightarrow> bytes \<Rightarrow> bool" where
  "store_fits cfg buf s content \<longleftrightarrow>
     (cfg_cdc cfg \<or> 0 < cfg_block cfg) \<and> 0 < buf \<and> collision_free cfg s (file_blocks cfg buf content)"

interpretation hot: chunk_store "put_file cfg buf" "cas_get cfg" "hot_lookup cfg"
  "\<lambda>s. zlib_ok cfg \<and> cas_ok cfg s" "store_fits cfg buf"
  for cfg :: "'srv cas_cfg" and buf
proof (unfold_locales, goal_cases)
  case (1 s d r s')
  show ?case
  proof (cases r)
    case (Inl e)
    with 1 have "s' = s" by (auto simp: put_file_def dest: put_reads_failed)
    with 1 show ?thesis by simp
  next
    case (Inr hs)
    with 1 put_blocks_ok [of cfg s "file_blocks cfg buf d"] show ?thesis
      by (auto dest: put_file_blocks)
  qed
next
  case (2 s d hs s')
  have p: "put_blocks cfg (file_blocks cfg buf d) s = (hs, s')"
    using put_file_blocks 2(3) .
  have "map (hot_lookup cfg s') hs = map Some (file_blocks cfg buf d)"
    using put_blocks_lookup [of cfg s "file_blocks cfg buf d"] 2 p put_blocks_hashes [of cfg "file_blocks cfg buf d" s]
    by (simp add: store_fits_def)
  with 2 concat_file_blocks show ?case unfolding store_fits_def by blast
next
  case (3 s d r s' h b)
  show ?case
  proof (cases r)
    case (Inl e)
    with 3 have "s' = s" by (auto simp: put_file_def dest: put_reads_failed)
    with 3 show ?thesis by simp
  next
    case (Inr hs)
    with 3 put_blocks_grows [of cfg s h b "file_blocks cfg buf d"] show ?thesis
      by (auto dest: put_file_blocks)
  qed
next
  case (4 s h b)
  then show ?case by (auto simp: cas_get_def hot_lookup_def cas_ok_def split: option.splits sum.splits)
qed


section \<open>Properties of the store\<close>

definition demo_cfg :: "unit cas_cfg" where
  "demo_cfg = \<lparr>cfg_root = True, cfg_block = 2, cfg_cdc = False, cfg_level = 3, cfg_s3 = None, cfg_bucket = None,
     cfg_gear = (\<lambda>_. 0), blake = map (\<lambda>b. char_of (unat b)), zcompress = (\<lambda>b _. 0 # b),
     zdecompress = (\<lambda>z. case z of [] \<Rightarrow> Inl (OSError ''zlib'') | _ # b \<Rightarrow> Inr b)\<rparr>"

lemma demo_zlib: "zlib_ok demo_cfg"
  by (simp add: zlib_ok_def demo_cfg_def)

lemma new_cas_ok: "cfg_root cfg \<Longrightarrow> cas_ok cfg (cas_new (\<lambda>_. None) w)"
  by (simp add: cas_ok_def cas_new_def)

lemma new_stored: "stored_blocks cfg (cas_new (\<lambda>_. None) w) = {}"
  by (simp add: stored_blocks_def hot_lookup_def cas_new_def)

text \<open>
  C13. Round trip: after \<open>put_file\<close> of a content, fetching the manifest it returned and concatenating
  gives the content back, also after any further files have been stored, and the fetch leaves the
  store as it was. Hypotheses: zlib's decompression undoes its compression, and no two different
  blocks among the new and the stored ones have the same hash.
\<close>

theorem put_file_roundtrip:
  assumes "zlib_ok cfg" and "cas_ok cfg s" and "store_fits cfg buf s content"
    and "put_file cfg buf content s = (Inr hs, s')"
  shows "fetch_all (cas_get cfg) hs (hot.put_many cfg buf later s') = (Inr content, hot.put_many cfg buf later s')"
  using hot.put_fetch assms by blast

theorem put_file_roundtrip_witness:
  "\<exists>hs s'. put_file demo_cfg 4 [1, 2, 1, 2, 3] (cas_new (\<lambda>_. None) ()) = (Inr hs, s') \<and>
     length hs = 3 \<and> length (cs_index s') = 2 \<and>
     fetch_all (cas_get demo_cfg) hs (hot.put_many demo_cfg 4 [] s') = (Inr [1, 2, 1, 2, 3], hot.put_many demo_cfg 4 [] s')"
proof -
  let ?s = "cas_new (\<lambda>_. None) ()"
  have fits: "store_fits demo_cfg 4 ?s [1, 2, 1, 2, 3]"
    by (auto simp: store_fits_def collision_free_def new_stored file_blocks_def pieces.simps demo_cfg_def
        blocks_def inj_on_def)
  have ok: "cas_ok demo_cfg ?s" by (rule new_cas_ok) (simp add: demo_cfg_def)
  have run: "\<exists>s'. put_file demo_cfg 4 [1, 2, 1, 2, 3] ?s = (Inr [[CHR 0x01, CHR 0x02], [CHR 0x01, CHR 0x02], [CHR 0x03]], s')
      \<and> length (cs_index s') = 2"
    by (simp add: put_file_def pieces.simps demo_cfg_def put_bytes_def blocks_def put_block_def cas_new_def
        andthen_def ret_def tier_of_def Let_def chunk_key_def char_of_def bit_Suc_0_iff)
  then obtain s' where s': "put_file demo_cfg 4 [1, 2, 1, 2, 3] ?s = (Inr [[CHR 0x01, CHR 0x02], [CHR 0x01, CHR 0x02], [CHR 0x03]], s')"
      "length (cs_index s') = 2" by blast
  show ?thesis
    using put_file_roundtrip [OF demo_zlib ok fits s'(1), of "[]"] s' by auto
qed


subsection \<open>Deduplication and accounting\<close>

lemma put_blocks_known:
  "\<forall>b \<in> set bs. map_of (cs_index s) (blake cfg b) \<noteq> None \<Longrightarrow>
    put_blocks cfg bs s = (map (blake cfg) bs,
      s\<lparr>cs_logical := cs_logical s + length (concat bs), cs_chunks := cs_chunks s + length bs\<rparr>)"
proof (induction bs arbitrary: s)
  case (Cons b bs)
  then have b: "map_of (cs_index s) (blake cfg b) \<noteq> None" by simp
  have "put_blocks cfg bs (snd (put_block cfg b s)) = (map (blake cfg) bs,
      snd (put_block cfg b s)\<lparr>cs_logical := cs_logical (snd (put_block cfg b s)) + length (concat bs),
        cs_chunks := cs_chunks (snd (put_block cfg b s)) + length bs\<rparr>)"
    by (rule Cons.IH) (use Cons.prems put_block_known [OF b] in simp)
  then show ?case by (simp add: put_block_known [OF b] add.assoc del: not_None_eq)
qed simp

lemma put_blocks_index:
  "map_of (cs_index s) h \<noteq> None \<or> h \<in> blake cfg ` set bs \<Longrightarrow>
    map_of (cs_index (snd (put_blocks cfg bs s))) h \<noteq> None"
proof (induction bs arbitrary: s)
  case (Cons b bs)
  then have "map_of (cs_index (snd (put_block cfg b s))) h \<noteq> None \<or> h \<in> blake cfg ` set bs"
    using put_block_index [of cfg b s h] by auto
  with Cons.IH show ?case by (simp add: put_blocks_Cons_snd del: put_blocks.simps(2) not_None_eq)
qed simp

lemma put_many_index:
  "cfg_cdc cfg \<or> cfg_block cfg \<noteq> 0 \<Longrightarrow> map_of (cs_index s) h \<noteq> None \<Longrightarrow>
    map_of (cs_index (hot.put_many cfg buf ds s)) h \<noteq> None"
  by (induction ds arbitrary: s) (simp_all add: put_file_eq put_blocks_index del: not_None_eq)

text \<open>
  Deduplication: storing a content the store has already taken, however many other files came in
  between, returns the same manifest and stores nothing: index, hot cache, upload queue and stored
  bytes are unchanged, only the logical byte and chunk counters move.
\<close>

theorem put_file_again:
  assumes "cfg_cdc cfg \<or> cfg_block cfg \<noteq> 0"
    and "put_file cfg buf content s = (Inr hs, s1)"
    and "s2 = hot.put_many cfg buf later s1"
  shows "put_file cfg buf content s2 =
    (Inr hs, s2\<lparr>cs_logical := cs_logical s2 + length (concat (file_blocks cfg buf content)),
                cs_chunks := cs_chunks s2 + length hs\<rparr>)"
proof -
  let ?bs = "file_blocks cfg buf content"
  have p: "put_blocks cfg ?bs s = (hs, s1)" using put_file_blocks [OF assms(2)] .
  have hs: "hs = map (blake cfg) ?bs" using put_blocks_hashes [of cfg ?bs s] p by simp
  have "\<forall>b \<in> set ?bs. map_of (cs_index s1) (blake cfg b) \<noteq> None"
    using put_blocks_index [of s _ cfg ?bs] p by (metis imageI snd_conv)
  then have "\<forall>b \<in> set ?bs. map_of (cs_index s2) (blake cfg b) \<noteq> None"
    using put_many_index [OF assms(1)] assms(3) by blast
  from put_blocks_known [OF this] show ?thesis
    by (simp add: put_file_eq [OF assms(1)] hs)
qed

theorem put_file_again_witness:
  "\<exists>hs s1. put_file demo_cfg 4 [1, 2, 3] (cas_new (\<lambda>_. None) ()) = (Inr hs, s1) \<and>
     cs_stored (snd (put_file demo_cfg 4 [1, 2, 3] s1)) = cs_stored s1 \<and> hs \<noteq> []"
proof -
  have d: "cfg_cdc demo_cfg \<or> cfg_block demo_cfg \<noteq> 0" by (simp add: demo_cfg_def)
  obtain hs s1 where p: "put_file demo_cfg 4 [1, 2, 3] (cas_new (\<lambda>_. None) ()) = (Inr hs, s1)" "hs \<noteq> []"
    by (simp add: put_file_eq [OF d] put_blocks_hashes)
      (simp add: file_blocks_def pieces.simps demo_cfg_def blocks_def)
  show ?thesis
    using put_file_again [OF d p(1), of s1 "[]"] p by auto
qed

text \<open>
  Accounting: storing a file adds its length to the logical bytes and its manifest's length to
  the chunk count, the index afterwards holds exactly the earlier names and the manifest's, each
  once, the stored bytes are the sum of the indexed sizes, and there are never more unique chunks
  than chunks.
\<close>

theorem put_file_accounting:
  assumes "zlib_ok cfg" and "cas_ok cfg s" and "cfg_cdc cfg \<or> 0 < cfg_block cfg" and "0 < buf"
    and "put_file cfg buf content s = (Inr hs, s')"
  shows "cs_logical s' = cs_logical s + length content \<and>
    cs_chunks s' = cs_chunks s + length hs \<and>
    fst ` set (cs_index s') = fst ` set (cs_index s) \<union> set hs \<and>
    distinct (map fst (cs_index s')) \<and>
    cs_stored s' = sum_list (map snd (cs_index s')) \<and>
    length (cs_index s') \<le> cs_chunks s'"
proof -
  let ?bs = "file_blocks cfg buf content"
  have p: "put_blocks cfg ?bs s = (hs, s')" using put_file_blocks [OF assms(5)] .
  have count: "cs_logical (snd (put_blocks cfg bs t)) = cs_logical t + length (concat bs) \<and>
      cs_chunks (snd (put_blocks cfg bs t)) = cs_chunks t + length bs" for bs and t :: "'a cas"
    by (induction bs arbitrary: t) (simp_all add: put_blocks_Cons_snd del: put_blocks.simps(2))
  have one: "fst ` set (cs_index (snd (put_block cfg b t))) = insert (blake cfg b) (fst ` set (cs_index t))"
    for b and t :: "'a cas"
    by (auto simp: put_block_def Let_def map_of_eq_None_iff insert_absorb)
  have names: "fst ` set (cs_index (snd (put_blocks cfg bs t))) = fst ` set (cs_index t) \<union> blake cfg ` set bs"
    for bs and t :: "'a cas"
    by (induction bs arbitrary: t) (auto simp add: put_blocks_Cons_snd one simp del: put_blocks.simps(2))
  have hs: "hs = map (blake cfg) ?bs" using put_blocks_hashes [of cfg ?bs s] p by simp
  have "cas_ok cfg s'" using put_blocks_ok [OF assms(1,2), of ?bs] p by simp
  with count [of ?bs s] names [of ?bs s] p hs concat_file_blocks [OF assms(3,4), of content]
  show ?thesis by (simp add: cas_ok_def)
qed

theorem put_file_accounting_witness:
  "\<exists>hs s'. put_file demo_cfg 4 [1, 2, 1, 2] (cas_new (\<lambda>_. None) ()) = (Inr hs, s') \<and>
     cs_logical s' = 4 \<and> cs_chunks s' = length hs \<and> length (cs_index s') \<le> cs_chunks s'"
proof -
  have d: "cfg_cdc demo_cfg \<or> cfg_block demo_cfg \<noteq> 0" "cfg_cdc demo_cfg \<or> 0 < cfg_block demo_cfg"
    by (simp_all add: demo_cfg_def)
  have ok: "cas_ok demo_cfg (cas_new (\<lambda>_. None) ())" by (rule new_cas_ok) (simp add: demo_cfg_def)
  obtain hs s' where p: "put_file demo_cfg 4 [1, 2, 1, 2] (cas_new (\<lambda>_. None) ()) = (Inr hs, s')"
    by (simp add: put_file_eq [OF d(1)])
  show ?thesis
    using put_file_accounting [OF demo_zlib ok d(2) _ p] p by (auto simp: cas_new_def)
qed

text \<open>
  Reading in buffers does not disturb fixed-size blocks: with a positive block size that divides the
  read buffer, as 4 KiB divides the 8 MiB of the code, \<open>put_file\<close> does exactly what \<open>put_bytes\<close> of
  the whole content does, manifest and state alike.
\<close>

theorem put_file_is_put_bytes:
  assumes "\<not> cfg_cdc cfg" and "0 < cfg_block cfg" and "nat (cfg_block cfg) dvd buf" and "0 < buf"
  shows "put_file cfg buf content s = put_bytes cfg content s"
proof -
  have "file_blocks cfg buf content = concat (map (pieces (nat (cfg_block cfg))) (pieces buf content))"
    using assms(1,2) by (simp add: file_blocks_def blocks_def)
  also have "\<dots> = pieces (nat (cfg_block cfg)) content"
    using pieces_of_pieces [of "nat (cfg_block cfg)" buf content] assms by simp
  finally show ?thesis
    using assms(1,2) by (simp add: put_file_eq put_bytes_def blocks_def split_beta)
qed

theorem put_file_is_put_bytes_witness:
  "nat 4096 dvd read_buf \<and> put_file (demo_cfg\<lparr>cfg_block := 4096\<rparr>) read_buf [5] (cas_new (\<lambda>_. None) ())
     = put_bytes (demo_cfg\<lparr>cfg_block := 4096\<rparr>) [5] (cas_new (\<lambda>_. None) ())"
proof -
  have d: "nat 4096 dvd read_buf" by (simp add: read_buf_def)
  show ?thesis
    using d put_file_is_put_bytes [of "demo_cfg\<lparr>cfg_block := 4096\<rparr>" read_buf "[5]" "cas_new (\<lambda>_. None) ()"]
    by (simp add: demo_cfg_def read_buf_def)
qed


section \<open>The cold tier\<close>

text \<open>
  What holds while no upload has failed: every indexed chunk is either still queued or an object of
  the bucket, under content that decompresses to a block of that name.
\<close>

definition good_chunk :: "'srv cas_cfg \<Rightarrow> string \<Rightarrow> bytes \<Rightarrow> bool" where
  "good_chunk cfg h z \<longleftrightarrow> (\<exists>b. zdecompress cfg z = Inr b \<and> blake cfg b = h)"

definition cold_ok :: "'srv cas_cfg \<Rightarrow> 'srv s3_client \<Rightarrow> string \<Rightarrow> 'srv cas \<Rightarrow> bool" where
  "cold_ok cfg c b s \<longleftrightarrow>
     tier_of cfg = Some (c, b) \<and>
     distinct (map fst (cs_pending s)) \<and>
     (\<forall>h z. (h, z) \<in> set (cs_pending s) \<longrightarrow> map_of (cs_index s) h \<noteq> None \<and> good_chunk cfg h z) \<and>
     (\<forall>h. map_of (cs_index s) h \<noteq> None \<longrightarrow>
        h \<in> fst ` set (cs_pending s) \<or>
        (\<exists>z. s3_object c b (cs_srv s) (chunk_key h) = Some z \<and> good_chunk cfg h z))"

definition cold_blocks :: "'srv cas_cfg \<Rightarrow> 'srv s3_client \<Rightarrow> string \<Rightarrow> 'srv \<Rightarrow> bytes set" where
  "cold_blocks cfg c b w = {blk. \<exists>h z. s3_object c b w (chunk_key h) = Some z \<and> zdecompress cfg z = Inr blk}"

lemma cold_ok_new: "tier_of cfg = Some (c, b) \<Longrightarrow> cold_ok cfg c b (cas_new files w)"
  by (simp add: cold_ok_def cas_new_def)

lemma put_block_cold:
  assumes "zlib_ok cfg" "cold_ok cfg c b s"
  shows "cold_ok cfg c b (snd (put_block cfg blk s))"
proof (cases "map_of (cs_index s) (blake cfg blk)")
  case (Some n)
  with assms(2) put_block_known [of s cfg blk] show ?thesis by (simp add: cold_ok_def)
next
  case None
  let ?h = "blake cfg blk"
  let ?z = "zcompress cfg blk (cfg_level cfg)"
  let ?t = "snd (put_block cfg blk s)"
  have idx: "cs_index ?t = cs_index s @ [(?h, length ?z)]" "cs_pending ?t = cs_pending s @ [(?h, ?z)]"
    "cs_srv ?t = cs_srv s"
    using None assms(2) by (simp_all add: put_block_def Let_def cold_ok_def)
  have good: "good_chunk cfg ?h ?z" using assms(1) by (simp add: good_chunk_def zlib_ok_def)
  have "?h \<notin> fst ` set (cs_pending s)"
    using assms(2) None by (fastforce simp: cold_ok_def)
  moreover have "map_of (cs_index s) h \<noteq> None \<and> good_chunk cfg h z" if "(h, z) \<in> set (cs_pending s)" for h z
    using assms(2) that unfolding cold_ok_def by blast
  moreover have "h \<in> fst ` set (cs_pending s) \<or>
      (\<exists>z. s3_object c b (cs_srv s) (chunk_key h) = Some z \<and> good_chunk cfg h z)"
    if "map_of (cs_index s) h \<noteq> None" for h
    using assms(2) that unfolding cold_ok_def by blast
  moreover have "map_of (cs_index s @ [(?h, n)]) h \<noteq> None \<longleftrightarrow> map_of (cs_index s) h \<noteq> None \<or> h = ?h" for h n
    by (auto simp: map_add_def split: option.splits)
  ultimately show ?thesis
    using assms(2) good unfolding cold_ok_def idx by (auto simp del: not_None_eq map_of_append)
qed

lemma put_blocks_cold:
  "zlib_ok cfg \<Longrightarrow> cold_ok cfg c b s \<Longrightarrow> cold_ok cfg c b (snd (put_blocks cfg bs s))"
  by (induction bs arbitrary: s) (simp_all add: put_blocks_Cons_snd put_block_cold del: put_blocks.simps(2))

text \<open>A successful flush puts every indexed chunk into the bucket, whatever order the pool ran in.\<close>

lemma flush_uploads:
  assumes "s3_server c" "cold_ok cfg c b s" "\<forall>xs. mset (sched xs) = mset xs"
    and "flush_s3 sched cfg s = (Inr n, s')"
    and "map_of (cs_index s) h \<noteq> None"
  shows "\<exists>z. s3_object c b (cs_srv s') (chunk_key h) = Some z \<and> good_chunk cfg h z"
proof (cases "cs_pending s = []")
  case True
  with assms show ?thesis by (auto simp: flush_s3_def cold_ok_def)
next
  case False
  let ?f = "\<lambda>hc. (chunk_key (fst hc), snd hc)"
  let ?kvs = "map ?f (sched (cs_pending s))"
  have tier: "tier_of cfg = Some (c, b)" using assms(2) by (simp add: cold_ok_def)
  obtain w where up: "upload_all (s3_put c b) ?kvs (cs_srv s) = (Inr (), w)" and s': "cs_srv s' = w"
    using assms(4) False tier by (auto simp: flush_s3_def Let_def split: prod.splits sum.splits)
  have setp: "set (sched (cs_pending s)) = set (cs_pending s)"
    using assms(3) by (metis set_mset_mset)
  have "mset (map fst (sched (cs_pending s))) = mset (map fst (cs_pending s))"
    using assms(3) by simp
  then have "distinct (map fst (sched (cs_pending s)))"
    using assms(2) by (metis cold_ok_def mset_eq_imp_distinct_iff)
  moreover have "map fst ?kvs = map chunk_key (map fst (sched (cs_pending s)))" by simp
  ultimately have dist: "distinct (map fst ?kvs)"
    by (simp only: distinct_map) (simp add: inj_on_def)
  have objs: "s3_object c b w = (\<lambda>k. case map_of ?kvs k of Some d \<Rightarrow> Some d | None \<Rightarrow> s3_object c b (cs_srv s) k)"
    using s3.upload_all_stores [OF assms(1) up dist] .
  show ?thesis
  proof (cases "h \<in> fst ` set (cs_pending s)")
    case True
    then obtain z where z: "(h, z) \<in> set (cs_pending s)" by auto
    then have "(chunk_key h, z) \<in> set ?kvs" by (force simp: setp)
    then have "map_of ?kvs (chunk_key h) = Some z" using dist by (simp add: map_of_is_SomeI)
    with objs s' z assms(2) show ?thesis by (auto simp: cold_ok_def)
  next
    case False
    then have "map_of ?kvs (chunk_key h) = None"
      by (auto simp: map_of_eq_None_iff setp) (metis fst_conv image_eqI)
    with objs s' False assms(2,5) show ?thesis by (auto simp: cold_ok_def)
  qed
qed

text \<open>
  Fetching from the bucket: the hot cache only ever holds copies of objects, starting from an empty
  one, and warms up with every chunk fetched.
\<close>

lemma cold_fetch:
  assumes "s3_server c" "s3_available c" "tier_of cfg = Some (c, b)"
    and "s3_object c b (cs_srv s) = Obj"
    and "\<And>h. cs_hot s (chunk_key h) = None \<or> cs_hot s (chunk_key h) = Obj (chunk_key h)"
    and "\<forall>blk \<in> set bs. \<exists>z. Obj (chunk_key (blake cfg blk)) = Some z \<and> zdecompress cfg z = Inr blk"
  shows "\<exists>t. fetch_all (cas_get cfg) (map (blake cfg) bs) s = (Inr (concat bs), t) \<and>
    (cfg_root cfg \<longrightarrow> (\<forall>blk \<in> set bs. cs_hot t (chunk_key (blake cfg blk)) = Obj (chunk_key (blake cfg blk)))
      \<and> (\<forall>k. cs_hot s k \<noteq> None \<longrightarrow> cs_hot t k = cs_hot s k))"
  using assms(4-6)
proof (induction bs arbitrary: s)
  case (Cons blk bs)
  let ?k = "chunk_key (blake cfg blk)"
  obtain z where z: "Obj ?k = Some z" "zdecompress cfg z = Inr blk" using Cons.prems(3) by auto
  obtain s1 where get: "cas_get cfg (blake cfg blk) s = (Inr blk, s1)"
    and obj1: "s3_object c b (cs_srv s1) = Obj"
    and hot1: "cfg_root cfg \<longrightarrow> cs_hot s1 = (cs_hot s)(?k := Some z)" "\<not> cfg_root cfg \<longrightarrow> cs_hot s1 = cs_hot s"
  proof (cases "cfg_root cfg \<and> cs_hot s ?k \<noteq> None")
    case True
    then have "cs_hot s ?k = Some z" using Cons.prems(2) [of "blake cfg blk"] z by auto
    with True z that [of s] Cons.prems(1) show ?thesis by (simp add: cas_get_def fun_upd_idem)
  next
    case False
    obtain w where g: "s3_get c b ?k (cs_srv s) = (Inr z, w)"
      using s3_get_available [OF assms(2)] Cons.prems(1) z(1) by metis
    from s3.get_frame [OF assms(1) g] have "s3_object c b w = Obj" using Cons.prems(1) by simp
    with False g z assms(3) that show ?thesis
      by (cases "cfg_root cfg") (auto simp: cas_get_def)
  qed
  have hot_inv: "cs_hot s1 (chunk_key h) = None \<or> cs_hot s1 (chunk_key h) = Obj (chunk_key h)" for h
    using hot1 Cons.prems(2) [of h] z(1) by (cases "cfg_root cfg") auto
  obtain t where t: "fetch_all (cas_get cfg) (map (blake cfg) bs) s1 = (Inr (concat bs), t)"
    "cfg_root cfg \<longrightarrow> (\<forall>blk \<in> set bs. cs_hot t (chunk_key (blake cfg blk)) = Obj (chunk_key (blake cfg blk)))
      \<and> (\<forall>k. cs_hot s1 k \<noteq> None \<longrightarrow> cs_hot t k = cs_hot s1 k)"
    using Cons.IH [OF obj1 hot_inv] Cons.prems(3) by auto
  have "cs_hot s k \<noteq> None \<longrightarrow> cs_hot s1 k = cs_hot s k \<or> k = ?k" for k
    using hot1 by (cases "cfg_root cfg") auto
  then have "cfg_root cfg \<longrightarrow> cs_hot s k \<noteq> None \<longrightarrow> cs_hot t k = cs_hot s k" for k
    using t(2) hot1(1) Cons.prems(2) [of "blake cfg blk"] z(1) by (cases "k = ?k") auto
  with get t hot1(1) z(1) show ?case by (auto simp: andthen_def ret_def)
qed (auto simp: ret_def)

text \<open>
  A concrete object server, as a list of stored objects with a switch that makes it refuse writes.
\<close>

definition demo_http :: "http_request \<Rightarrow> bool \<times> (string \<times> bytes) list \<Rightarrow>
    (exn + nat \<times> bytes) \<times> bool \<times> (string \<times> bytes) list" where
  "demo_http rq w =
     (if rq_method rq = ''PUT'' then
        (if fst w then (Inr (503, []), w)
         else (Inr (200, []), fst w, (rq_uri rq, case rq_body rq of None \<Rightarrow> [] | Some d \<Rightarrow> d) # snd w))
      else (case map_of (snd w) (rq_uri rq) of None \<Rightarrow> (Inr (404, []), w) | Some d \<Rightarrow> (Inr (200, d), w)))"

definition demo_s3 :: "(bool \<times> (string \<times> bytes) list) s3_client" where
  "demo_s3 = \<lparr>host = ''h'', access = ''a'', secret = ''s'', region = ''r'', sha256 = (\<lambda>b. b),
     hmac_sha256 = (\<lambda>k m. k @ m), utc_now = (\<lambda>_. demo_utc), http = demo_http, objects = (\<lambda>w. map_of (snd w))\<rparr>"

definition demo_cold :: "(bool \<times> (string \<times> bytes) list) cas_cfg" where
  "demo_cold = \<lparr>cfg_root = True, cfg_block = 2, cfg_cdc = False, cfg_level = 3, cfg_s3 = Some demo_s3,
     cfg_bucket = Some ''b'', cfg_gear = (\<lambda>_. 0), blake = map (\<lambda>b. char_of (unat b)), zcompress = (\<lambda>b _. 0 # b),
     zdecompress = (\<lambda>z. case z of [] \<Rightarrow> Inl (OSError ''zlib'') | _ # b \<Rightarrow> Inr b)\<rparr>"

lemma demo_s3_server: "s3_server demo_s3"
  by (auto simp: s3_server_def demo_s3_def demo_http_def Let_def fun_eq_iff split: option.splits if_splits)

lemma demo_s3_available: "s3_available demo_s3"
  by (simp add: s3_available_def demo_s3_def demo_http_def)

lemma demo_cold_facts: "zlib_ok demo_cold" "tier_of demo_cold = Some (demo_s3, ''b'')"
    "cfg_root demo_cold" "cfg_cdc demo_cold \<or> 0 < cfg_block demo_cold" "cfg_cdc demo_cold \<or> cfg_block demo_cold \<noteq> 0"
  by (simp_all add: zlib_ok_def demo_cold_def tier_of_def)

lemma demo_cold_inj: "inj_on (blake demo_cold) A"
proof -
  have "(\<lambda>b :: byte. char_of (unat b)) a = (\<lambda>b. char_of (unat b)) b \<Longrightarrow> a = b" for a b :: byte
  proof -
    assume "(\<lambda>b :: byte. char_of (unat b)) a = (\<lambda>b. char_of (unat b)) b"
    then have "unat a mod 256 = unat b mod 256" by (metis of_char_of)
    moreover have "unat a < 256" "unat b < 256"
      using unsigned_less [of a, where ?'a = nat] unsigned_less [of b, where ?'a = nat] by auto
    ultimately show "a = b" by (simp add: word_unat_eq_iff)
  qed
  then have "inj (map (\<lambda>b :: byte. char_of (unat b) :: char))"
    by (intro inj_mapI) (simp add: inj_def)
  then show ?thesis by (auto simp: demo_cold_def intro: inj_on_subset)
qed

text \<open>
  C37. Cold restore: store a file, flush, and lose the local cache; as long as the object server keeps
  its contract and answers, fetching the manifest from the bucket gives the file back and warms the
  cache with its chunks. The order in which the thread pool uploads does not matter.
\<close>

theorem cold_restore:
  assumes "zlib_ok cfg" "s3_server c" "s3_available c" "cold_ok cfg c b s" "\<forall>xs. mset (sched xs) = mset xs"
    and "cfg_cdc cfg \<or> 0 < cfg_block cfg" "0 < buf"
    and "put_file cfg buf content s = (Inr hs, s1)"
    and "flush_s3 sched cfg s1 = (Inr n, s2)"
    and "inj_on (blake cfg) (set (file_blocks cfg buf content) \<union> cold_blocks cfg c b (cs_srv s2))"
  shows "\<exists>t. fetch_all (cas_get cfg) hs (s2\<lparr>cs_hot := (\<lambda>_. None)\<rparr>) = (Inr content, t) \<and>
    (cfg_root cfg \<longrightarrow> (\<forall>h \<in> set hs. cs_hot t (chunk_key h) \<noteq> None))"
proof -
  let ?bs = "file_blocks cfg buf content"
  have p: "put_blocks cfg ?bs s = (hs, s1)" using put_file_blocks [OF assms(8)] .
  have hs: "hs = map (blake cfg) ?bs" using put_blocks_hashes [of cfg ?bs s] p by simp
  have cold1: "cold_ok cfg c b s1" using put_blocks_cold [OF assms(1,4), of ?bs] p by simp
  have objs: "\<exists>z. s3_object c b (cs_srv s2) (chunk_key (blake cfg blk)) = Some z \<and> zdecompress cfg z = Inr blk"
    if "blk \<in> set ?bs" for blk
  proof -
    have "map_of (cs_index s1) (blake cfg blk) \<noteq> None"
      using put_blocks_index [of s "blake cfg blk" cfg ?bs] p that by simp
    then obtain z b' where z: "s3_object c b (cs_srv s2) (chunk_key (blake cfg blk)) = Some z"
        "zdecompress cfg z = Inr b'" "blake cfg b' = blake cfg blk"
      using flush_uploads [OF assms(2) cold1 assms(5,9)] unfolding good_chunk_def by blast
    then have "b' \<in> cold_blocks cfg c b (cs_srv s2)" by (auto simp: cold_blocks_def)
    then have "b' = blk" using inj_onD [OF assms(10) z(3)] that by simp
    with z show ?thesis by simp
  qed
  have tier: "tier_of cfg = Some (c, b)" using assms(4) by (simp add: cold_ok_def)
  have "\<exists>t. fetch_all (cas_get cfg) (map (blake cfg) ?bs) (s2\<lparr>cs_hot := (\<lambda>_. None)\<rparr>) = (Inr (concat ?bs), t) \<and>
    (cfg_root cfg \<longrightarrow> (\<forall>blk \<in> set ?bs. cs_hot t (chunk_key (blake cfg blk)) = s3_object c b (cs_srv s2) (chunk_key (blake cfg blk)))
      \<and> (\<forall>k. cs_hot (s2\<lparr>cs_hot := (\<lambda>_. None)\<rparr>) k \<noteq> None \<longrightarrow> cs_hot t k = cs_hot (s2\<lparr>cs_hot := (\<lambda>_. None)\<rparr>) k))"
    by (rule cold_fetch [OF assms(2,3) tier]) (use objs in auto)
  then obtain t where t: "fetch_all (cas_get cfg) hs (s2\<lparr>cs_hot := (\<lambda>_. None)\<rparr>) = (Inr content, t)"
    "cfg_root cfg \<longrightarrow> (\<forall>blk \<in> set ?bs. cs_hot t (chunk_key (blake cfg blk)) = s3_object c b (cs_srv s2) (chunk_key (blake cfg blk)))"
    unfolding hs concat_file_blocks [OF assms(6,7)] by blast
  then have "cfg_root cfg \<longrightarrow> (\<forall>h \<in> set hs. cs_hot t (chunk_key h) \<noteq> None)"
    using objs by (fastforce simp: hs)
  with t(1) show ?thesis by blast
qed

theorem cold_restore_witness:
  "\<exists>hs s1 n s2 t. put_file demo_cold 4 [1, 2, 3] (cas_new (\<lambda>_. None) (False, [])) = (Inr hs, s1) \<and>
     flush_s3 rev demo_cold s1 = (Inr n, s2) \<and> n = 2 \<and>
     fetch_all (cas_get demo_cold) hs (s2\<lparr>cs_hot := (\<lambda>_. None)\<rparr>) = (Inr [1, 2, 3], t)"
proof -
  let ?s = "cas_new (\<lambda>_. None) (False, [])"
  obtain hs s1 where p: "put_file demo_cold 4 [1, 2, 3] ?s = (Inr hs, s1)"
    by (simp add: put_file_eq [OF demo_cold_facts(5)])
  have s1: "cs_pending s1 = [([CHR 0x01, CHR 0x02], [0, 1, 2]), ([CHR 0x03], [0, 3])] \<and> cs_srv s1 = (False, [])"
    using p by (simp add: put_file_def pieces.simps demo_cold_def put_bytes_def blocks_def put_block_def cas_new_def
        andthen_def ret_def tier_of_def Let_def chunk_key_def char_of_def bit_Suc_0_iff) auto
  obtain s2 where f: "flush_s3 rev demo_cold s1 = (Inr 2, s2)"
    using s1 by (simp add: flush_s3_def demo_cold_facts Let_def s3_put_def s3_req_def demo_s3_def demo_http_def
        andthen_def ret_def)
  have perm: "\<forall>xs. mset (rev xs) = mset xs" by simp
  from cold_restore [OF demo_cold_facts(1) demo_s3_server demo_s3_available cold_ok_new [OF demo_cold_facts(2)]
      perm demo_cold_facts(4) _ p f demo_cold_inj]
  show ?thesis using p f by auto
qed

text \<open>
  C40. A failed upload is forgotten: after a flush that raised, the queue is empty and the chunks are
  still indexed, so storing the same file again queues nothing and the next flush reports success
  without sending anything, although the objects may never have reached the bucket.
\<close>

theorem failed_flush_forgets_chunks:
  assumes "cfg_cdc cfg \<or> cfg_block cfg \<noteq> 0"
    and "put_file cfg buf content s = (Inr hs, s1)"
    and "flush_s3 sched cfg s1 = (Inl e, s2)"
  shows "\<exists>s3. put_file cfg buf content s2 = (Inr hs, s3) \<and> flush_s3 sched cfg s3 = (Inr 0, s3) \<and>
    cs_srv s3 = cs_srv s2"
proof -
  have s2: "cs_index s2 = cs_index s1" "cs_pending s2 = []"
    using assms(3) by (auto simp: flush_s3_def Let_def split: option.splits prod.splits sum.splits if_splits)
  let ?bs = "file_blocks cfg buf content"
  have p: "put_blocks cfg ?bs s = (hs, s1)" using put_file_blocks [OF assms(2)] .
  have hs: "hs = map (blake cfg) ?bs" using put_blocks_hashes [of cfg ?bs s] p by simp
  have "\<forall>b \<in> set ?bs. map_of (cs_index s2) (blake cfg b) \<noteq> None"
    using put_blocks_index [of s _ cfg ?bs] p s2(1) by (metis imageI snd_conv)
  from put_blocks_known [OF this] have "put_file cfg buf content s2 =
      (Inr hs, s2\<lparr>cs_logical := cs_logical s2 + length (concat ?bs), cs_chunks := cs_chunks s2 + length ?bs\<rparr>)"
    by (simp add: put_file_eq [OF assms(1)] hs)
  then show ?thesis
    using s2(2) by (simp add: flush_s3_def split: option.splits)
qed

theorem failed_flush_forgets_chunks_witness:
  "\<exists>hs s1 e s2 s3. put_file demo_cold 4 [1, 2] (cas_new (\<lambda>_. None) (True, [])) = (Inr hs, s1) \<and>
     flush_s3 rev demo_cold s1 = (Inl e, s2) \<and> put_file demo_cold 4 [1, 2] s2 = (Inr hs, s3) \<and>
     flush_s3 rev demo_cold s3 = (Inr 0, s3) \<and> snd (cs_srv s3) = []"
proof -
  let ?s = "cas_new (\<lambda>_. None) (True, [])"
  obtain hs s1 where p: "put_file demo_cold 4 [1, 2] ?s = (Inr hs, s1)"
    by (simp add: put_file_eq [OF demo_cold_facts(5)])
  have s1: "cs_pending s1 = [([CHR 0x01, CHR 0x02], [0, 1, 2])] \<and> cs_srv s1 = (True, [])"
    using p by (simp add: put_file_def pieces.simps demo_cold_def put_bytes_def blocks_def put_block_def cas_new_def
        andthen_def ret_def tier_of_def Let_def chunk_key_def char_of_def bit_Suc_0_iff) auto
  obtain e s2 where f: "flush_s3 rev demo_cold s1 = (Inl e, s2)" "cs_srv s2 = (True, [])"
    using s1 by (simp add: flush_s3_def demo_cold_facts Let_def s3_put_def s3_req_def demo_s3_def demo_http_def
        andthen_def ret_def throw_def)
  from failed_flush_forgets_chunks [OF demo_cold_facts(5) p f(1)] show ?thesis using p f by auto
qed

end
