(* ===== verification/Wire.thy ===== *)
theory Wire
  imports Klados_Prelude "HOL-Library.Countable"
begin

text \<open>
  What travels between the host and a guest: JSON values, the codec that turns them into text
  (Python's \<open>json\<close> module, a parameter), and the newline framing both ends use over a byte stream
  that \<open>recv\<close> may cut anywhere (\<open>while b"\n" not in data: ...\<close> in \<open>guest_agent.py\<close> and \<open>fc.py\<close>).
\<close>

section \<open>JSON values\<close>

datatype json =
    JNull
  | JBool bool
  | JInt int
  | JNum rat
  | JStr string
  | JList "json list"
  | JObj "(string \<times> json) list"

text \<open>\<open>msg.get(key)\<close> of a decoded value: \<open>None\<close> for a missing key, an exception when it is no object.\<close>

fun json_get :: "json \<Rightarrow> string \<Rightarrow> exn + json option" where
  "json_get (JObj kvs) k = Inr (map_of kvs k)"
| "json_get _ k = Inl (TypeError ''object has no attribute get'')"

text \<open>The same with JSON \<open>null\<close> and a missing key identified, as \<open>is None\<close> does.\<close>

fun json_field :: "json \<Rightarrow> string \<Rightarrow> json" where
  "json_field (JObj kvs) k = (case map_of kvs k of None \<Rightarrow> JNull | Some v \<Rightarrow> v)"
| "json_field _ k = JNull"

fun json_has :: "json \<Rightarrow> string \<Rightarrow> bool" where
  "json_has (JObj kvs) k = (map_of kvs k \<noteq> None)"
| "json_has _ k = False"

text \<open>\<open>if j\<close>\<close>

definition json_truth :: "json \<Rightarrow> bool" where
  "json_truth j = (case j of JNull \<Rightarrow> False | JBool b \<Rightarrow> b | JInt i \<Rightarrow> i \<noteq> 0 | JNum x \<Rightarrow> x \<noteq> 0 | JStr s \<Rightarrow> s \<noteq> []
     | JList js \<Rightarrow> js \<noteq> [] | JObj kvs \<Rightarrow> kvs \<noteq> [])"

record codec =
  dumps :: "json \<Rightarrow> string"
  loads :: "string \<Rightarrow> exn + json"

text \<open>
  Documented of \<open>json.dumps\<close> without indentation and of \<open>json.loads\<close>: the text is on one line,
  not empty, and reads back as the value (stated for the value at hand).
\<close>

definition codec_ok :: "codec \<Rightarrow> json \<Rightarrow> bool" where
  "codec_ok K j \<longleftrightarrow> loads K (dumps K j) = Inr j \<and> CHR 0x0A \<notin> set (dumps K j) \<and> dumps K j \<noteq> []"

section \<open>Framing\<close>

text \<open>
  The receive loop: append what \<open>recv\<close> returns until the buffer holds a newline or the peer closes
  (an empty read, or no more reads). Returns the buffer and the reads not consumed.
\<close>

fun recv_line :: "bytes list \<Rightarrow> bytes \<Rightarrow> bytes \<times> bytes list" where
  "recv_line [] acc = (acc, [])"
| "recv_line (c # cs) acc =
     (if 10 \<in> set acc then (acc, c # cs)
      else if c = [] then (acc, cs)
      else recv_line cs (acc @ c))"

text \<open>\<open>data.split(b"\n", 1)[0].decode("utf-8", "ignore")\<close>\<close>

definition first_line :: "bytes \<Rightarrow> string" where
  "first_line data = decode_bytes (takeWhile (\<lambda>b. b \<noteq> 10) data)"

definition frame :: "codec \<Rightarrow> json \<Rightarrow> bytes" where
  "frame K j = encode (dumps K j @ [CHR 0x0A])"

text \<open>
  However the stream is cut into non-empty reads, the loop's first line is the stream's first line.
\<close>

lemma takeWhile_nl: "10 \<in> set acc \<Longrightarrow> takeWhile (\<lambda>b. b \<noteq> 10) (acc @ xs) = takeWhile (\<lambda>b. b \<noteq> 10) acc"
  by (simp add: takeWhile_append1)

lemma recv_line_first:
  "[] \<notin> set cs \<Longrightarrow> first_line (fst (recv_line cs acc)) = first_line (acc @ concat cs)"
proof (induction cs arbitrary: acc)
  case (Cons c cs)
  then show ?case using takeWhile_nl [of acc "c @ concat cs"] by (auto simp: first_line_def)
qed simp

lemma encode_newline: "encode [CHR 0x0A] = [10]"
  by (simp add: encode_def)

lemma encode_no_newline: "CHR 0x0A \<notin> set s \<Longrightarrow> 10 \<notin> set (encode s)"
proof
  assume "CHR 0x0A \<notin> set s" "10 \<in> set (encode s)"
  then obtain c where "c \<in> set s" "(of_char c :: byte) = 10" by (auto simp: encode_def)
  then have "c = char_of (unat (10 :: byte))" by (metis char_of_byte)
  with \<open>c \<in> set s\<close> \<open>CHR 0x0A \<notin> set s\<close> show False by (simp add: char_of_def bit_Suc_0_iff)
qed

lemma first_line_frame:
  assumes "codec_ok K j"
  shows "first_line (frame K j @ rest) = dumps K j"
proof -
  have "10 \<notin> set (encode (dumps K j))" using assms by (simp add: codec_ok_def encode_no_newline)
  then have "takeWhile (\<lambda>b. b \<noteq> 10) (frame K j @ rest) = encode (dumps K j)"
    by (simp add: frame_def encode_newline takeWhile_append)
  then show ?thesis by (simp add: first_line_def)
qed

lemma recv_frame:
  assumes "codec_ok K j" and "[] \<notin> set cs" and "concat cs = frame K j @ rest"
  shows "first_line (fst (recv_line cs [])) = dumps K j"
  using recv_line_first [OF assms(2), of "[]"] first_line_frame [OF assms(1), of rest] assms(3) by simp

section \<open>A codec that satisfies the laws\<close>

text \<open>Values numbered by their countability and written in decimal; the witnesses use it for \<open>json\<close>.\<close>

instance json :: countable
  by countable_datatype

definition number_codec :: codec where
  "number_codec = \<lparr>dumps = (\<lambda>j. show_nat (to_nat j)), loads = (\<lambda>s. Inr (from_nat (read_nat s)))\<rparr>"

lemma number_codec_ok: "codec_ok number_codec j"
proof -
  have "CHR 0x0A \<notin> set (show_nat n)" for n
    using show_nat_range [of "CHR 0x0A" n] by fastforce
  then show ?thesis by (simp add: codec_ok_def number_codec_def)
qed

lemma number_codec_loads [simp]: "loads number_codec (dumps number_codec j) = Inr j"
  using number_codec_ok by (simp add: codec_ok_def)

end
