(* ===== verification/Guest_Agent.thy ===== *)
theory Guest_Agent
  imports Wire
begin

text \<open>
  The guest agent (\<open>spikes/guest/guest_agent.py\<close>): the process supervisor inside the VM. Its state is
  the part of the guest it reads and writes: the fork generation file, the branch files, the clock
  and the run state of the workload it spawned. \<open>handle\<close> is one request, \<open>serve_conn\<close> one
  connection of the accept loop.
\<close>

section \<open>The guest\<close>

datatype run_state = Running | Stopped | Exited

record guest =
  g_forkgen :: "string option"     \<comment> \<open>content of \<open>/run/klados/forkgen\<close>\<close>
  g_branch :: "json option"        \<comment> \<open>value written to \<open>/run/klados/branch.json\<close>\<close>
  g_data :: "string option"        \<comment> \<open>\<open>/data/branch.txt\<close> as the guest sees it\<close>
  g_disk :: "string option"        \<comment> \<open>\<open>/data/branch.txt\<close> on the backing disk\<close>
  g_clock :: rat                   \<comment> \<open>\<open>CLOCK_REALTIME\<close>\<close>
  g_work :: run_state              \<comment> \<open>the workload process\<close>
  g_pid :: nat
  g_texts :: "string \<Rightarrow> string option" \<comment> \<open>other files under \<open>/run/klados\<close>\<close>

text \<open>
  What the agent asks of its system: whether \<open>/run/klados\<close> and \<open>/data\<close> can be written, whether
  \<open>clock_settime\<close> succeeds, the SQLite queries of the \<open>CHECK\<close> request, and Python's \<open>float\<close> of a
  string and \<open>str\<close> of a value that is not a string.
\<close>

record guest_env =
  run_writable :: bool
  data_writable :: bool
  clock_settable :: bool
  q_connect :: "string \<Rightarrow> guest \<Rightarrow> exn + unit"
  q_integrity :: "string \<Rightarrow> guest \<Rightarrow> exn + string"
  q_rows :: "string \<Rightarrow> guest \<Rightarrow> exn + (string \<times> int) list"
  q_total :: "string \<Rightarrow> guest \<Rightarrow> exn + int"
  float_of :: "string \<Rightarrow> rat option"
  str_of :: "json \<Rightarrow> string"

section \<open>Primitive operations\<close>

text \<open>\<open>set_realtime\<close>: the epoch cut to whole nanoseconds, each part truncated towards zero.\<close>

definition trunc_rat :: "rat \<Rightarrow> int" where
  "trunc_rat x = (if 0 \<le> x then \<lfloor>x\<rfloor> else \<lceil>x\<rceil>)"

definition realtime_of :: "rat \<Rightarrow> rat" where
  "realtime_of epoch =
     of_int (trunc_rat epoch) + of_int (trunc_rat ((epoch - of_int (trunc_rat epoch)) * 10 ^ 9)) / 10 ^ 9"

definition set_realtime :: "guest_env \<Rightarrow> rat \<Rightarrow> guest \<Rightarrow> bool \<times> guest" where
  "set_realtime E epoch g =
     (if clock_settable E then (True, g\<lparr>g_clock := realtime_of epoch\<rparr>) else (False, g))"

definition strip :: "string \<Rightarrow> string" where
  "strip s = (let sp = (\<lambda>c. c \<in> set [CHR '' '', CHR 0x09, CHR 0x0A, CHR 0x0B, CHR 0x0C, CHR 0x0D])
              in rev (dropWhile sp (rev (dropWhile sp s))))"

text \<open>\<open>int(text)\<close>: an optional sign and decimal digits.\<close>

definition parse_digits :: "string \<Rightarrow> int option" where
  "parse_digits s = (if s \<noteq> [] \<and> (\<forall>c \<in> set s. 48 \<le> (of_char c :: nat) \<and> (of_char c :: nat) \<le> 57)
                     then Some (int (read_nat s)) else None)"

fun parse_int :: "string \<Rightarrow> int option" where
  "parse_int [] = None"
| "parse_int (c # s) =
     (if c = CHR ''-'' then map_option uminus (parse_digits s)
      else if c = CHR ''+'' then parse_digits s
      else parse_digits (c # s))"

text \<open>
  \<open>_bump_gen\<close>: an unreadable or malformed file counts as generation 0. \<open>_write_atomic\<close> replaces the
  file or raises.
\<close>

definition write_gen :: "guest_env \<Rightarrow> string \<Rightarrow> guest \<Rightarrow> (exn + unit) \<times> guest" where
  "write_gen E s g = (if run_writable E then (Inr (), g\<lparr>g_forkgen := Some s\<rparr>) else (Inl (OSError ''forkgen''), g))"

definition current_gen :: "guest \<Rightarrow> int" where
  "current_gen g =
     (case g_forkgen g of
        None \<Rightarrow> 0
      | Some s \<Rightarrow> (if strip s = [] then 0 else case parse_int (strip s) of None \<Rightarrow> 0 | Some n \<Rightarrow> n))"

definition bump_gen :: "guest_env \<Rightarrow> guest \<Rightarrow> (exn + int) \<times> guest" where
  "bump_gen E g =
     (let cur = current_gen g in andthen (write_gen E (show_int (cur + 1))) (\<lambda>_. ret (cur + 1)) g)"

text \<open>\<open>Popen.send_signal\<close> of \<open>SIGSTOP\<close> and \<open>SIGCONT\<close>: nothing happens to a workload that has exited.\<close>

definition sig_stop :: "guest \<Rightarrow> guest" where
  "sig_stop g = (if g_work g = Running then g\<lparr>g_work := Stopped\<rparr> else g)"

definition sig_cont :: "guest \<Rightarrow> guest" where
  "sig_cont g = (if g_work g = Stopped then g\<lparr>g_work := Running\<rparr> else g)"

text \<open>\<open>Agent.__init__\<close>: the generation starts at 0 and only then is the workload spawned.\<close>

definition agent_init :: "guest_env \<Rightarrow> nat \<Rightarrow> guest \<Rightarrow> (exn + unit) \<times> guest" where
  "agent_init E pid =
     andthen (write_gen E ''0'') (\<lambda>_ g. (Inr (), g\<lparr>g_work := Running, g_pid := pid\<rparr>))"

section \<open>Requests\<close>

text \<open>
  \<open>FORKED\<close> as the sequence of its effects, in the order of the code. The locals \<open>clock_set\<close> and
  \<open>gen\<close> are threaded beside the guest.
\<close>

datatype fork_op =
    OpBranch json      \<comment> \<open>\<open>_write_atomic(BRANCH, ...)\<close>\<close>
  | OpData string      \<comment> \<open>write \<open>/data/branch.txt\<close>, errors ignored\<close>
  | OpClock json       \<comment> \<open>step the clock to \<open>true_time\<close>\<close>
  | OpBump             \<comment> \<open>bump the generation\<close>
  | OpCont             \<comment> \<open>release the workload\<close>

record fork_locals =
  l_clock :: "rat option"
  l_gen :: int

fun json_float :: "guest_env \<Rightarrow> json \<Rightarrow> exn + rat" where
  "json_float E (JInt i) = Inr (of_int i)"
| "json_float E (JNum x) = Inr x"
| "json_float E (JBool b) = Inr (if b then 1 else 0)"
| "json_float E (JStr s) = (case float_of E s of Some x \<Rightarrow> Inr x | None \<Rightarrow> Inl (ValueError ''could not convert string to float''))"
| "json_float E _ = Inl (TypeError ''float() argument must be a string or a real number'')"

fun exec_fork_op :: "guest_env \<Rightarrow> fork_op \<Rightarrow> guest \<times> fork_locals \<Rightarrow> (exn + unit) \<times> guest \<times> fork_locals" where
  "exec_fork_op E (OpBranch j) (g, l) =
     (if run_writable E then (Inr (), g\<lparr>g_branch := Some j\<rparr>, l) else (Inl (OSError ''branch.json''), g, l))"
| "exec_fork_op E (OpData s) (g, l) =
     (Inr (), if data_writable E then g\<lparr>g_data := Some (s @ [CHR 0x0A])\<rparr> else g, l)"
| "exec_fork_op E (OpClock j) (g, l) =
     (case json_float E j of
        Inl e \<Rightarrow> (Inl e, g, l)
      | Inr t \<Rightarrow> (let (okay, g') = set_realtime E t g
                  in (Inr (), g', if okay then l\<lparr>l_clock := Some (g_clock g')\<rparr> else l)))"
| "exec_fork_op E OpBump (g, l) =
     (case bump_gen E g of (Inl e, g') \<Rightarrow> (Inl e, g', l) | (Inr n, g') \<Rightarrow> (Inr (), g', l\<lparr>l_gen := n\<rparr>))"
| "exec_fork_op E OpCont (g, l) = (Inr (), sig_cont g, l)"

fun exec_fork_ops :: "guest_env \<Rightarrow> fork_op list \<Rightarrow> guest \<times> fork_locals \<Rightarrow> (exn + unit) \<times> guest \<times> fork_locals" where
  "exec_fork_ops E [] = ret ()"
| "exec_fork_ops E (x # xs) = andthen (exec_fork_op E x) (\<lambda>_. exec_fork_ops E xs)"

fun text_of :: "guest_env \<Rightarrow> json \<Rightarrow> string" where
  "text_of E (JStr s) = s"
| "text_of E j = str_of E j"

definition fork_ops :: "guest_env \<Rightarrow> json \<Rightarrow> fork_op list" where
  "fork_ops E msg =
     (let ctx = json_field msg ''branch_context'' in
      (if ctx \<noteq> JNull
       then [OpBranch (JObj [(''index'', json_field msg ''index''), (''n'', json_field msg ''n''), (''context'', ctx)]),
             OpData (text_of E ctx)]
       else []) @
      (if json_has msg ''true_time'' then [OpClock (json_field msg ''true_time'')] else []) @
      [OpBump, OpCont])"

definition handle_forked :: "guest_env \<Rightarrow> json \<Rightarrow> guest \<Rightarrow> (exn + json) \<times> guest" where
  "handle_forked E msg g =
     (case exec_fork_ops E (fork_ops E msg) (g, \<lparr>l_clock = None, l_gen = 0\<rparr>) of
        (Inl e, g', l) \<Rightarrow> (Inl e, g')
      | (Inr _, g', l) \<Rightarrow>
          (Inr (JObj [(''status'', JStr ''READY''), (''index'', json_field msg ''index''), (''gen'', JInt (l_gen l)),
                      (''clock'', case l_clock l of None \<Rightarrow> JNull | Some t \<Rightarrow> JNum t)]), g'))"

text \<open>
  \<open>CHECK\<close>: the answer grows query by query, and the first query that raises adds an \<open>error\<close>
  instead of what would follow.
\<close>

definition handle_check :: "guest_env \<Rightarrow> json \<Rightarrow> guest \<Rightarrow> json" where
  "handle_check E msg g =
     (let db = (case json_field msg ''db'' of JStr s \<Rightarrow> s | _ \<Rightarrow> ''/run/klados/app.db'');
          out = [(''status'', JStr ''CHECK'')];
          failed = (\<lambda>out e. JObj (out @ [(''error'', JStr (exn_str e))]))
      in case q_connect E db g of
           Inl e \<Rightarrow> failed out e
         | Inr _ \<Rightarrow>
             (case q_integrity E db g of
                Inl e \<Rightarrow> failed out e
              | Inr i \<Rightarrow>
                  let out1 = out @ [(''integrity'', JStr i)] in
                  (case q_rows E db g of
                     Inl e \<Rightarrow> failed out1 e
                   | Inr rows \<Rightarrow>
                       let out2 = out1 @ [(''per_worker'', JObj (map (\<lambda>(w, c). (w, JInt c)) rows))] in
                       (case q_total E db g of
                          Inl e \<Rightarrow> failed out2 e
                        | Inr n \<Rightarrow>
                            JObj (out2 @ [(''total'', JInt n),
                              (''session'', case g_texts g ''session'' of None \<Rightarrow> JNull | Some s \<Rightarrow> JStr (strip s))])))))"

definition opt_text :: "string option \<Rightarrow> json" where
  "opt_text x = (case x of None \<Rightarrow> JNull | Some s \<Rightarrow> JStr (strip s))"

definition handle :: "guest_env \<Rightarrow> json \<Rightarrow> guest \<Rightarrow> (exn + json) \<times> guest" where
  "handle E msg g =
     (case json_get msg ''type'' of
        Inl e \<Rightarrow> (Inl e, g)
      | Inr t \<Rightarrow>
          if t = Some (JStr ''PING'') then (Inr (JObj [(''status'', JStr ''PONG'')]), g)
          else if t = Some (JStr ''CHECK'') then (Inr (handle_check E msg g), g)
          else if t = Some (JStr ''QUIESCE'') then
            (let g1 = sig_stop g; g2 = g1\<lparr>g_disk := g_data g1\<rparr>
             in (Inr (JObj [(''status'', JStr ''QUIESCED''), (''pid'', JInt (int (g_pid g2)))]), g2))
          else if t = Some (JStr ''BROWSER_CHECK'') then
            (Inr (JObj [(''status'', JStr ''BROWSER''), (''token'', opt_text (g_texts g ''browser_token'')),
                        (''state'', opt_text (g_texts g ''browser_state''))]), g)
          else if t = Some (JStr ''FORKED'') then handle_forked E msg g
          else (Inr (JObj [(''status'', JStr ''ERR''),
                           (''msg'', JStr (''unknown type '' @
                              (case t of None \<Rightarrow> ''None'' | Some (JStr s) \<Rightarrow> py_repr s | Some j \<Rightarrow> str_of E j)))]), g))"

section \<open>One connection\<close>

text \<open>
  The body of the accept loop: read a line, answer it, close. An exception of the handler or of the
  decoder is answered with its text; the loop goes on in every case.
\<close>

definition err_reply :: "exn \<Rightarrow> json" where
  "err_reply e = JObj [(''status'', JStr ''ERR''), (''msg'', JStr (exn_str e))]"

definition serve_conn :: "codec \<Rightarrow> guest_env \<Rightarrow> bytes list \<Rightarrow> guest \<Rightarrow> bytes \<times> guest" where
  "serve_conn K E reads g =
     (let line = first_line (fst (recv_line reads []))
      in if line = [] then (frame K (JObj [(''status'', JStr ''ERR'')]), g)
         else case loads K line of
                Inl e \<Rightarrow> (frame K (err_reply e), g)
              | Inr msg \<Rightarrow>
                  (case handle E msg g of
                     (Inl e, g') \<Rightarrow> (frame K (err_reply e), g')
                   | (Inr resp, g') \<Rightarrow> (frame K resp, g')))"

section \<open>Reading back the generation\<close>

lemma strip_no_space: "(\<And>c. c \<in> set s \<Longrightarrow> c \<notin> set [CHR '' '', CHR 0x09, CHR 0x0A, CHR 0x0B, CHR 0x0C, CHR 0x0D]) \<Longrightarrow> strip s = s"
proof -
  let ?sp = "\<lambda>c. c \<in> set [CHR '' '', CHR 0x09, CHR 0x0A, CHR 0x0B, CHR 0x0C, CHR 0x0D]"
  assume a: "\<And>c. c \<in> set s \<Longrightarrow> c \<notin> set [CHR '' '', CHR 0x09, CHR 0x0A, CHR 0x0B, CHR 0x0C, CHR 0x0D]"
  have d: "dropWhile ?sp t = t" if "set t \<subseteq> set s" for t
    using that a by (cases t) auto
  show ?thesis unfolding strip_def Let_def using d [of s] d [of "rev s"] by simp
qed

lemma parse_digits_show: "parse_digits (show_nat n) = Some (int n)"
  using show_nat_range by (auto simp: parse_digits_def)

lemma parse_show_int [simp]: "parse_int (show_int i) = Some i"
proof (cases "i < 0")
  case True
  then show ?thesis by (simp add: show_int_def parse_digits_show)
next
  case False
  obtain c cs where s: "show_nat (nat i) = c # cs" by (cases "show_nat (nat i)") auto
  then have r: "48 \<le> (of_char c :: nat)" using show_nat_range [of c "nat i"] by simp
  have "c \<noteq> CHR ''-''" "c \<noteq> CHR ''+''" using r by auto
  with s False show ?thesis using parse_digits_show [of "nat i"] by (simp add: show_int_def)
qed

lemma strip_show_int [simp]: "strip (show_int i) = show_int i"
proof (rule strip_no_space)
  fix c
  assume "c \<in> set (show_int i)"
  then have "c = CHR ''-'' \<or> 48 \<le> (of_char c :: nat)"
    using show_nat_range [of c] by (auto simp: show_int_def split: if_splits)
  then show "c \<notin> set [CHR '' '', CHR 0x09, CHR 0x0A, CHR 0x0B, CHR 0x0C, CHR 0x0D]" by auto
qed

lemma show_int_nonempty [simp]: "show_int i \<noteq> []"
  by (simp add: show_int_def)

lemma current_gen_shown: "g_forkgen g = Some (show_int n) \<Longrightarrow> current_gen g = n"
  by (simp add: current_gen_def)

lemma bump_gen_cases:
  "bump_gen E g = (if run_writable E
     then (Inr (current_gen g + 1), g\<lparr>g_forkgen := Some (show_int (current_gen g + 1))\<rparr>)
     else (Inl (OSError ''forkgen''), g))"
  by (simp add: bump_gen_def write_gen_def andthen_def ret_def Let_def)

section \<open>The fork protocol\<close>

text \<open>The guest before, between and after the effects of a list, up to the first that raises.\<close>

fun fork_states :: "guest_env \<Rightarrow> fork_op list \<Rightarrow> guest \<times> fork_locals \<Rightarrow> guest list" where
  "fork_states E [] s = [fst s]"
| "fork_states E (x # xs) s =
     fst s # (case exec_fork_op E x s of (Inl e, s') \<Rightarrow> [fst s'] | (Inr _, s') \<Rightarrow> fork_states E xs s')"

text \<open>The effects before the bump touch neither the generation nor the workload.\<close>

definition quiet_op :: "fork_op \<Rightarrow> bool" where
  "quiet_op x = (case x of OpBump \<Rightarrow> False | OpCont \<Rightarrow> False | _ \<Rightarrow> True)"

lemma quiet_op_frame:
  assumes "quiet_op x" "exec_fork_op E x (g, l) = (r, g', l')"
  shows "g_work g' = g_work g \<and> g_forkgen g' = g_forkgen g \<and> l_gen l' = l_gen l"
  using assms by (cases x) (auto simp: quiet_op_def set_realtime_def split: if_splits sum.splits)

lemma fork_ops_shape: "\<exists>pre. fork_ops E msg = pre @ [OpBump, OpCont] \<and> (\<forall>x \<in> set pre. quiet_op x)"
  by (auto simp: fork_ops_def Let_def quiet_op_def)

lemma exec_fork_ops_append:
  "exec_fork_ops E (xs @ ys) = andthen (exec_fork_ops E xs) (\<lambda>_. exec_fork_ops E ys)"
proof (induction xs)
  case (Cons x xs)
  then show ?case by (auto simp: fun_eq_iff andthen_def split: prod.splits sum.splits)
qed simp

lemma quiet_ops_frame:
  "\<forall>x \<in> set xs. quiet_op x \<Longrightarrow> exec_fork_ops E xs (g, l) = (r, g', l') \<Longrightarrow>
    g_work g' = g_work g \<and> g_forkgen g' = g_forkgen g"
proof (induction xs arbitrary: g l)
  case (Cons x xs)
  obtain r1 g1 l1 where one: "exec_fork_op E x (g, l) = (r1, g1, l1)" by (metis prod_cases3)
  have f: "g_work g1 = g_work g \<and> g_forkgen g1 = g_forkgen g"
    using quiet_op_frame [OF _ one] Cons.prems by simp
  show ?case
  proof (cases r1)
    case (Inl e)
    with Cons.prems one f show ?thesis by (simp add: andthen_def)
  next
    case (Inr u)
    with Cons.prems one have "exec_fork_ops E xs (g1, l1) = (r, g', l')" by (simp add: andthen_def)
    with Cons.IH Cons.prems f show ?thesis by simp
  qed
qed (simp add: ret_def)

lemma fork_states_quiet:
  assumes "\<forall>x \<in> set pre. quiet_op x"
  shows "h \<in> set (fork_states E (pre @ [OpBump, OpCont]) (g, l)) \<Longrightarrow> g_work g = Stopped \<Longrightarrow>
    g_work h = Stopped \<or> (g_work h = Running \<and> g_forkgen h = Some (show_int (current_gen g + 1)))"
  using assms
proof (induction pre arbitrary: g l)
  case Nil
  then show ?case
    by (auto simp: bump_gen_cases sig_cont_def split: if_splits)
next
  case (Cons x pre)
  obtain r1 g1 l1 where one: "exec_fork_op E x (g, l) = (r1, g1, l1)" by (metis prod_cases3)
  have f: "g_work g1 = g_work g \<and> g_forkgen g1 = g_forkgen g"
    using quiet_op_frame [OF _ one] Cons.prems by simp
  then have cg: "current_gen g1 = current_gen g" by (simp add: current_gen_def)
  show ?case using Cons.prems Cons.IH [of g1 l1] one f cg by (cases r1) auto
qed

text \<open>What a completed \<open>FORKED\<close> has done, and what a failed one has not.\<close>

lemma handle_forked_Inr:
  assumes "handle_forked E msg g = (Inr resp, g')"
  shows "g_forkgen g' = Some (show_int (current_gen g + 1)) \<and>
    g_work g' = (if g_work g = Stopped then Running else g_work g) \<and>
    json_field resp ''status'' = JStr ''READY'' \<and> json_field resp ''gen'' = JInt (current_gen g + 1)"
proof -
  obtain pre where pre: "fork_ops E msg = pre @ [OpBump, OpCont]" "\<forall>x \<in> set pre. quiet_op x"
    using fork_ops_shape by blast
  obtain r1 g1 l1 where one: "exec_fork_ops E pre (g, \<lparr>l_clock = None, l_gen = 0\<rparr>) = (r1, g1, l1)"
    by (metis prod_cases3)
  have f: "g_work g1 = g_work g \<and> g_forkgen g1 = g_forkgen g" using quiet_ops_frame [OF pre(2) one] .
  then have cg: "current_gen g1 = current_gen g" by (simp add: current_gen_def)
  show ?thesis
    using assms one f cg
    by (cases r1) (auto simp: handle_forked_def pre(1) exec_fork_ops_append andthen_def bump_gen_cases ret_def
        sig_cont_def split: if_splits)
qed

lemma handle_forked_Inl:
  assumes "handle_forked E msg g = (Inl e, g')"
  shows "g_forkgen g' = g_forkgen g \<and> g_work g' = g_work g"
proof -
  obtain pre where pre: "fork_ops E msg = pre @ [OpBump, OpCont]" "\<forall>x \<in> set pre. quiet_op x"
    using fork_ops_shape by blast
  obtain r1 g1 l1 where one: "exec_fork_ops E pre (g, \<lparr>l_clock = None, l_gen = 0\<rparr>) = (r1, g1, l1)"
    by (metis prod_cases3)
  have f: "g_work g1 = g_work g \<and> g_forkgen g1 = g_forkgen g" using quiet_ops_frame [OF pre(2) one] .
  show ?thesis
    using assms one f
    by (cases r1) (auto simp: handle_forked_def pre(1) exec_fork_ops_append andthen_def bump_gen_cases ret_def
        split: if_splits)
qed

definition is_ready :: "exn + json \<Rightarrow> bool" where
  "is_ready r = (case r of Inl _ \<Rightarrow> False | Inr j \<Rightarrow> json_field j ''status'' = JStr ''READY'')"

definition msg_is :: "string \<Rightarrow> json \<Rightarrow> bool" where
  "msg_is t msg \<longleftrightarrow> json_get msg ''type'' = Inr (Some (JStr t))"

lemma check_not_ready: "json_field (handle_check E msg g) ''status'' = JStr ''CHECK''"
  by (simp add: handle_check_def Let_def split: sum.splits)

text \<open>Every request but \<open>FORKED\<close> leaves the generation alone, is not answered \<open>READY\<close>, and never starts the workload.\<close>

lemma handle_other:
  assumes "handle E msg g = (r, g')" and "\<not> msg_is ''FORKED'' msg"
  shows "g_forkgen g' = g_forkgen g \<and> \<not> is_ready r \<and> (g_work g' = g_work g \<or> g_work g' = Stopped)"
  using assms check_not_ready [of E msg g]
  by (auto simp: handle_def msg_is_def is_ready_def sig_stop_def Let_def split: sum.splits if_splits)

lemma handle_is_forked: "msg_is ''FORKED'' msg \<Longrightarrow> handle E msg g = handle_forked E msg g"
  by (simp add: handle_def msg_is_def)

section \<open>Properties of the agent\<close>

text \<open>
  C14. Bump first, then release: in every state a \<open>FORKED\<close> request takes a stopped guest through, error
  exits included, the workload is still stopped unless the fork generation has already been raised.
\<close>

theorem release_after_bump:
  assumes "g_work g = Stopped" and "h \<in> set (fork_states E (fork_ops E msg) (g, l))"
  shows "g_work h = Stopped \<or> (g_work h = Running \<and> g_forkgen h = Some (show_int (current_gen g + 1)))"
proof -
  obtain pre where "fork_ops E msg = pre @ [OpBump, OpCont]" "\<forall>x \<in> set pre. quiet_op x"
    using fork_ops_shape by blast
  with fork_states_quiet assms show ?thesis by simp
qed

definition demo_guest :: guest where
  "demo_guest = \<lparr>g_forkgen = Some ''0'', g_branch = None, g_data = None, g_disk = None, g_clock = 0,
     g_work = Stopped, g_pid = 7, g_texts = (\<lambda>_. None)\<rparr>"

definition demo_guest_env :: guest_env where
  "demo_guest_env = \<lparr>run_writable = True, data_writable = True, clock_settable = True,
     q_connect = (\<lambda>_ _. Inr ()), q_integrity = (\<lambda>_ _. Inr ''ok''), q_rows = (\<lambda>_ _. Inr []), q_total = (\<lambda>_ _. Inr 0),
     float_of = (\<lambda>_. None), str_of = (\<lambda>_. [])\<rparr>"

definition demo_forked :: json where
  "demo_forked = JObj [(''type'', JStr ''FORKED''), (''index'', JInt 1), (''n'', JInt 2), (''true_time'', JNum (5 / 2)),
     (''branch_context'', JStr ''branch 1 of 2'')]"

lemma demo_gen: "current_gen demo_guest = 0"
  by (simp add: demo_guest_def current_gen_def strip_def parse_digits_def read_nat_def)

theorem release_after_bump_witness:
  "g_work demo_guest = Stopped \<and>
   (\<exists>h \<in> set (fork_states demo_guest_env (fork_ops demo_guest_env demo_forked) (demo_guest, \<lparr>l_clock = None, l_gen = 0\<rparr>)).
      g_work h = Running \<and> g_forkgen h = Some (show_int 1))"
proof -
  let ?sts = "fork_states demo_guest_env (fork_ops demo_guest_env demo_forked) (demo_guest, \<lparr>l_clock = None, l_gen = 0\<rparr>)"
  have st: "length ?sts = 6 \<and> g_work (last ?sts) = Running"
    by (simp add: fork_ops_def demo_forked_def demo_guest_env_def demo_guest_def Let_def set_realtime_def bump_gen_cases sig_cont_def)
  then have "last ?sts \<in> set ?sts" by (intro last_in_set) auto
  from release_after_bump [OF _ this] st this show ?thesis
    by (auto simp: demo_guest_def demo_gen [unfolded demo_guest_def])
qed

text \<open>
  Fail-safe: whatever request a guest with a stopped workload receives, the workload runs
  afterwards only if the request was a \<open>FORKED\<close> answered \<open>READY\<close>; and then the generation is one
  higher than before. In particular a \<open>FORKED\<close> that raises half-way keeps the workload stopped.
\<close>

theorem only_ready_releases:
  assumes "g_work g = Stopped" and "handle E msg g = (r, g')"
  shows "(g_work g' = Running \<longleftrightarrow> is_ready r) \<and>
    (is_ready r \<longrightarrow> msg_is ''FORKED'' msg \<and> current_gen g' = current_gen g + 1) \<and>
    (\<not> is_ready r \<longrightarrow> g_work g' = Stopped \<and> g_forkgen g' = g_forkgen g)"
proof (cases "msg_is ''FORKED'' msg")
  case True
  then have h: "handle_forked E msg g = (r, g')" using assms(2) handle_is_forked by simp
  show ?thesis
  proof (cases r)
    case (Inl e)
    with h assms(1) handle_forked_Inl [of E msg g e g'] show ?thesis by (simp add: is_ready_def)
  next
    case (Inr resp)
    with h assms(1) True handle_forked_Inr [of E msg g resp g'] show ?thesis
      by (simp add: is_ready_def current_gen_shown)
  qed
next
  case False
  with handle_other [OF assms(2)] assms(1) show ?thesis by auto
qed

lemmas demo_handle_simps = handle_def handle_forked_def fork_ops_def demo_forked_def demo_guest_env_def Let_def
  andthen_def is_ready_def set_realtime_def bump_gen_cases ret_def

lemma demo_ready: "is_ready (fst (handle demo_guest_env demo_forked demo_guest))"
  by (simp add: demo_handle_simps)

lemma demo_refused: "\<not> is_ready (fst (handle (demo_guest_env\<lparr>run_writable := False\<rparr>) demo_forked demo_guest))"
  by (simp add: demo_handle_simps)

theorem only_ready_releases_witness:
  "g_work demo_guest = Stopped \<and>
   g_work (snd (handle (demo_guest_env\<lparr>run_writable := False\<rparr>) demo_forked demo_guest)) = Stopped \<and>
   g_work (snd (handle demo_guest_env demo_forked demo_guest)) = Running"
proof -
  have s: "g_work demo_guest = Stopped" by (simp add: demo_guest_def)
  show ?thesis
    using only_ready_releases [OF s prod.collapse [symmetric], of "demo_guest_env\<lparr>run_writable := False\<rparr>" demo_forked]
      only_ready_releases [OF s prod.collapse [symmetric], of demo_guest_env demo_forked] s demo_ready demo_refused
    by simp
qed

text \<open>
  The generation counts the forks: over any sequence of requests, answered or failed, it grows by
  the number of \<open>READY\<close> answers.
\<close>

fun session :: "guest_env \<Rightarrow> json list \<Rightarrow> guest \<Rightarrow> (exn + json) list \<times> guest" where
  "session E [] g = ([], g)"
| "session E (m # ms) g =
     (let (r, g1) = handle E m g; (rs, g2) = session E ms g1 in (r # rs, g2))"

lemma handle_gen:
  "handle E msg g = (r, g') \<Longrightarrow> current_gen g' = current_gen g + (if is_ready r then 1 else 0)"
proof (cases "msg_is ''FORKED'' msg")
  case True
  assume "handle E msg g = (r, g')"
  with True have h: "handle_forked E msg g = (r, g')" using handle_is_forked by simp
  show ?thesis
  proof (cases r)
    case (Inl e)
    with h handle_forked_Inl [of E msg g e g'] show ?thesis by (simp add: is_ready_def current_gen_def)
  next
    case (Inr resp)
    with h handle_forked_Inr [of E msg g resp g'] show ?thesis by (simp add: is_ready_def current_gen_shown)
  qed
next
  case False
  assume "handle E msg g = (r, g')"
  from handle_other [OF this False] show ?thesis by (simp add: current_gen_def)
qed

text \<open>
  The generation is the number of completed forks: over any sequence of requests it grows by exactly
  the number of \<open>READY\<close> answers, so two completed forks never share a generation along one lineage.
\<close>

theorem session_generation:
  "current_gen (snd (session E ms g)) = current_gen g + int (length (filter is_ready (fst (session E ms g))))"
proof (induction ms arbitrary: g)
  case (Cons m ms)
  obtain r g1 where h: "handle E m g = (r, g1)" by fastforce
  from handle_gen [OF h] Cons.IH [of g1] show ?case by (simp add: h split_beta)
qed simp

lemma realtime_close: "0 \<le> t \<Longrightarrow> realtime_of t \<le> t \<and> t < realtime_of t + 1 / 10 ^ 9"
proof -
  assume t: "0 \<le> t"
  let ?s = "\<lfloor>t\<rfloor>"
  have f: "0 \<le> t - of_int ?s" by linarith
  have p: "(0::rat) < 10 ^ 9" by simp
  let ?n = "\<lfloor>(t - of_int ?s) * 10 ^ 9\<rfloor>"
  have "realtime_of t = of_int ?s + of_int ?n / 10 ^ 9"
    using t f by (simp add: realtime_of_def trunc_rat_def)
  moreover have "of_int ?n \<le> (t - of_int ?s) * 10 ^ 9" "(t - of_int ?s) * 10 ^ 9 < of_int ?n + 1"
    by linarith+
  ultimately show ?thesis by (simp add: field_simps)
qed

lemma quiet_ops_clock:
  assumes "json_float E tv = Inr t" "clock_settable E"
    and "exec_fork_ops E (fork_ops E msg) (g, l) = (Inr u, g', l')"
    and "json_has msg ''true_time''" "json_field msg ''true_time'' = tv"
  shows "g_clock g' = realtime_of t"
  using assms by (auto simp: fork_ops_def Let_def andthen_def set_realtime_def bump_gen_cases sig_cont_def ret_def
      split: if_splits)

text \<open>
  The clock after a fork: when the guest can set its clock and the host sends its time as a
  non-negative number, a completed \<open>FORKED\<close> leaves the clock less than a nanosecond behind that
  time and never ahead of it.
\<close>

theorem forked_clock:
  assumes "handle E msg g = (r, g')" "msg_is ''FORKED'' msg" "is_ready r" "clock_settable E"
    and "json_has msg ''true_time''" "json_field msg ''true_time'' = JNum t" "0 \<le> t"
  shows "g_clock g' \<le> t \<and> t < g_clock g' + 1 / 10 ^ 9"
proof -
  have h: "handle_forked E msg g = (r, g')" using assms(1,2) handle_is_forked by simp
  then obtain u l' where "exec_fork_ops E (fork_ops E msg) (g, \<lparr>l_clock = None, l_gen = 0\<rparr>) = (Inr u, g', l')"
    using assms(3) by (auto simp: handle_forked_def is_ready_def split: prod.splits sum.splits)
  from quiet_ops_clock [OF _ assms(4) this assms(5,6)] have "g_clock g' = realtime_of t" by simp
  with realtime_close [OF assms(7)] show ?thesis by simp
qed

theorem forked_clock_witness:
  "is_ready (fst (handle demo_guest_env demo_forked demo_guest)) \<and>
   g_clock (snd (handle demo_guest_env demo_forked demo_guest)) \<le> 5 / 2 \<and>
   5 / 2 < g_clock (snd (handle demo_guest_env demo_forked demo_guest)) + 1 / 10 ^ 9"
proof -
  have m: "msg_is ''FORKED'' demo_forked" by (simp add: msg_is_def demo_forked_def)
  from forked_clock [OF prod.collapse [symmetric] m demo_ready, of "5 / 2"] demo_ready show ?thesis
    by (simp add: demo_guest_env_def demo_forked_def)
qed

lemma serve_conn_framing:
  assumes "codec_ok K msg" and "[] \<notin> set reads" and "concat reads = frame K msg @ rest"
  shows "serve_conn K E reads g =
    (case handle E msg g of (r, g') \<Rightarrow> (frame K (case r of Inl e \<Rightarrow> err_reply e | Inr resp \<Rightarrow> resp), g'))"
proof -
  have "first_line (fst (recv_line reads [])) = dumps K msg" using recv_frame [OF assms] .
  then show ?thesis
    using assms(1) by (simp add: serve_conn_def codec_ok_def split: prod.split sum.split)
qed

text \<open>
  The accept loop of \<open>main\<close>: a failing \<open>accept\<close> is passed over, a connection is answered and closed.
  The result is what is written to the connections, in order.
\<close>

fun serve_all :: "codec \<Rightarrow> guest_env \<Rightarrow> (exn + bytes list) list \<Rightarrow> guest \<Rightarrow> bytes list \<times> guest" where
  "serve_all K E [] g = ([], g)"
| "serve_all K E (Inl e # cs) g = serve_all K E cs g"
| "serve_all K E (Inr reads # cs) g =
     (let (reply, g1) = serve_conn K E reads g; (replies, g2) = serve_all K E cs g1 in (reply # replies, g2))"

text \<open>A connection that carries the frame of a request, then anything, cut into non-empty reads anywhere.\<close>

definition carries :: "codec \<Rightarrow> bytes list \<Rightarrow> json \<Rightarrow> bool" where
  "carries K reads msg \<longleftrightarrow> codec_ok K msg \<and> [] \<notin> set reads \<and> (\<exists>rest. concat reads = frame K msg @ rest)"

definition reply_frame :: "codec \<Rightarrow> exn + json \<Rightarrow> bytes" where
  "reply_frame K r = frame K (case r of Inl e \<Rightarrow> err_reply e | Inr resp \<Rightarrow> resp)"

text \<open>
  The loop over byte streams is the session over requests: connections that carry requests are answered
  with the frames of what \<open>handle\<close> returns for one after the other, or of the error it raised, and the
  guest ends as the session does.
\<close>

theorem serve_all_is_session:
  "list_all2 (\<lambda>c m. \<exists>reads. c = Inr reads \<and> carries K reads m) cs ms \<Longrightarrow>
    serve_all K E cs g = (map (reply_frame K) (fst (session E ms g)), snd (session E ms g))"
proof (induction cs ms arbitrary: g rule: list_all2_induct)
  case (Cons c cs m ms)
  then obtain reads where c: "c = Inr reads" "carries K reads m" by blast
  obtain r g1 where h: "handle E m g = (r, g1)" by fastforce
  have "serve_conn K E reads g = (reply_frame K r, g1)"
    using serve_conn_framing [of K m reads _ E g] c(2) h by (auto simp: carries_def reply_frame_def)
  with c(1) h Cons.IH [of g1] show ?case by (simp add: split_beta)
qed simp

end
