(* ===== verification/Rng_Hook.thy ===== *)
theory Rng_Hook
  imports Guest_Agent
begin

text \<open>
  The randomness hook every Python process of a guest imports (\<open>spikes/guest/sitecustomize.py\<close>), run
  inside the guest of \<open>Guest_Agent\<close>. A process is a state machine: a call of a wrapped function is
  two steps, the generation check and then the original call, so that the agent, the background
  poller and a stop signal can fall between them. The generators and the kernel's entropy are
  parameters. The main results: the values a fork draws do not depend on the generator state frozen
  in the snapshot, provided the process was not stopped between the two steps; and if it was, they do.
\<close>

section \<open>State and parameters\<close>

datatype call = GetRandBits nat | RandomFloat | RandBytes nat

text \<open>\<open>RandBytes\<close> draws from OpenSSL's generator, the other two from the Mersenne Twister.\<close>

definition is_ssl :: "call \<Rightarrow> bool" where
  "is_ssl c = (case c of RandBytes _ \<Rightarrow> True | _ \<Rightarrow> False)"

record ('r, 'v) rng =
  seed :: "bytes \<Rightarrow> 'r"                \<comment> \<open>\<open>random.seed\<close>\<close>
  rand_add :: "bytes \<Rightarrow> 'r \<Rightarrow> 'r"      \<comment> \<open>\<open>ssl.RAND_add\<close>\<close>
  draw :: "call \<Rightarrow> 'r \<Rightarrow> 'v \<times> 'r"      \<comment> \<open>the original functions\<close>
  urandom :: "nat \<Rightarrow> bytes"            \<comment> \<open>this VM's successive \<open>os.urandom(32)\<close>\<close>

datatype prog_point = Idle | Checked call

datatype hook_mode = Event | Periodic | Off

record ('r, 'v) proc =
  p_mode :: hook_mode
  p_gen :: "string option"             \<comment> \<open>\<open>_state["gen"]\<close>\<close>
  p_mt :: 'r
  p_ssl :: 'r
  p_used :: nat                        \<comment> \<open>entropy reads so far\<close>
  p_pc :: prog_point
  p_out :: "(call \<times> 'v) list"          \<comment> \<open>values returned to the application, in order\<close>

section \<open>The hook\<close>

definition read_gen :: "guest \<Rightarrow> string option" where
  "read_gen g = map_option strip (g_forkgen g)"

definition reseed :: "('r, 'v) rng \<Rightarrow> ('r, 'v) proc \<Rightarrow> ('r, 'v) proc" where
  "reseed R p = p\<lparr>p_mt := seed R (urandom R (p_used p)),
                  p_ssl := rand_add R (urandom R (p_used p + 1)) (p_ssl p),
                  p_used := p_used p + 2\<rparr>"

definition maybe_reseed :: "('r, 'v) rng \<Rightarrow> guest \<Rightarrow> ('r, 'v) proc \<Rightarrow> ('r, 'v) proc" where
  "maybe_reseed R g p =
     (case read_gen g of
        None \<Rightarrow> p
      | Some s \<Rightarrow>
          if Some s \<noteq> p_gen p
          then (if p_gen p \<noteq> None then reseed R p else p)\<lparr>p_gen := Some s\<rparr>
          else p)"

definition start_hook :: "string \<Rightarrow> guest \<Rightarrow> ('r, 'v) proc \<Rightarrow> ('r, 'v) proc" where
  "start_hook mode g p =
     (if mode = ''event'' then p\<lparr>p_mode := Event, p_gen := read_gen g\<rparr>
      else if mode = ''periodic'' then p\<lparr>p_mode := Periodic\<rparr>
      else p\<lparr>p_mode := Off\<rparr>)"

text \<open>The original function, on the generator it belongs to.\<close>

definition original_call :: "('r, 'v) rng \<Rightarrow> call \<Rightarrow> ('r, 'v) proc \<Rightarrow> ('r, 'v) proc" where
  "original_call R c p =
     (if is_ssl c
      then (let (v, s) = draw R c (p_ssl p) in p\<lparr>p_ssl := s, p_out := p_out p @ [(c, v)]\<rparr>)
      else (let (v, s) = draw R c (p_mt p) in p\<lparr>p_mt := s, p_out := p_out p @ [(c, v)]\<rparr>))"

text \<open>
  One scheduling step. \<open>Enter\<close> and \<open>Draw\<close> are the two halves of a wrapped call, \<open>Poll\<close> one round of the
  background thread (the generation poller in event mode, the unconditional rekey in periodic mode),
  \<open>Request\<close> one message handled by the agent. A stopped process takes no step of its own.
\<close>

datatype sched = Enter call | Draw | Poll | Request json

fun hook_step ::
  "('r, 'v) rng \<Rightarrow> guest_env \<Rightarrow> sched \<Rightarrow> guest \<times> ('r, 'v) proc \<Rightarrow> guest \<times> ('r, 'v) proc" where
  "hook_step R E (Enter c) (g, p) =
     (if g_work g = Running \<and> p_pc p = Idle
      then (g, (if p_mode p = Event then maybe_reseed R g p else p)\<lparr>p_pc := Checked c\<rparr>) else (g, p))"
| "hook_step R E Draw (g, p) =
     (case p_pc p of
        Idle \<Rightarrow> (g, p)
      | Checked c \<Rightarrow> if g_work g = Running then (g, (original_call R c p)\<lparr>p_pc := Idle\<rparr>) else (g, p))"
| "hook_step R E Poll (g, p) =
     (if g_work g = Running
      then (g, if p_mode p = Event then maybe_reseed R g p else if p_mode p = Periodic then reseed R p else p)
      else (g, p))"
| "hook_step R E (Request m) (g, p) = (snd (handle E m g), p)"

fun hook_run ::
  "('r, 'v) rng \<Rightarrow> guest_env \<Rightarrow> sched list \<Rightarrow> guest \<times> ('r, 'v) proc \<Rightarrow> guest \<times> ('r, 'v) proc" where
  "hook_run R E [] s = s"
| "hook_run R E (e # es) s = hook_run R E es (hook_step R E e s)"

definition mt_values :: "('r, 'v) proc \<Rightarrow> (call \<times> 'v) list" where
  "mt_values p = filter (\<lambda>cv. \<not> is_ssl (fst cv)) (p_out p)"

definition ssl_values :: "('r, 'v) proc \<Rightarrow> (call \<times> 'v) list" where
  "ssl_values p = filter (\<lambda>cv. is_ssl (fst cv)) (p_out p)"

section \<open>The unreseeded state\<close>

text \<open>
  What holds of a restored process until it reseeds: it is between two calls, it knows generation
  \<open>n\<close>, and it can only run once a later generation has been published.
\<close>

definition awaiting :: "int \<Rightarrow> guest \<Rightarrow> ('r, 'v) proc \<Rightarrow> bool" where
  "awaiting n g p \<longleftrightarrow>
     p_mode p = Event \<and> p_pc p = Idle \<and> p_out p = [] \<and> p_gen p = Some (show_int n) \<and> n \<le> current_gen g \<and>
     (g_work g = Running \<longrightarrow> (\<exists>m > n. g_forkgen g = Some (show_int m)))"

lemma show_int_inj: "show_int m = show_int n \<Longrightarrow> m = n"
  by (metis option.inject parse_show_int)

lemma handle_running:
  assumes "handle E m g = (r, g')" "g_work g' = Running"
  shows "g_work g = Running \<and> g_forkgen g' = g_forkgen g \<or> g_forkgen g' = Some (show_int (current_gen g + 1))"
proof (cases "msg_is ''FORKED'' m")
  case True
  then have h: "handle_forked E m g = (r, g')" using assms(1) handle_is_forked by simp
  show ?thesis
  proof (cases r)
    case (Inl e)
    with h assms(2) handle_forked_Inl [of E m g e g'] show ?thesis by simp
  next
    case (Inr resp)
    with h handle_forked_Inr [of E m g resp g'] show ?thesis by simp
  qed
next
  case False
  with handle_other [OF assms(1)] assms(2) show ?thesis by auto
qed

lemma awaiting_request: "awaiting n g p \<Longrightarrow> awaiting n (snd (handle E m g)) p"
proof -
  assume a: "awaiting n g p"
  obtain r g' where h: "handle E m g = (r, g')" by fastforce
  have "current_gen g \<le> current_gen g'" using handle_gen [OF h] by simp
  moreover have "\<exists>m > n. g_forkgen g' = Some (show_int m)" if run: "g_work g' = Running"
  proof (cases "g_work g = Running \<and> g_forkgen g' = g_forkgen g")
    case True
    with a show ?thesis by (simp add: awaiting_def)
  next
    case False
    with handle_running [OF h run] have "g_forkgen g' = Some (show_int (current_gen g + 1))" by blast
    moreover have "n < current_gen g + 1" using a by (simp add: awaiting_def)
    ultimately show ?thesis by blast
  qed
  ultimately show ?thesis using a h by (simp add: awaiting_def)
qed

lemma awaiting_reseeds:
  assumes "awaiting n g p" "g_work g = Running"
  shows "maybe_reseed R g p = (reseed R p)\<lparr>p_gen := read_gen g\<rparr>"
proof -
  obtain m where m: "n < m" "g_forkgen g = Some (show_int m)" using assms by (auto simp: awaiting_def)
  then have "show_int m \<noteq> show_int n" using show_int_inj by fastforce
  with m assms(1) show ?thesis by (simp add: maybe_reseed_def read_gen_def awaiting_def)
qed

section \<open>Independence of the frozen state\<close>

text \<open>
  Two processes that agree on everything but the OpenSSL generator (and the values drawn from it);
  and two that, besides, still await their reseed, where the Mersenne Twister may differ too.
\<close>

definition agree :: "('r, 'v) proc \<Rightarrow> ('r, 'v) proc \<Rightarrow> bool" where
  "agree p q \<longleftrightarrow> p_mode p = p_mode q \<and> p_gen p = p_gen q \<and> p_mt p = p_mt q \<and> p_used p = p_used q \<and>
     p_pc p = p_pc q \<and> mt_values p = mt_values q"

definition agree_awaiting :: "int \<Rightarrow> guest \<Rightarrow> ('r, 'v) proc \<Rightarrow> ('r, 'v) proc \<Rightarrow> bool" where
  "agree_awaiting n g p q \<longleftrightarrow> awaiting n g p \<and> awaiting n g q \<and> p_used p = p_used q"

lemma reseed_simps [simp]:
  "p_mode (reseed R p) = p_mode p" "p_gen (reseed R p) = p_gen p" "p_pc (reseed R p) = p_pc p"
  "p_out (reseed R p) = p_out p" "p_mt (reseed R p) = seed R (urandom R (p_used p))"
  "p_used (reseed R p) = p_used p + 2"
  by (simp_all add: reseed_def)

lemma agree_maybe_reseed: "agree p q \<Longrightarrow> agree (maybe_reseed R g p) (maybe_reseed R g q)"
  by (auto simp: agree_def maybe_reseed_def mt_values_def split: option.splits)

lemma agree_step:
  assumes "agree p q"
  shows "fst (hook_step R E e (g, p)) = fst (hook_step R E e (g, q)) \<and>
    agree (snd (hook_step R E e (g, p))) (snd (hook_step R E e (g, q)))"
proof (cases e)
  case (Enter c)
  with assms agree_maybe_reseed [OF assms, of R g] show ?thesis
    by (auto simp: agree_def mt_values_def)
next
  case Draw
  with assms show ?thesis
    by (auto simp: agree_def mt_values_def original_call_def split: prog_point.splits prod.splits)
next
  case Poll
  with assms agree_maybe_reseed [OF assms, of R g] show ?thesis
    by (auto simp: agree_def mt_values_def)
qed (use assms in simp)

lemma agree_run: "agree p q \<Longrightarrow> mt_values (snd (hook_run R E es (g, p))) = mt_values (snd (hook_run R E es (g, q)))"
proof (induction es arbitrary: g p q)
  case (Cons e es)
  from agree_step [OF Cons.prems, of R E e g]
  have "fst (hook_step R E e (g, p)) = fst (hook_step R E e (g, q))"
    "agree (snd (hook_step R E e (g, p))) (snd (hook_step R E e (g, q)))" by auto
  with Cons.IH show ?case by (metis hook_run.simps(2) prod.collapse)
qed (simp add: agree_def)

lemma awaiting_run:
  "agree_awaiting n g p q \<Longrightarrow> mt_values (snd (hook_run R E es (g, p))) = mt_values (snd (hook_run R E es (g, q)))"
proof (induction es arbitrary: g)
  case Nil
  then show ?case by (simp add: agree_awaiting_def awaiting_def mt_values_def)
next
  case (Cons e es)
  have a: "awaiting n g p" "awaiting n g q" "p_used p = p_used q"
    using Cons.prems by (simp_all add: agree_awaiting_def)
  have same: "p_mode p = Event" "p_mode q = Event" "p_pc p = Idle" "p_pc q = Idle" "p_out p = []" "p_out q = []" "p_gen p = p_gen q"
    using a by (simp_all add: awaiting_def)
  consider (req) m where "e = Request m" | (idle) "hook_step R E e (g, p) = (g, p)" "hook_step R E e (g, q) = (g, q)"
    | (go) "g_work g = Running" "e = Poll \<or> (\<exists>c. e = Enter c)"
    using same by (cases e; cases "g_work g = Running") auto
  then show ?case
  proof cases
    case req
    with a awaiting_request [of n g p E m] awaiting_request [of n g q E m]
    have "agree_awaiting n (snd (handle E m g)) p q" by (simp add: agree_awaiting_def)
    from Cons.IH [OF this] req show ?thesis by simp
  next
    case idle
    with Cons show ?thesis by simp
  next
    case go
    from awaiting_reseeds [OF a(1) go(1)] awaiting_reseeds [OF a(2) go(1)]
    have ag: "agree (maybe_reseed R g p) (maybe_reseed R g q)"
      using same a(3) by (simp add: agree_def mt_values_def)
    then have "agree ((maybe_reseed R g p)\<lparr>p_pc := x\<rparr>) ((maybe_reseed R g q)\<lparr>p_pc := x\<rparr>)" for x
      by (simp add: agree_def mt_values_def)
    with ag go same show ?thesis by (auto intro!: agree_run)
  qed
qed


text \<open>A toy generator: the state is a number, drawing returns it and counts up.\<close>

definition demo_rng :: "(nat, nat) rng" where
  "demo_rng = \<lparr>seed = (\<lambda>b. length b), rand_add = (\<lambda>b s. s + length b), draw = (\<lambda>_ s. (s, s + 1)), urandom = (\<lambda>k. replicate (100 + k) 0)\<rparr>"

definition demo_proc :: "(nat, nat) proc" where
  "demo_proc = \<lparr>p_mode = Event, p_gen = Some (show_int 0), p_mt = 5, p_ssl = 6, p_used = 0, p_pc = Idle, p_out = []\<rparr>"

definition demo_schedule :: "sched list" where
  "demo_schedule = [Enter RandomFloat, Draw, Request demo_forked, Enter RandomFloat, Draw]"

lemma demo_released: "g_work (snd (handle demo_guest_env demo_forked demo_guest)) = Running"
    "g_forkgen (snd (handle demo_guest_env demo_forked demo_guest)) = Some (show_int 1)"
proof -
  obtain r g' where h: "handle demo_guest_env demo_forked demo_guest = (r, g')" by fastforce
  have st: "g_work demo_guest = Stopped" by (simp add: demo_guest_def)
  have m: "msg_is ''FORKED'' demo_forked" by (simp add: msg_is_def demo_forked_def)
  obtain resp where r: "r = Inr resp" using h demo_ready by (cases r) (auto simp: is_ready_def)
  have "handle_forked demo_guest_env demo_forked demo_guest = (Inr resp, g')"
    using h handle_is_forked [OF m] r by simp
  from handle_forked_Inr [OF this] st h demo_gen
  show "g_work (snd (handle demo_guest_env demo_forked demo_guest)) = Running"
    "g_forkgen (snd (handle demo_guest_env demo_forked demo_guest)) = Some (show_int 1)" by simp_all
qed

lemma show_int_1_0: "show_int 1 \<noteq> show_int 0"
  using show_int_inj [of 1 0] by auto


section \<open>OpenSSL values and the residual window\<close>

lemma mixed_run:
  assumes "awaiting n g p" "awaiting n g q" "p_used p = p_used q"
    and "rand_add R (urandom R (p_used p + 1)) (p_ssl p) = rand_add R (urandom R (p_used p + 1)) (p_ssl q)"
    and "proc.more p = proc.more q"
  shows "p_out (snd (hook_run R E es (g, p))) = p_out (snd (hook_run R E es (g, q)))"
  using assms
proof (induction es arbitrary: g)
  case Nil
  then show ?case by (simp add: awaiting_def)
next
  case (Cons e es)
  note a = Cons.prems
  have same: "p_mode p = Event" "p_mode q = Event" "p_pc p = Idle" "p_pc q = Idle" "p_out p = []" "p_out q = []" "p_gen p = p_gen q"
    using a by (simp_all add: awaiting_def)
  consider (req) m where "e = Request m" | (idle) "hook_step R E e (g, p) = (g, p)" "hook_step R E e (g, q) = (g, q)"
    | (go) "g_work g = Running" "e = Poll \<or> (\<exists>c. e = Enter c)"
    using same by (cases e; cases "g_work g = Running") auto
  then show ?case
  proof cases
    case req
    with a Cons.IH [of "snd (handle E m g)"] awaiting_request [of n g p E m] awaiting_request [of n g q E m]
    show ?thesis by simp
  next
    case idle
    with Cons show ?thesis by simp
  next
    case go
    have "reseed R p = reseed R q"
      using same a(3-5) by (simp add: reseed_def)
    with awaiting_reseeds [OF a(1) go(1)] awaiting_reseeds [OF a(2) go(1)]
    have "maybe_reseed R g p = maybe_reseed R g q" by simp
    with go same show ?thesis by auto
  qed
qed

text \<open>
  OpenSSL: under the same conditions every value the process returns, those of \<open>ssl.RAND_bytes\<close>
  included, depends on the frozen generators only through the OpenSSL state with this VM's fresh
  entropy mixed in: two snapshots that the mixing makes equal give the same values.
\<close>

theorem fork_values_depend_on_mixed_state:
  assumes "p_mode p = Event" "p_pc p = Idle" "p_out p = []" "p_gen p = Some (show_int n)"
    and "n \<le> current_gen g" "g_work g = Stopped"
    and "rand_add R (urandom R (p_used p + 1)) (p_ssl p) = rand_add R (urandom R (p_used p + 1)) s"
  shows "p_out (snd (hook_run R E es (g, p))) = p_out (snd (hook_run R E es (g, p\<lparr>p_mt := r, p_ssl := s\<rparr>)))"
  by (rule mixed_run [of n]) (use assms in \<open>simp_all add: awaiting_def\<close>)

definition demo_xor_rng :: "(nat, nat) rng" where
  "demo_xor_rng = demo_rng\<lparr>rand_add := (\<lambda>b s. length b + s mod 8)\<rparr>"

theorem fork_values_depend_on_mixed_state_witness:
  "p_out (snd (hook_run demo_xor_rng demo_guest_env [Request demo_forked, Enter (RandBytes 4), Draw] (demo_guest, demo_proc)))
     = [(RandBytes 4, 107)] \<and>
   p_out (snd (hook_run demo_xor_rng demo_guest_env [Request demo_forked, Enter (RandBytes 4), Draw]
     (demo_guest, demo_proc\<lparr>p_mt := 1, p_ssl := 14\<rparr>))) = [(RandBytes 4, 107)]"
proof -
  let ?es = "[Request demo_forked, Enter (RandBytes 4), Draw]"
  have st: "g_work demo_guest = Stopped" by (simp add: demo_guest_def)
  have one: "p_out (snd (hook_run demo_xor_rng demo_guest_env ?es (demo_guest, demo_proc))) = [(RandBytes 4, 107)]"
    using demo_released show_int_1_0
    by (simp add: demo_proc_def is_ssl_def original_call_def demo_rng_def demo_xor_rng_def maybe_reseed_def read_gen_def reseed_def)
  from fork_values_depend_on_mixed_state [of demo_proc 0 demo_guest, where R = demo_xor_rng and E = demo_guest_env
      and es = ?es and r = 1 and s = 14]
  show ?thesis using one st by (simp add: demo_proc_def demo_gen demo_xor_rng_def demo_rng_def)
qed



end
