(* ===== verification/Sqlite_Tables.thy ===== *)
theory Sqlite_Tables
  imports Wire
begin

text \<open>
  The daemon's SQLite database (\<open>init_db\<close> of \<open>spikes/engine/kladosd.py\<close>): its five tables as lists of
  rows in insertion order, with the statements the daemon executes on them. A locale states what a
  table with a primary key promises; each table of the schema is an interpretation of it.
\<close>

section \<open>Rows\<close>

record project_row =
  pj_id :: string
  pj_name :: json
  pj_key_hash :: string
  pj_created :: rat

record run_row =
  rn_id :: string
  rn_project :: string
  rn_image :: json
  rn_created :: rat

record snapshot_row =
  sn_id :: string
  sn_run :: string
  sn_parent :: "string option"
  sn_label :: json
  sn_snap_path :: string
  sn_mem_path :: string
  sn_size :: nat
  sn_created :: rat

record instance_row =
  in_id :: string
  in_run :: string
  in_snapshot :: "string option"
  in_state :: string
  in_branch :: string
  in_created :: rat

record usage_row =
  us_project :: string
  us_vcpu :: rat
  us_ram :: rat
  us_updated :: rat

record tables =
  t_projects :: "project_row list"
  t_runs :: "run_row list"
  t_snapshots :: "snapshot_row list"
  t_instances :: "instance_row list"
  t_usage :: "usage_row list"

section \<open>Statements\<close>

text \<open>Binding a parameter: booleans are integers, lists and objects are refused.\<close>

definition sql_bind :: "json \<Rightarrow> exn + json" where
  "sql_bind j = (case j of
       JBool b \<Rightarrow> Inr (JInt (if b then 1 else 0))
     | JList _ \<Rightarrow> Inl (InterfaceError ''Error binding parameter'')
     | JObj _ \<Rightarrow> Inl (InterfaceError ''Error binding parameter'')
     | _ \<Rightarrow> Inr j)"

text \<open>\<open>INSERT\<close> into a table with a primary key, \<open>SELECT ... WHERE key = ?\<close> and \<open>UPDATE ... WHERE key = ?\<close>.\<close>

definition insert_row :: "('r \<Rightarrow> string) \<Rightarrow> 'r \<Rightarrow> 'r list \<Rightarrow> exn + 'r list" where
  "insert_row key r t =
     (if key r \<in> key ` set t then Inl (IntegrityError ''UNIQUE constraint failed'') else Inr (t @ [r]))"

definition select_row :: "('r \<Rightarrow> string) \<Rightarrow> string \<Rightarrow> 'r list \<Rightarrow> 'r option" where
  "select_row key k t = find (\<lambda>r. key r = k) t"

definition update_row :: "('r \<Rightarrow> string) \<Rightarrow> string \<Rightarrow> ('r \<Rightarrow> 'r) \<Rightarrow> 'r list \<Rightarrow> 'r list" where
  "update_row key k f t = map (\<lambda>r. if key r = k then f r else r) t"

text \<open>\<open>SELECT ... ORDER BY\<close>, rows with equal keys in insertion order.\<close>

definition order_by :: "('r \<Rightarrow> 'k::linorder) \<Rightarrow> 'r list \<Rightarrow> 'r list" where
  "order_by f t = sort_key f t"

section \<open>A table with a primary key\<close>

locale keyed_table =
  fixes key :: "'r \<Rightarrow> string"
    and ins :: "'r \<Rightarrow> 't \<Rightarrow> exn + 't"
    and look :: "string \<Rightarrow> 't \<Rightarrow> 'r option"
    and upd :: "string \<Rightarrow> ('r \<Rightarrow> 'r) \<Rightarrow> 't \<Rightarrow> 't"
    and okay :: "'t \<Rightarrow> bool"
  assumes ins_okay: "okay t \<Longrightarrow> ins r t = Inr t' \<Longrightarrow> okay t'"
    and ins_look: "okay t \<Longrightarrow> ins r t = Inr t' \<Longrightarrow> look k t' = (if k = key r then Some r else look k t)"
    and ins_new: "okay t \<Longrightarrow> ins r t = Inr t' \<Longrightarrow> look (key r) t = None"
    and ins_dup: "okay t \<Longrightarrow> ins r t = Inl e \<Longrightarrow> look (key r) t \<noteq> None"
    and upd_okay: "okay t \<Longrightarrow> (\<And>r. key (f r) = key r) \<Longrightarrow> okay (upd k f t)"
    and upd_look: "okay t \<Longrightarrow> (\<And>r. key (f r) = key r) \<Longrightarrow>
      look k' (upd k f t) = (if k' = k then map_option f (look k t) else look k' t)"
begin

text \<open>A sequence of inserts that all succeed.\<close>

fun ins_all :: "'r list \<Rightarrow> 't \<Rightarrow> exn + 't" where
  "ins_all [] t = Inr t"
| "ins_all (r # rs) t = (case ins r t of Inl e \<Rightarrow> Inl e | Inr t' \<Rightarrow> ins_all rs t')"

lemma ins_all_look:
  "okay t \<Longrightarrow> ins_all rs t = Inr t' \<Longrightarrow>
    okay t' \<and> distinct (map key rs) \<and> (\<forall>r \<in> set rs. look (key r) t = None \<and> look (key r) t' = Some r) \<and>
    (\<forall>k. k \<notin> key ` set rs \<longrightarrow> look k t' = look k t)"
proof (induction rs arbitrary: t)
  case (Cons r rs)
  then obtain t1 where one: "ins r t = Inr t1" and rest: "ins_all rs t1 = Inr t'"
    by (auto split: sum.splits)
  have "okay t1" using ins_okay [OF Cons.prems(1) one] .
  note ih = Cons.IH [OF this rest]
  note look1 = ins_look [OF Cons.prems(1) one]
  have out: "key r \<notin> key ` set rs"
  proof
    assume "key r \<in> key ` set rs"
    then obtain r' where "r' \<in> set rs" "key r' = key r" by auto
    with ih look1 [of "key r"] show False by auto
  qed
  then have "\<forall>r' \<in> set rs. look (key r') t = None"
    using ih look1 by (metis imageI)
  with ih look1 out ins_new [OF Cons.prems(1) one] show ?case by auto
qed simp

text \<open>What is stored stays readable under later inserts.\<close>

lemma ins_all_keeps: "okay t \<Longrightarrow> ins_all rs t = Inr t' \<Longrightarrow> look k t = Some r \<Longrightarrow> look k t' = Some r"
  using ins_all_look by (metis imageE option.distinct(1))

end

lemma select_row_distinct: "distinct (map key t) \<Longrightarrow> select_row key k t = Some r \<longleftrightarrow> r \<in> set t \<and> key r = k"
  by (auto simp: select_row_def find_Some_iff dest: find_key_distinct find_SomeD)

lemma select_row_None: "select_row key k t = None \<longleftrightarrow> k \<notin> key ` set t"
  by (simp add: select_row_def find_None_iff_key)

lemma keyed_rows: "keyed_table key (insert_row key) (select_row key) (update_row key) (\<lambda>t. distinct (map key t))"
proof
  show "distinct (map key t')" if "distinct (map key t)" "insert_row key r t = Inr t'" for t r t'
    using that by (auto simp: insert_row_def split: if_splits)
  show "select_row key k t' = (if k = key r then Some r else select_row key k t)"
    if "distinct (map key t)" "insert_row key r t = Inr t'" for t r t' k
  proof -
    have n: "key r \<notin> key ` set t" and t': "t' = t @ [r]" using that(2) by (auto simp: insert_row_def split: if_splits)
    then have "select_row key (key r) t = None" by (simp add: select_row_None)
    with t' show ?thesis by (auto simp: select_row_def find_append split: option.split)
  qed
  show "select_row key (key r) t = None" if "insert_row key r t = Inr t'" for t r t'
    using that by (auto simp: insert_row_def select_row_None split: if_splits)
  show "select_row key (key r) t \<noteq> None" if "insert_row key r t = Inl e" for t r e
    using that by (auto simp: insert_row_def select_row_None split: if_splits)
  show "distinct (map key (update_row key k f t))"
    if "distinct (map key t)" "\<And>r. key (f r) = key r" for t k f
  proof -
    have "map key (update_row key k f t) = map key t" using that(2) by (simp add: update_row_def)
    with that(1) show ?thesis by simp
  qed
  show "select_row key k' (update_row key k f t) = (if k' = k then map_option f (select_row key k t) else select_row key k' t)"
    if "\<And>r. key (f r) = key r" for t k f k'
    by (induction t) (auto simp: update_row_def select_row_def that)
qed

interpretation projects: keyed_table pj_id "insert_row pj_id" "select_row pj_id" "update_row pj_id" "\<lambda>t. distinct (map pj_id t)"
  by (rule keyed_rows)

interpretation runs: keyed_table rn_id "insert_row rn_id" "select_row rn_id" "update_row rn_id" "\<lambda>t. distinct (map rn_id t)"
  by (rule keyed_rows)

interpretation snaps: keyed_table sn_id "insert_row sn_id" "select_row sn_id" "update_row sn_id" "\<lambda>t. distinct (map sn_id t)"
  by (rule keyed_rows)

interpretation insts: keyed_table in_id "insert_row in_id" "select_row in_id" "update_row in_id" "\<lambda>t. distinct (map in_id t)"
  by (rule keyed_rows)

interpretation accounts: keyed_table us_project "insert_row us_project" "select_row us_project" "update_row us_project" "\<lambda>t. distinct (map us_project t)"
  by (rule keyed_rows)

lemma insert_row_Inr: "insert_row key r t = Inr t' \<Longrightarrow> t' = t @ [r] \<and> key r \<notin> key ` set t"
  by (auto simp: insert_row_def split: if_splits)

lemma set_update_row: "x \<in> set (update_row key k f t) \<Longrightarrow> \<exists>r \<in> set t. x = (if key r = k then f r else r)"
  by (auto simp: update_row_def)

end
