(* ===== verification/Host.thy ===== *)
theory Host
  imports Wire
begin

text \<open>
  The machine the daemon runs on: its files, its clock, and everything behind sockets and processes
  (Firecracker, the guests, \<open>mkfs\<close>, \<open>mount\<close>), which is an abstract state \<open>'v\<close> driven through the
  functions of a \<open>platform\<close>. The file system, \<open>time.time\<close> and \<open>time.sleep\<close> are modelled: files are
  a map from paths to contents (directories are implied by their files), and the clock never runs
  backwards and is at least \<open>d\<close> later after \<open>time.sleep(d)\<close>.
\<close>

record 'v host =
  h_files :: "string \<Rightarrow> bytes option"
  h_clock :: rat
  h_mach :: 'v

record 'v platform =
  pf_codec :: codec
  pf_http :: "string \<Rightarrow> string \<Rightarrow> string \<Rightarrow> string option \<Rightarrow> 'v host \<Rightarrow> (exn + nat \<times> bytes) \<times> 'v host"
    \<comment> \<open>one HTTP exchange on a unix socket: socket, method, path, body\<close>
  pf_popen :: "string list \<Rightarrow> 'v host \<Rightarrow> (exn + nat) \<times> 'v host"
  pf_alive :: "nat \<Rightarrow> 'v host \<Rightarrow> bool"
  pf_sigkill :: "nat \<Rightarrow> 'v host \<Rightarrow> 'v host"      \<comment> \<open>\<open>SIGKILL\<close> and \<open>wait\<close>\<close>
  pf_connect :: "string \<Rightarrow> bytes \<Rightarrow> 'v host \<Rightarrow> (exn + bytes list) \<times> 'v host"
    \<comment> \<open>connect to a unix socket, send, and what the receive loop reads (or the exception of a read)\<close>
  pf_send :: "string \<Rightarrow> bytes \<Rightarrow> 'v host \<Rightarrow> (exn + bytes list) \<times> 'v host"
    \<comment> \<open>the same on the open connection\<close>
  pf_run :: "string list \<Rightarrow> 'v host \<Rightarrow> (exn + unit) \<times> 'v host"   \<comment> \<open>\<open>subprocess.run(_, check=True)\<close>\<close>
  pf_idle :: "rat \<Rightarrow> 'v host \<Rightarrow> 'v host"          \<comment> \<open>what happens while the daemon sleeps\<close>

type_synonym ('v, 'a) hostm = "'v host \<Rightarrow> (exn + 'a) \<times> 'v host"

section \<open>Time\<close>

definition forward :: "'v host \<Rightarrow> 'v host \<Rightarrow> 'v host" where
  "forward h h' = h'\<lparr>h_clock := max (h_clock h) (h_clock h')\<rparr>"

definition timed :: "('v, 'a) hostm \<Rightarrow> ('v, 'a) hostm" where
  "timed m h = (let (r, h') = m h in (r, forward h h'))"

definition py_sleep :: "'v platform \<Rightarrow> rat \<Rightarrow> 'v host \<Rightarrow> 'v host" where
  "py_sleep P d h = (let h' = pf_idle P d h in h'\<lparr>h_clock := max (h_clock h + d) (h_clock h')\<rparr>)"

definition time_now :: "('v, rat) hostm" where
  "time_now h = (Inr (h_clock h), h)"

lemma forward_clock [simp]: "h_clock h \<le> h_clock (forward h h')"
  by (simp add: forward_def)

lemma timed_clock: "h_clock h \<le> h_clock (snd (timed m h))"
  by (simp add: timed_def split_beta)

lemma py_sleep_clock: "h_clock h + d \<le> h_clock (py_sleep P d h)"
  by (simp add: py_sleep_def Let_def)

section \<open>Files\<close>

definition path_join :: "string \<Rightarrow> string \<Rightarrow> string" where
  "path_join a b = a @ ''/'' @ b"

definition exists_file :: "string \<Rightarrow> 'v host \<Rightarrow> bool" where
  "exists_file p h \<longleftrightarrow> h_files h p \<noteq> None"

definition no_such_file :: "string \<Rightarrow> exn" where
  "no_such_file p = FileNotFoundError (''[Errno 2] No such file or directory: '' @ py_repr p)"

definition read_file :: "string \<Rightarrow> ('v, bytes) hostm" where
  "read_file p h = (case h_files h p of None \<Rightarrow> (Inl (no_such_file p), h) | Some d \<Rightarrow> (Inr d, h))"

definition write_file :: "string \<Rightarrow> bytes \<Rightarrow> ('v, unit) hostm" where
  "write_file p d h = (Inr (), h\<lparr>h_files := (h_files h)(p := Some d)\<rparr>)"

definition remove_file :: "string \<Rightarrow> ('v, unit) hostm" where
  "remove_file p h =
     (if exists_file p h then (Inr (), h\<lparr>h_files := (h_files h)(p := None)\<rparr>) else (Inl (no_such_file p), h))"

definition copy_file :: "string \<Rightarrow> string \<Rightarrow> ('v, unit) hostm" where
  "copy_file src dst = andthen (read_file src) (\<lambda>d. write_file dst d)"

definition file_size :: "string \<Rightarrow> ('v, nat) hostm" where
  "file_size p = andthen (read_file p) (\<lambda>d. ret (length d))"

text \<open>\<open>os.replace\<close>.\<close>

definition replace_file :: "string \<Rightarrow> string \<Rightarrow> ('v, unit) hostm" where
  "replace_file src dst =
     andthen (read_file src) (\<lambda>d. andthen (write_file dst d) (\<lambda>_. if src = dst then ret () else remove_file src))"

end
