(* ===== verification/Firecracker.thy ===== *)
theory Firecracker
  imports Host Guest_Agent
begin

text \<open>
  The Firecracker client (\<open>spikes/harness/fc.py\<close>): \<open>FcApi\<close>, \<open>VmSpec\<close>, \<open>Microvm\<close> and
  \<open>vsock_request\<close>. Firecracker itself is behind the \<open>platform\<close>. The request sequences are data
  (\<open>boot_requests\<close>, \<open>load_requests\<close>), run in order by \<open>run_requests\<close>.
\<close>

section \<open>The API socket\<close>

text \<open>\<open>FcApi._req\<close>: a status of 400 or more is an exception, an empty answer is \<open>{}\<close>.\<close>

definition lift_sum :: "exn + 'a \<Rightarrow> 's \<Rightarrow> (exn + 'a) \<times> 's" where
  "lift_sum r s = (r, s)"

definition fc_req :: "'v platform \<Rightarrow> string \<Rightarrow> string \<Rightarrow> string \<Rightarrow> json option \<Rightarrow> ('v, json) hostm" where
  "fc_req P sock meth path body =
     andthen (timed (pf_http P sock meth path (map_option (dumps (pf_codec P)) body)))
       (\<lambda>(status, raw).
          if 400 \<le> status
          then throw (RuntimeError (meth @ '' '' @ path @ '' -> '' @ show_nat status @ '': '' @ decode_bytes raw))
          else if raw \<noteq> [] then lift_sum (loads (pf_codec P) (decode_bytes raw)) else ret (JObj []))"

fun run_requests :: "'v platform \<Rightarrow> string \<Rightarrow> (string \<times> string \<times> json) list \<Rightarrow> ('v, unit) hostm" where
  "run_requests P sock [] = ret ()"
| "run_requests P sock ((meth, path, body) # rs) =
     andthen (fc_req P sock meth path (Some body)) (\<lambda>_. run_requests P sock rs)"

section \<open>Microvm\<close>

record vm_spec =
  vs_kernel :: string
  vs_rootfs :: string
  vs_mem_mib :: nat
  vs_vcpus :: nat
  vs_track_dirty :: bool
  vs_rootfs_ro :: bool
  vs_scratch :: "string option"
  vs_vsock_uds :: "string option"
  vs_vsock_cid :: nat
  vs_boot_args :: string

record microvm =
  mv_spec :: vm_spec
  mv_workdir :: string
  mv_name :: string
  mv_console :: "string option"
  mv_remap :: "(string \<times> string) option"
  mv_sock :: string
  mv_proc :: "nat option"

definition microvm_init ::
  "vm_spec \<Rightarrow> string \<Rightarrow> string \<Rightarrow> string option \<Rightarrow> (string \<times> string) option \<Rightarrow> microvm" where
  "microvm_init spec workdir name console remap =
     \<lparr>mv_spec = spec, mv_workdir = workdir, mv_name = name, mv_console = console, mv_remap = remap,
      mv_sock = path_join workdir (name @ ''.sock''), mv_proc = None\<rparr>"

text \<open>The command of \<open>_spawn\<close>: Firecracker, inside a private mount namespace when there is a remapping.\<close>

definition quoted :: "string \<Rightarrow> string" where
  "quoted s = [CHR 0x27] @ s @ [CHR 0x27]"

definition spawn_command :: "microvm \<Rightarrow> string list" where
  "spawn_command vm =
     (case mv_remap vm of
        Some (baked, perfork) \<Rightarrow>
          [''unshare'', ''--mount'', ''--propagation'', ''private'', ''sh'', ''-c'',
           ''mkdir -p '' @ quoted baked @ '' && mount --bind '' @ quoted perfork @ '' '' @ quoted baked @
           '' && exec firecracker --api-sock '' @ quoted (mv_sock vm)]
      | None \<Rightarrow> [''firecracker'', ''--api-sock'', mv_sock vm])"

text \<open>\<open>_await_sock\<close>: one try to reach the API, then the loop up to the deadline.\<close>

definition try_api :: "'v platform \<Rightarrow> microvm \<Rightarrow> 'v host \<Rightarrow> bool \<times> 'v host" where
  "try_api P vm h =
     (if exists_file (mv_sock vm) h
      then (case fc_req P (mv_sock vm) ''GET'' ''/'' None h of (Inr _, h') \<Rightarrow> (True, h') | (Inl _, h') \<Rightarrow> (False, h'))
      else (False, h))"

lemma fc_req_clock: "h_clock h \<le> h_clock (snd (fc_req P sock meth path body h))"
  using timed_clock [of h "pf_http P sock meth path (map_option (dumps (pf_codec P)) body)"]
  by (auto simp: fc_req_def andthen_def throw_def ret_def lift_sum_def split: prod.splits sum.splits)

lemma try_api_clock: "h_clock h \<le> h_clock (snd (try_api P vm h))"
  using fc_req_clock [of h P "mv_sock vm" "''GET''" "''/''" None]
  by (auto simp: try_api_def split: prod.splits sum.splits)

lemma deadline_measure:
  assumes "(t::rat) < deadline" "t + d \<le> t'" "0 < d"
  shows "nat \<lceil>(deadline - t') / d\<rceil> < nat \<lceil>(deadline - t) / d\<rceil>"
proof -
  have "(deadline - t') / d \<le> (deadline - (t + d)) / d"
    using assms by (intro divide_right_mono) auto
  also have "\<dots> = (deadline - t) / d - 1"
    using assms(3) by (simp add: diff_divide_distrib add_divide_distrib)
  finally have "(deadline - t') / d \<le> (deadline - t) / d - 1" .
  then have "\<lceil>(deadline - t') / d\<rceil> \<le> \<lceil>(deadline - t) / d\<rceil> - 1"
    by (metis ceiling_diff_one ceiling_mono)
  moreover have "0 < \<lceil>(deadline - t) / d\<rceil>" using assms by simp
  ultimately show ?thesis by linarith
qed

function await_sock :: "'v platform \<Rightarrow> microvm \<Rightarrow> rat \<Rightarrow> ('v, unit) hostm" where
  "await_sock P vm deadline h =
     (if h_clock h < deadline
      then (let (up, h1) = try_api P vm h
            in if up then (Inr (), h1) else await_sock P vm deadline (py_sleep P (1 / 100) h1))
      else (Inl (TimeoutError (''firecracker api socket '' @ mv_sock vm @ '' never came up'')), h))"
  by pat_completeness auto
termination
proof (relation "measure (\<lambda>(P, vm, deadline, h). nat \<lceil>(deadline - h_clock h) / (1 / 100)\<rceil>)")
  show "wf (measure (\<lambda>(P :: 'v platform, vm :: microvm, deadline, h). nat \<lceil>(deadline - h_clock h) / (1 / 100)\<rceil>))" by simp
next
  fix P :: "'v platform" and vm :: microvm and deadline :: rat and h h1 :: "'v host" and x up
  assume h: "h_clock h < deadline" and x: "x = try_api P vm h" "(up, h1) = x"
  have "h_clock h \<le> h_clock h1" using try_api_clock [of h P vm] x by (metis snd_conv)
  with py_sleep_clock [of h1 "1 / 100" P]
  have "h_clock h + 1 / 100 \<le> h_clock (py_sleep P (1 / 100) h1)" by simp
  with deadline_measure [OF h this]
  show "((P, vm, deadline, py_sleep P (1 / 100) h1), (P, vm, deadline, h))
      \<in> measure (\<lambda>(P, vm, deadline, h). nat \<lceil>(deadline - h_clock h) / (1 / 100)\<rceil>)"
    by simp
qed

declare await_sock.simps [simp del]

definition spawn :: "'v platform \<Rightarrow> microvm \<Rightarrow> ('v, microvm) hostm" where
  "spawn P vm =
     andthen (\<lambda>h. if exists_file (mv_sock vm) h then remove_file (mv_sock vm) h else (Inr (), h)) (\<lambda>_.
     andthen (case mv_console vm of Some c \<Rightarrow> if c \<noteq> [] then write_file c [] else ret () | None \<Rightarrow> ret ()) (\<lambda>_.
     andthen (timed (pf_popen P (spawn_command vm))) (\<lambda>pid.
     let vm' = vm\<lparr>mv_proc := Some pid\<rparr>
     in andthen time_now (\<lambda>t. andthen (await_sock P vm' (t + 5)) (\<lambda>_. ret vm')))))"

subsection \<open>Boot, pause, snapshot, restore\<close>

definition boot_requests :: "vm_spec \<Rightarrow> (string \<times> string \<times> json) list" where
  "boot_requests s =
     [(''PUT'', ''/boot-source'',
         JObj [(''kernel_image_path'', JStr (vs_kernel s)), (''boot_args'', JStr (vs_boot_args s))]),
      (''PUT'', ''/drives/rootfs'',
         JObj [(''drive_id'', JStr ''rootfs''), (''path_on_host'', JStr (vs_rootfs s)),
               (''is_root_device'', JBool True), (''is_read_only'', JBool (vs_rootfs_ro s))])] @
     (case vs_scratch s of
        Some p \<Rightarrow> if p \<noteq> [] then
          [(''PUT'', ''/drives/scratch'',
             JObj [(''drive_id'', JStr ''scratch''), (''path_on_host'', JStr p),
                   (''is_root_device'', JBool False), (''is_read_only'', JBool False)])] else []
      | None \<Rightarrow> []) @
     [(''PUT'', ''/machine-config'',
         JObj [(''vcpu_count'', JInt (int (vs_vcpus s))), (''mem_size_mib'', JInt (int (vs_mem_mib s))),
               (''track_dirty_pages'', JBool (vs_track_dirty s))])] @
     (case vs_vsock_uds s of
        Some p \<Rightarrow> if p \<noteq> [] then
          [(''PUT'', ''/vsock'', JObj [(''guest_cid'', JInt (int (vs_vsock_cid s))), (''uds_path'', JStr p)])] else []
      | None \<Rightarrow> []) @
     [(''PUT'', ''/actions'', JObj [(''action_type'', JStr ''InstanceStart'')])]"

definition configure_and_start :: "'v platform \<Rightarrow> microvm \<Rightarrow> ('v, unit) hostm" where
  "configure_and_start P vm = run_requests P (mv_sock vm) (boot_requests (mv_spec vm))"

definition pause_request :: "string \<times> string \<times> json" where
  "pause_request = (''PATCH'', ''/vm'', JObj [(''state'', JStr ''Paused'')])"

definition resume_request :: "string \<times> string \<times> json" where
  "resume_request = (''PATCH'', ''/vm'', JObj [(''state'', JStr ''Resumed'')])"

definition pause :: "'v platform \<Rightarrow> microvm \<Rightarrow> ('v, unit) hostm" where
  "pause P vm = run_requests P (mv_sock vm) [pause_request]"

definition resume :: "'v platform \<Rightarrow> microvm \<Rightarrow> ('v, unit) hostm" where
  "resume P vm = run_requests P (mv_sock vm) [resume_request]"

definition vm_snapshot :: "'v platform \<Rightarrow> microvm \<Rightarrow> string \<Rightarrow> string \<Rightarrow> bool \<Rightarrow> ('v, unit) hostm" where
  "vm_snapshot P vm snap mem diff =
     run_requests P (mv_sock vm)
       [(''PUT'', ''/snapshot/create'',
          JObj [(''snapshot_type'', JStr (if diff then ''Diff'' else ''Full'')),
                (''snapshot_path'', JStr snap), (''mem_file_path'', JStr mem)])]"

definition load_requests ::
  "vm_spec \<Rightarrow> string \<Rightarrow> string \<Rightarrow> string \<Rightarrow> bool \<Rightarrow> bool \<Rightarrow> string option \<Rightarrow> (string \<times> string \<times> json) list" where
  "load_requests s snap mem backend do_resume diff uds =
     [(''PUT'', ''/snapshot/load'',
        JObj [(''snapshot_path'', JStr snap),
              (''mem_backend'', JObj [(''backend_type'', JStr (if backend = ''Uffd'' then ''Uffd'' else ''File'')),
                                     (''backend_path'', JStr mem)]),
              (''enable_diff_snapshots'', JBool diff),
              (''resume_vm'', JBool (do_resume \<and> uds = None))])] @
     (case uds of
        None \<Rightarrow> []
      | Some p \<Rightarrow>
          (''PUT'', ''/vsock'', JObj [(''guest_cid'', JInt (int (vs_vsock_cid s))), (''uds_path'', JStr p)]) #
          (if do_resume then [resume_request] else []))"

definition load ::
  "'v platform \<Rightarrow> microvm \<Rightarrow> string \<Rightarrow> string \<Rightarrow> string \<Rightarrow> bool \<Rightarrow> bool \<Rightarrow> string option \<Rightarrow> ('v, unit) hostm" where
  "load P vm snap mem backend do_resume diff uds =
     run_requests P (mv_sock vm) (load_requests (mv_spec vm) snap mem backend do_resume diff uds)"

text \<open>\<open>kill\<close>: nothing of it raises; a missing socket file is ignored.\<close>

definition kill :: "'v platform \<Rightarrow> microvm \<Rightarrow> ('v, unit) hostm" where
  "kill P vm h =
     (let h1 = (case mv_proc vm of
                  Some pid \<Rightarrow> if pf_alive P pid h then forward h (pf_sigkill P pid h) else h
                | None \<Rightarrow> h)
      in (Inr (), h1\<lparr>h_files := (h_files h1)(mv_sock vm := None)\<rparr>))"

section \<open>Talking to the guest\<close>

definition vsock_request :: "'v platform \<Rightarrow> string \<Rightarrow> nat \<Rightarrow> json \<Rightarrow> ('v, json) hostm" where
  "vsock_request P uds port payload =
     andthen (timed (pf_connect P uds (encode (''CONNECT '' @ show_nat port @ [CHR 0x0A])))) (\<lambda>reads.
       let buf = fst (recv_line reads [])
       in if 10 \<notin> set buf then throw (RuntimeError ''vsock: no CONNECT ack (guest not listening on port?)'')
          else if take 2 buf \<noteq> encode ''OK'' then throw (RuntimeError (''vsock CONNECT rejected: '' @ bytes_repr buf))
          else andthen (timed (pf_send P uds (frame (pf_codec P) payload))) (\<lambda>reads.
            let line = first_line (fst (recv_line reads []))
            in if line \<noteq> [] then lift_sum (loads (pf_codec P) line) else ret (JObj [])))"

section \<open>The order of requests\<close>

text \<open>
  A platform that keeps a log of the API requests it received, with whether it accepted each; the
  log is read off its state by an observer, so any platform can be extended to one.
\<close>

type_synonym api_entry = "string \<times> string \<times> string option \<times> bool"

definition accepted :: "exn + nat \<times> bytes \<Rightarrow> bool" where
  "accepted r = (case r of Inl _ \<Rightarrow> False | Inr (status, _) \<Rightarrow> status < 400)"

definition records :: "('v \<Rightarrow> api_entry list) \<Rightarrow> 'v platform \<Rightarrow> bool" where
  "records lg P \<longleftrightarrow> (\<forall>sock meth path body h r h'. pf_http P sock meth path body h = (r, h') \<longrightarrow>
     lg (h_mach h') = lg (h_mach h) @ [(meth, path, body, accepted r)])"

definition entry :: "codec \<Rightarrow> string \<times> string \<times> json \<Rightarrow> bool \<Rightarrow> api_entry" where
  "entry K rq okay = (case rq of (meth, path, body) \<Rightarrow> (meth, path, Some (dumps K body), okay))"

lemma forward_mach [simp]: "h_mach (forward h h') = h_mach h'" "h_files (forward h h') = h_files h'"
  by (simp_all add: forward_def)

lemma fc_req_log:
  assumes "records lg P" and "fc_req P sock meth path (Some body) h = (r, h')"
  shows "\<exists>okay. lg (h_mach h') = lg (h_mach h) @ [entry (pf_codec P) (meth, path, body) okay] \<and>
    (okay \<or> (\<exists>e. r = Inl e))"
proof -
  obtain r1 h1 where one: "pf_http P sock meth path (Some (dumps (pf_codec P) body)) h = (r1, h1)" by fastforce
  have l: "lg (h_mach h1) = lg (h_mach h) @ [(meth, path, Some (dumps (pf_codec P) body), accepted r1)]"
    using assms(1) one by (auto simp: records_def)
  have m: "h_mach h' = h_mach h1 \<and> (accepted r1 \<or> (\<exists>e. r = Inl e))"
    using assms(2) one
    by (auto simp: fc_req_def timed_def andthen_def throw_def ret_def lift_sum_def accepted_def
        split: sum.splits prod.splits if_splits)
  with l show ?thesis by (auto simp: entry_def)
qed

text \<open>
  What a run of requests sends is a prefix of the list; every request but the last one sent was
  accepted; and a run that returns normally sent them all, all accepted.
\<close>

lemma run_requests_log:
  "records lg P \<Longrightarrow> run_requests P sock rs h = (r, h') \<Longrightarrow>
    \<exists>oks. length oks \<le> length rs \<and> lg (h_mach h') = lg (h_mach h) @ map2 (entry (pf_codec P)) (take (length oks) rs) oks \<and>
      (\<forall>x \<in> set (butlast oks). x) \<and> (r = Inr () \<longrightarrow> length oks = length rs \<and> (\<forall>x \<in> set oks. x))"
proof (induction rs arbitrary: h)
  case (Cons rq rs)
  obtain meth path body where rq: "rq = (meth, path, body)" by (cases rq)
  obtain r1 h1 where one: "fc_req P sock meth path (Some body) h = (r1, h1)" by fastforce
  obtain okay where o: "lg (h_mach h1) = lg (h_mach h) @ [entry (pf_codec P) rq okay]" "okay \<or> (\<exists>e. r1 = Inl e)"
    using fc_req_log [OF Cons.prems(1) one] rq by blast
  show ?case
  proof (cases r1)
    case (Inl e)
    with Cons.prems(2) one rq have "r = Inl e" "h' = h1" by (simp_all add: andthen_def)
    with o show ?thesis by (intro exI [of _ "[okay]"]) simp
  next
    case (Inr j)
    with o have okay: okay by auto
    from Inr Cons.prems(2) one rq have run: "run_requests P sock rs h1 = (r, h')" by (simp add: andthen_def)
    obtain oks where oks: "length oks \<le> length rs"
        "lg (h_mach h') = lg (h_mach h1) @ map2 (entry (pf_codec P)) (take (length oks) rs) oks"
        "\<forall>x \<in> set (butlast oks). x" "r = Inr () \<longrightarrow> length oks = length rs \<and> (\<forall>x \<in> set oks. x)"
      using Cons.IH [OF Cons.prems(1) run] by blast
    with o(1) okay show ?thesis by (intro exI [of _ "okay # oks"]) auto
  qed
qed (simp add: ret_def exI [of _ "[]"])

lemma run_requests_before:
  assumes "records lg P" and "run_requests P sock (pre @ rq # post) h = (r, h')"
    and "lg (h_mach h') = lg (h_mach h) @ new" and "entry (pf_codec P) rq okay \<in> set new"
    and "\<forall>q \<in> set pre. (fst q, fst (snd q)) \<noteq> (fst rq, fst (snd rq))"
  shows "\<forall>q \<in> set pre. entry (pf_codec P) q True \<in> set new"
proof -
  let ?rs = "pre @ rq # post"
  obtain oks where oks: "length oks \<le> length ?rs" "new = map2 (entry (pf_codec P)) (take (length oks) ?rs) oks"
      "\<forall>x \<in> set (butlast oks). x"
    using run_requests_log [OF assms(1,2)] assms(3) by auto
  have long: "length pre < length oks"
  proof (rule ccontr)
    assume "\<not> ?thesis"
    then have "take (length oks) ?rs = take (length oks) pre" by simp
    with oks(2) assms(4) obtain q x where "entry (pf_codec P) rq okay = entry (pf_codec P) q x" "q \<in> set pre"
      by (auto dest!: set_zip_leftD in_set_takeD)
    with assms(5) show False by (auto simp: entry_def split: prod.splits)
  qed
  show ?thesis
  proof
    fix q
    assume "q \<in> set pre"
    then obtain i where i: "i < length pre" "pre ! i = q" by (auto simp: in_set_conv_nth)
    then have "i < length (butlast oks)" using long by simp
    then have "oks ! i" using bspec [OF oks(3) nth_mem] by (simp add: nth_butlast)
    with i long oks(1) have "new ! i = entry (pf_codec P) q True" "i < length new"
      by (simp_all add: oks(2) nth_append)
    then show "entry (pf_codec P) q True \<in> set new" by (metis nth_mem)
  qed
qed

section \<open>Properties of the client\<close>

text \<open>
  A VM is started only after it is configured: whenever the \<open>InstanceStart\<close> action of
  \<open>configure_and_start\<close> reaches Firecracker, whether accepted or not, every other request of the
  boot sequence (boot source, drives, machine configuration, vsock) was sent before and accepted.
\<close>

theorem start_after_configuration:
  assumes "records lg P"
    and "configure_and_start P vm h = (r, h')" and "lg (h_mach h') = lg (h_mach h) @ new"
    and "entry (pf_codec P) (''PUT'', ''/actions'', JObj [(''action_type'', JStr ''InstanceStart'')]) okay \<in> set new"
  shows "\<forall>q \<in> set (butlast (boot_requests (mv_spec vm))). entry (pf_codec P) q True \<in> set new"
proof -
  let ?start = "(''PUT'', ''/actions'', JObj [(''action_type'', JStr ''InstanceStart'')])"
  let ?pre = "butlast (boot_requests (mv_spec vm))"
  have pre: "boot_requests (mv_spec vm) = ?pre @ [?start]"
    by (simp add: boot_requests_def butlast_append)
  have out: "\<forall>q \<in> set ?pre. (fst q, fst (snd q)) \<noteq> (fst ?start, fst (snd ?start))"
    by (auto simp: boot_requests_def butlast_append)
  have "run_requests P (mv_sock vm) (?pre @ ?start # []) h = (r, h')"
    using assms(2) pre by (simp add: configure_and_start_def)
  from run_requests_before [OF assms(1) this assms(3,4) out] show ?thesis .
qed

text \<open>
  Restoring with its own vsock: when \<open>load\<close> is given a socket path of its own, the request that
  loads the snapshot does not resume the VM, and the resume reaches Firecracker only after the load
  and the override of the vsock device were accepted. A fork never runs on the socket baked into
  the snapshot.
\<close>

theorem resume_after_override:
  assumes "records lg P"
    and "load P vm snap mem backend True diff (Some uds) h = (r, h')" and "lg (h_mach h') = lg (h_mach h) @ new"
    and "entry (pf_codec P) resume_request okay \<in> set new"
  shows "entry (pf_codec P) (hd (load_requests (mv_spec vm) snap mem backend True diff (Some uds))) True \<in> set new \<and>
    entry (pf_codec P) (''PUT'', ''/vsock'',
      JObj [(''guest_cid'', JInt (int (vs_vsock_cid (mv_spec vm)))), (''uds_path'', JStr uds)]) True \<in> set new"
proof -
  let ?rs = "load_requests (mv_spec vm) snap mem backend True diff (Some uds)"
  have rs: "?rs = [?rs ! 0, ?rs ! 1] @ resume_request # []" by (simp add: load_requests_def)
  have out: "\<forall>q \<in> set [?rs ! 0, ?rs ! 1]. (fst q, fst (snd q)) \<noteq> (fst resume_request, fst (snd resume_request))" by (simp add: load_requests_def resume_request_def)
  have "run_requests P (mv_sock vm) ([?rs ! 0, ?rs ! 1] @ resume_request # []) h = (r, h')"
    using assms(2) rs by (simp only: load_def)
  from run_requests_before [OF assms(1) this assms(3,4) out] show ?thesis
    by (simp add: load_requests_def)
qed

text \<open>A toy Firecracker that accepts every request and keeps the log.\<close>

definition demo_fc_codec :: codec where
  "demo_fc_codec = \<lparr>dumps = (\<lambda>_. ''{}''), loads = (\<lambda>_. Inr (JObj []))\<rparr>"

definition demo_fc :: "api_entry list platform" where
  "demo_fc = \<lparr>pf_codec = demo_fc_codec,
     pf_http = (\<lambda>sock meth path body h. (Inr (204, []), h\<lparr>h_mach := h_mach h @ [(meth, path, body, True)]\<rparr>)),
     pf_popen = (\<lambda>_ h. (Inr 1, h)), pf_alive = (\<lambda>_ _. True), pf_sigkill = (\<lambda>_ h. h),
     pf_connect = (\<lambda>_ _ h. (Inr [], h)), pf_send = (\<lambda>_ _ h. (Inr [], h)), pf_run = (\<lambda>_ h. (Inr (), h)), pf_idle = (\<lambda>_ h. h)\<rparr>"

definition demo_fc_host :: "api_entry list host" where
  "demo_fc_host = \<lparr>h_files = (\<lambda>_. None), h_clock = 0, h_mach = []\<rparr>"

definition demo_vm :: microvm where
  "demo_vm = microvm_init \<lparr>vs_kernel = ''k'', vs_rootfs = ''r'', vs_mem_mib = 512, vs_vcpus = 1, vs_track_dirty = True,
     vs_rootfs_ro = True, vs_scratch = Some ''s'', vs_vsock_uds = Some ''v'', vs_vsock_cid = 3, vs_boot_args = ''b''\<rparr>
     ''w'' ''vm'' None None"

lemma demo_fc_records: "records (\<lambda>m. m) demo_fc"
  by (auto simp: records_def demo_fc_def accepted_def)

lemmas demo_fc_simps = fc_req_def timed_def forward_def andthen_def ret_def demo_fc_def demo_fc_host_def demo_vm_def
  microvm_init_def demo_fc_codec_def entry_def

lemma demo_fc_boot:
  "configure_and_start demo_fc demo_vm demo_fc_host = (Inr (), snd (configure_and_start demo_fc demo_vm demo_fc_host))"
  "h_mach (snd (configure_and_start demo_fc demo_vm demo_fc_host)) =
     map (\<lambda>q. entry demo_fc_codec q True) (boot_requests (mv_spec demo_vm))"
  by (simp_all add: configure_and_start_def boot_requests_def demo_fc_simps)

theorem start_after_configuration_witness:
  "let new = h_mach (snd (configure_and_start demo_fc demo_vm demo_fc_host))
   in length new = 6 \<and> (\<forall>q \<in> set (butlast (boot_requests (mv_spec demo_vm))). entry demo_fc_codec q True \<in> set new)"
proof -
  let ?new = "h_mach (snd (configure_and_start demo_fc demo_vm demo_fc_host))"
  have k: "pf_codec demo_fc = demo_fc_codec" by (simp add: demo_fc_def)
  have st: "entry demo_fc_codec (''PUT'', ''/actions'', JObj [(''action_type'', JStr ''InstanceStart'')]) True \<in> set ?new"
    unfolding demo_fc_boot(2) by (simp add: boot_requests_def)
  have n: "h_mach (snd (configure_and_start demo_fc demo_vm demo_fc_host)) = h_mach demo_fc_host @ ?new"
    by (simp add: demo_fc_host_def)
  have "length ?new = 6" unfolding demo_fc_boot(2) by (simp add: boot_requests_def demo_vm_def microvm_init_def)
  with start_after_configuration [OF demo_fc_records demo_fc_boot(1) n, of True] st k show ?thesis by simp
qed

theorem resume_after_override_witness:
  "(''PUT'', ''/vsock'', Some ''{}'', True) \<in>
     set (h_mach (snd (load demo_fc demo_vm ''snap'' ''mem'' ''File'' True False (Some ''uds'') demo_fc_host)))"
proof -
  let ?run = "load demo_fc demo_vm ''snap'' ''mem'' ''File'' True False (Some ''uds'') demo_fc_host"
  have run: "?run = (Inr (), snd ?run)"
    by (simp add: load_def load_requests_def resume_request_def demo_fc_simps)
  have new: "h_mach (snd ?run) = h_mach demo_fc_host @ h_mach (snd ?run)" by (simp add: demo_fc_host_def)
  have "entry (pf_codec demo_fc) resume_request True \<in> set (h_mach (snd ?run))"
    by (simp add: load_def load_requests_def resume_request_def demo_fc_simps)
  from resume_after_override [OF demo_fc_records run new this] show ?thesis
    by (simp add: entry_def demo_fc_def demo_fc_codec_def)
qed

section \<open>The host and the agent together\<close>

lemma recv_line_prefix: "\<exists>rest. acc @ concat cs = fst (recv_line cs acc) @ rest"
proof (induction cs arbitrary: acc)
  case (Cons c cs)
  show ?case using Cons.IH [of "acc @ c"] by auto
qed simp

lemma recv_line_nl: "[] \<notin> set cs \<Longrightarrow> 10 \<in> set (acc @ concat cs) \<Longrightarrow> 10 \<in> set (fst (recv_line cs acc))"
proof (induction cs arbitrary: acc)
  case (Cons c cs)
  then show ?case using Cons.IH [of "acc @ c"] by auto
qed simp

text \<open>
  C18. Request and reply across the vsock: if the port is acknowledged with an \<open>OK\<close> line, and at the
  other end one connection of the guest agent is served, then whatever the boundaries at which
  both byte streams are cut, \<open>vsock_request\<close> returns what \<open>handle\<close> answers to the request in the
  guest's state, or the error object made of the exception it raised.
\<close>

theorem vsock_request_reaches_handle:
  assumes "pf_connect P uds (encode (''CONNECT '' @ show_nat port @ [CHR 0x0A])) h = (Inr ack, h1)"
    and "[] \<notin> set ack" "concat ack = encode ''OK '' @ info @ [10]"
    and "pf_send P uds (frame (pf_codec P) msg) (forward h h1) = (Inr reads, h2)"
    and "[] \<notin> set reads" "concat reads = fst (serve_conn (pf_codec P) E sent g)"
    and "[] \<notin> set sent" "concat sent = frame (pf_codec P) msg"
    and "codec_ok (pf_codec P) msg" "codec_ok (pf_codec P) answer"
    and "answer = (case fst (handle E msg g) of Inl e \<Rightarrow> err_reply e | Inr resp \<Rightarrow> resp)"
  shows "vsock_request P uds port msg h = (Inr answer, forward (forward h h1) h2)"
proof -
  let ?buf = "fst (recv_line ack [])"
  have nl: "10 \<in> set ?buf" using recv_line_nl [OF assms(2), of "[]"] assms(3) by simp
  obtain rest where "concat ack = ?buf @ rest" using recv_line_prefix [of "[]" ack] by auto
  moreover have "take 3 (concat ack) = [79, 75, 32]"
    using assms(3) by (simp add: encode_def of_char_def)
  moreover have "(10::byte) \<notin> set [79, 75, 32]" by simp
  ultimately have "take 2 ?buf = [79, 75]"
  proof -
    assume b: "concat ack = ?buf @ rest" and t: "take 3 (concat ack) = [79, 75, 32]" and n: "(10::byte) \<notin> set [79, 75, 32]"
    have "3 \<le> length ?buf"
    proof (rule ccontr)
      assume "\<not> ?thesis"
      then have "set ?buf \<subseteq> set (take 3 (concat ack))" using b by auto
      with t n nl show False by auto
    qed
    then have "take 3 ?buf = [79, 75, 32]" using b t by simp
    then have "take 2 (take 3 ?buf) = [79, 75]" by simp
    then show ?thesis by simp
  qed
  then have ok: "take 2 ?buf = encode ''OK''" by (simp add: encode_def of_char_def)
  have "serve_conn (pf_codec P) E sent g = (frame (pf_codec P) answer, snd (handle E msg g))"
    using serve_conn_framing [OF assms(9,7), of "[]"] assms(8,11) by (simp add: split_beta)
  then have "concat reads = frame (pf_codec P) answer" using assms(6) by simp
  then have "first_line (fst (recv_line reads [])) = dumps (pf_codec P) answer"
    using recv_frame [OF assms(10,5), of "[]"] by simp
  then show ?thesis
    using assms(1,4,10) nl ok by (simp add: vsock_request_def timed_def andthen_def lift_sum_def codec_ok_def)
qed

definition demo_ping :: json where "demo_ping = JObj [(''type'', JStr ''PING'')]"

definition demo_pong :: json where "demo_pong = JObj [(''status'', JStr ''PONG'')]"

definition demo_vsock :: "api_entry list platform" where
  "demo_vsock = demo_fc\<lparr>
     pf_codec := \<lparr>dumps = (\<lambda>j. if j = demo_ping then ''I'' else ''O''), loads = (\<lambda>s. Inr (if s = ''I'' then demo_ping else demo_pong))\<rparr>,
     pf_connect := (\<lambda>_ _ h. (Inr [[79, 75], [32, 55, 10]], h)),
     pf_send := (\<lambda>_ d h. (Inr (if d = [73, 10] then [[79], [10]] else []), h))\<rparr>"

theorem vsock_request_reaches_handle_witness:
  "vsock_request demo_vsock ''v'' 5000 demo_ping demo_fc_host = (Inr demo_pong, demo_fc_host)"
proof -
  let ?K = "pf_codec demo_vsock"
  have fr: "frame ?K demo_ping = [73, 10]" "frame ?K demo_pong = [79, 10]"
    by (simp_all add: frame_def demo_vsock_def encode_def of_char_def demo_ping_def demo_pong_def)
  have ck: "codec_ok ?K demo_ping" "codec_ok ?K demo_pong"
    by (simp_all add: codec_ok_def demo_vsock_def demo_ping_def demo_pong_def)
  have hd: "fst (handle demo_guest_env demo_ping demo_guest) = Inr demo_pong"
    by (simp add: handle_def demo_ping_def demo_pong_def)
  have con: "pf_connect demo_vsock ''v'' (encode (''CONNECT '' @ show_nat 5000 @ [CHR 0x0A])) demo_fc_host
      = (Inr [[79, 75], [32, 55, 10]], demo_fc_host)" by (simp add: demo_vsock_def)
  have fw: "forward demo_fc_host demo_fc_host = demo_fc_host" by (simp add: forward_def demo_fc_host_def)
  have snd: "pf_send demo_vsock ''v'' (frame ?K demo_ping) (forward demo_fc_host demo_fc_host) = (Inr [[79], [10]], demo_fc_host)"
    unfolding fr fw by (simp add: demo_vsock_def)
  have sv: "fst (serve_conn ?K demo_guest_env [[73, 10]] demo_guest) = [79, 10]"
    using serve_conn_framing [OF ck(1), of "[[73, 10]]" "[]" demo_guest_env demo_guest] fr hd by (simp add: split_beta)
  have "vsock_request demo_vsock ''v'' 5000 demo_ping demo_fc_host
      = (Inr demo_pong, forward (forward demo_fc_host demo_fc_host) demo_fc_host)"
    by (rule vsock_request_reaches_handle [OF con _ _ snd, of "[55]" demo_guest_env "[[73, 10]]" demo_guest])
      (simp_all add: sv fr ck hd encode_def of_char_def)
  then show ?thesis by (simp add: fw)
qed

text \<open>What \<open>_await_sock\<close> can end in: the API answered, or the deadline has passed.\<close>

lemma await_sock_ends:
  "await_sock P vm deadline h = (r, h') \<Longrightarrow>
    r = Inr () \<or> (r = Inl (TimeoutError (''firecracker api socket '' @ mv_sock vm @ '' never came up'')) \<and> deadline \<le> h_clock h')"
proof (induction P vm deadline h rule: await_sock.induct)
  case (1 P vm deadline h)
  then show ?case by (subst (asm) (2) await_sock.simps) (auto split: if_splits prod.splits)
qed

end
