(* ===== verification/Engine.thy ===== *)
theory Engine
  imports Sqlite_Tables Firecracker Chunk_Store
begin

text \<open>
  The engine (\<open>spikes/engine/kladosd.py\<close>): projects and keys, runs, snapshots, forks and instances, on
  a database, the live VMs, the chunk store and the host. A request handler is one atomic step of
  the model. A connection is a copy of the committed tables that \<open>commit\<close> writes back, so what a
  handler inserted before an exception is rolled back, while its effects on the host, the live VMs
  and the store stay.
\<close>

section \<open>State\<close>

record ('v, 'srv) engine =
  ev_plat :: "'v platform"
  ev_cas :: "'srv cas_cfg"
  ev_sched :: "(string \<times> bytes) list \<Rightarrow> (string \<times> bytes) list"  \<comment> \<open>order of the upload pool\<close>
  ev_sha256 :: "bytes \<Rightarrow> bytes"
  ev_id :: "nat \<Rightarrow> string"         \<comment> \<open>successive \<open>uuid4().hex[:12]\<close>\<close>
  ev_token :: "nat \<Rightarrow> string"      \<comment> \<open>successive \<open>token_urlsafe(24)\<close>\<close>
  ev_str :: "json \<Rightarrow> string"       \<comment> \<open>\<open>str\<close> of a decoded answer\<close>
  ev_mkdtemp :: "'v host \<Rightarrow> string" \<comment> \<open>\<open>tempfile.mkdtemp\<close>\<close>
  ev_tree :: "string \<Rightarrow> 'v host \<Rightarrow> (string \<times> (exn + bytes)) list"
    \<comment> \<open>the regular files below a directory, by relative path, with their content or the error of reading it\<close>
  ev_sha1 :: "bytes \<Rightarrow> bytes"
  ev_home :: string
  ev_kernel :: string
  ev_rootfs :: string

record ('v, 'srv) world =
  w_host :: "'v host"
  w_db :: tables                     \<comment> \<open>the committed database\<close>
  w_live :: "(string \<times> microvm) list"  \<comment> \<open>\<open>LIVE\<close>\<close>
  w_store :: "'srv cas"              \<comment> \<open>\<open>STORE\<close>\<close>
  w_ids :: nat
  w_tokens :: nat

type_synonym ('v, 'srv, 'a) enginem = "('v, 'srv) world \<Rightarrow> (exn + 'a) \<times> ('v, 'srv) world"

definition on_host :: "('v, 'a) hostm \<Rightarrow> ('v, 'srv, 'a) enginem" where
  "on_host m w = (let (r, h) = m (w_host w) in (r, w\<lparr>w_host := h\<rparr>))"

definition on_store :: "('srv cas \<Rightarrow> (exn + 'a) \<times> 'srv cas) \<Rightarrow> ('v, 'srv, 'a) enginem" where
  "on_store m w = (let (r, s) = m (w_store w) in (r, w\<lparr>w_store := s\<rparr>))"

definition connect :: "('v, 'srv, tables) enginem" where
  "connect w = (Inr (w_db w), w)"

definition commit :: "tables \<Rightarrow> ('v, 'srv, unit) enginem" where
  "commit con w = (Inr (), w\<lparr>w_db := con\<rparr>)"

definition new_id :: "('v, 'srv) engine \<Rightarrow> ('v, 'srv, string) enginem" where
  "new_id ev w = (Inr (ev_id ev (w_ids w)), w\<lparr>w_ids := w_ids w + 1\<rparr>)"

definition new_token :: "('v, 'srv) engine \<Rightarrow> ('v, 'srv, string) enginem" where
  "new_token ev w = (Inr (ev_token ev (w_tokens w)), w\<lparr>w_tokens := w_tokens w + 1\<rparr>)"

section \<open>Paths and the machine description\<close>

definition baked :: string where "baked = ''/klados/vsock''"

definition snapdir :: "('v, 'srv) engine \<Rightarrow> string" where "snapdir ev = path_join (ev_home ev) ''snapshots''"

definition rundir :: "('v, 'srv) engine \<Rightarrow> string" where "rundir ev = path_join (ev_home ev) ''instances''"

definition snap_file :: "('v, 'srv) engine \<Rightarrow> string \<Rightarrow> string \<Rightarrow> string" where
  "snap_file ev sid name = path_join (path_join (snapdir ev) sid) name"

definition instance_dir :: "('v, 'srv) engine \<Rightarrow> string \<Rightarrow> string" where
  "instance_dir ev iid = path_join (rundir ev) iid"

definition scratch_of :: "('v, 'srv) engine \<Rightarrow> string \<Rightarrow> string" where
  "scratch_of ev sid = snap_file ev sid ''scratch.ext4''"

definition image_mem_mib :: nat where "image_mem_mib = 512"

definition engine_spec :: "('v, 'srv) engine \<Rightarrow> vm_spec" where
  "engine_spec ev = \<lparr>vs_kernel = ev_kernel ev, vs_rootfs = ev_rootfs ev, vs_mem_mib = image_mem_mib, vs_vcpus = 1,
     vs_track_dirty = True, vs_rootfs_ro = True, vs_scratch = Some (baked @ ''/scratch.ext4''),
     vs_vsock_uds = Some (baked @ ''/vm.vsock''), vs_vsock_cid = 3,
     vs_boot_args = ''console=ttyS0 reboot=k panic=1 pci=off init=/init_protocol''\<rparr>"

section \<open>Memory images\<close>

definition manifest_json :: "string list \<Rightarrow> json" where
  "manifest_json hashes = JObj [(''block'', JInt 4096), (''hashes'', JList (map JStr hashes))]"

definition chunk_mem :: "('v, 'srv) engine \<Rightarrow> string \<Rightarrow> string \<Rightarrow> ('v, 'srv, nat) enginem" where
  "chunk_mem ev sid mem_path =
     andthen (on_host (read_file mem_path)) (\<lambda>content.
     andthen (on_store (put_file (ev_cas ev) read_buf content)) (\<lambda>hashes.
     andthen (on_store (flush_s3 (ev_sched ev) (ev_cas ev))) (\<lambda>_.
     andthen (on_host (write_file (snap_file ev sid ''mem.manifest'')
               (encode (dumps (pf_codec (ev_plat ev)) (manifest_json hashes))))) (\<lambda>_.
     andthen (on_host (file_size mem_path)) (\<lambda>logical.
     andthen (on_host (remove_file mem_path)) (\<lambda>_. ret logical))))))"

text \<open>\<open>m["hashes"]\<close> of the decoded manifest, as the list of strings it is iterated as.\<close>

fun json_strings :: "json list \<Rightarrow> exn + string list" where
  "json_strings [] = Inr []"
| "json_strings (JStr s # js) = (case json_strings js of Inl e \<Rightarrow> Inl e | Inr ss \<Rightarrow> Inr (s # ss))"
| "json_strings (_ # js) = Inl (TypeError ''join() argument must be str, bytes, or os.PathLike object'')"

definition manifest_hashes :: "json \<Rightarrow> exn + string list" where
  "manifest_hashes m =
     (case m of
        JObj kvs \<Rightarrow> (case map_of kvs ''hashes'' of
                       None \<Rightarrow> Inl (KeyError ''hashes'')
                     | Some (JList js) \<Rightarrow> json_strings js
                     | Some _ \<Rightarrow> Inl (TypeError ''object is not iterable''))
      | _ \<Rightarrow> Inl (TypeError ''object is not subscriptable''))"

definition append_file :: "string \<Rightarrow> bytes \<Rightarrow> ('v, unit) hostm" where
  "append_file p d = andthen (read_file p) (\<lambda>old. write_file p (old @ d))"

fun write_chunks :: "('v, 'srv) engine \<Rightarrow> string \<Rightarrow> string list \<Rightarrow> ('v, 'srv, unit) enginem" where
  "write_chunks ev tmp [] = ret ()"
| "write_chunks ev tmp (h # hs) =
     andthen (on_store (cas_get (ev_cas ev) h)) (\<lambda>b.
     andthen (on_host (append_file tmp b)) (\<lambda>_. write_chunks ev tmp hs))"

definition reconstruct_mem :: "('v, 'srv) engine \<Rightarrow> string \<Rightarrow> ('v, 'srv, string) enginem" where
  "reconstruct_mem ev sid w =
     (let mem = snap_file ev sid ''mem''; man = snap_file ev sid ''mem.manifest''; tmp = mem @ ''.tmp''
      in if exists_file mem (w_host w) \<or> \<not> exists_file man (w_host w) then (Inr mem, w)
         else andthen (on_host (read_file man)) (\<lambda>text.
              andthen (lift_sum (loads (pf_codec (ev_plat ev)) (decode_bytes text))) (\<lambda>m.
              andthen (on_host (write_file tmp [])) (\<lambda>_.
              andthen (lift_sum (manifest_hashes m)) (\<lambda>hashes.
              andthen (write_chunks ev tmp hashes) (\<lambda>_.
              andthen (on_host (replace_file tmp mem)) (\<lambda>_. ret mem)))))) w)"

section \<open>Booting\<close>

definition make_scratch :: "'v platform \<Rightarrow> string \<Rightarrow> ('v, unit) hostm" where
  "make_scratch P path =
     andthen (timed (pf_run P [''dd'', ''if=/dev/zero'', ''of='' @ path, ''bs=1M'', ''count=32'', ''status=none''])) (\<lambda>_.
     timed (pf_run P [''mkfs.ext4'', ''-q'', ''-F'', path]))"

text \<open>\<open>_wait_agent\<close>: one \<open>PING\<close>, then the loop up to the deadline; an exception counts as no answer.\<close>

definition ping :: "'v platform \<Rightarrow> string \<Rightarrow> 'v host \<Rightarrow> bool \<times> 'v host" where
  "ping P uds h =
     (case vsock_request P uds 5000 (JObj [(''type'', JStr ''PING'')]) h of
        (Inl _, h') \<Rightarrow> (False, h')
      | (Inr r, h') \<Rightarrow> (json_get r ''status'' = Inr (Some (JStr ''PONG'')), h'))"

lemma vsock_request_clock: "h_clock h \<le> h_clock (snd (vsock_request P uds port msg h))"
proof -
  obtain r h1 where one: "timed (pf_connect P uds (encode (''CONNECT '' @ show_nat port @ [CHR 0x0A]))) h = (r, h1)"
    by fastforce
  have a: "h_clock h \<le> h_clock h1" using timed_clock [of h "pf_connect P uds (encode (''CONNECT '' @ show_nat port @ [CHR 0x0A]))"] one by simp
  have b: "h_clock h1 \<le> h_clock (snd (timed (pf_send P uds (frame (pf_codec P) msg)) h1))" by (rule timed_clock)
  show ?thesis using a order_trans [OF a b] one
    by (auto simp: vsock_request_def andthen_def Let_def throw_def ret_def lift_sum_def split: sum.splits prod.splits)
qed

lemma ping_clock: "h_clock h \<le> h_clock (snd (ping P uds h))"
  using vsock_request_clock [of h P uds 5000 "JObj [(''type'', JStr ''PING'')]"]
  by (auto simp: ping_def split: sum.splits prod.splits)

function wait_agent :: "'v platform \<Rightarrow> string \<Rightarrow> rat \<Rightarrow> 'v host \<Rightarrow> bool \<times> 'v host" where
  "wait_agent P uds deadline h =
     (if h_clock h < deadline
      then (let (up, h1) = ping P uds h
            in if up then (True, h1) else wait_agent P uds deadline (py_sleep P (1 / 5) h1))
      else (False, h))"
  by pat_completeness auto
termination
proof (relation "measure (\<lambda>(P, uds, deadline, h). nat \<lceil>(deadline - h_clock h) / (1 / 5)\<rceil>)")
  show "wf (measure (\<lambda>(P :: 'v platform, uds :: string, deadline, h). nat \<lceil>(deadline - h_clock h) / (1 / 5)\<rceil>))" by simp
next
  fix P :: "'v platform" and uds :: string and deadline :: rat and h h1 :: "'v host" and x up
  assume h: "h_clock h < deadline" and x: "x = ping P uds h" "(up, h1) = x"
  have "h_clock h \<le> h_clock h1" using ping_clock [of h P uds] x by (metis snd_conv)
  with py_sleep_clock [of h1 "1 / 5" P]
  have "h_clock h + 1 / 5 \<le> h_clock (py_sleep P (1 / 5) h1)" by simp
  with deadline_measure [OF h this]
  show "((P, uds, deadline, py_sleep P (1 / 5) h1), (P, uds, deadline, h))
      \<in> measure (\<lambda>(P, uds, deadline, h). nat \<lceil>(deadline - h_clock h) / (1 / 5)\<rceil>)"
    by simp
qed

declare wait_agent.simps [simp del]

definition await_agent :: "'v platform \<Rightarrow> string \<Rightarrow> ('v, bool) hostm" where
  "await_agent P uds h = (let (up, h') = wait_agent P uds (h_clock h + 20) h in (Inr up, h'))"

definition boot_vm ::
  "('v, 'srv) engine \<Rightarrow> string \<Rightarrow> (string \<times> string) option \<Rightarrow> string option \<Rightarrow> ('v, 'srv, microvm \<times> string) enginem" where
  "boot_vm ev iid load_from scratch_src =
     (let P = ev_plat ev; d = instance_dir ev iid; scratch = path_join d ''scratch.ext4'';
          vm0 = microvm_init (engine_spec ev) d ''vm'' (Some (path_join d ''console'')) (Some (baked, d))
      in andthen (on_host (\<lambda>h.
           (case scratch_src of
              Some src \<Rightarrow>
                if src \<noteq> [] \<and> exists_file src h then copy_file src scratch h
                else if \<not> exists_file scratch h then make_scratch P scratch h else (Inr (), h)
            | None \<Rightarrow> if \<not> exists_file scratch h then make_scratch P scratch h else (Inr (), h)))) (\<lambda>_.
         andthen (on_host (spawn P vm0)) (\<lambda>vm.
         andthen (on_host (case load_from of
              None \<Rightarrow> configure_and_start P vm
            | Some (snap, mem) \<Rightarrow> load P vm snap mem ''File'' True False None)) (\<lambda>_.
         (\<lambda>w. (Inr (vm, path_join d ''vm.vsock''), w\<lparr>w_live := AList.update iid vm (w_live w)\<rparr>))))))"

section \<open>Statements on the tables\<close>

definition add_project :: "project_row \<Rightarrow> tables \<Rightarrow> exn + tables" where
  "add_project r con = (case insert_row pj_id r (t_projects con) of Inl e \<Rightarrow> Inl e | Inr t \<Rightarrow> Inr (con\<lparr>t_projects := t\<rparr>))"

definition add_run :: "run_row \<Rightarrow> tables \<Rightarrow> exn + tables" where
  "add_run r con = (case insert_row rn_id r (t_runs con) of Inl e \<Rightarrow> Inl e | Inr t \<Rightarrow> Inr (con\<lparr>t_runs := t\<rparr>))"

definition add_snapshot :: "snapshot_row \<Rightarrow> tables \<Rightarrow> exn + tables" where
  "add_snapshot r con = (case insert_row sn_id r (t_snapshots con) of Inl e \<Rightarrow> Inl e | Inr t \<Rightarrow> Inr (con\<lparr>t_snapshots := t\<rparr>))"

definition add_instance :: "instance_row \<Rightarrow> tables \<Rightarrow> exn + tables" where
  "add_instance r con = (case insert_row in_id r (t_instances con) of Inl e \<Rightarrow> Inl e | Inr t \<Rightarrow> Inr (con\<lparr>t_instances := t\<rparr>))"

definition update_instance :: "string \<Rightarrow> (instance_row \<Rightarrow> instance_row) \<Rightarrow> tables \<Rightarrow> tables" where
  "update_instance iid f con = con\<lparr>t_instances := update_row in_id iid f (t_instances con)\<rparr>"

section \<open>Projects and keys\<close>

definition hash_key :: "('v, 'srv) engine \<Rightarrow> string \<Rightarrow> string" where
  "hash_key ev k = hex_of (ev_sha256 ev (encode k))"

definition create_project :: "('v, 'srv) engine \<Rightarrow> json \<Rightarrow> ('v, 'srv, json) enginem" where
  "create_project ev name =
     andthen (new_token ev) (\<lambda>tok. let key = ''klados_'' @ tok in
     andthen (new_id ev) (\<lambda>pid.
     andthen connect (\<lambda>con.
     andthen (on_host time_now) (\<lambda>now.
     andthen (lift_sum (sql_bind name)) (\<lambda>bound.
     andthen (lift_sum (add_project \<lparr>pj_id = pid, pj_name = bound, pj_key_hash = hash_key ev key, pj_created = now\<rparr> con)) (\<lambda>con.
     andthen (commit con) (\<lambda>_.
     ret (JObj [(''project_id'', JStr pid), (''name'', name), (''api_key'', JStr key)]))))))))"

definition project_of_key :: "('v, 'srv) engine \<Rightarrow> string \<Rightarrow> tables \<Rightarrow> string option" where
  "project_of_key ev key db =
     (if key = [] then None
      else map_option pj_id (find (\<lambda>r. pj_key_hash r = hash_key ev key) (t_projects db)))"

text \<open>\<open>_project_of\<close>, for the three tables it is called with (always on the column \<open>id\<close>).\<close>

datatype owned = Runs | Snapshots | Instances

definition project_of :: "owned \<Rightarrow> string \<Rightarrow> tables \<Rightarrow> string option" where
  "project_of t val db =
     (let owner = (\<lambda>rid. map_option rn_project (select_row rn_id rid (t_runs db)))
      in case t of
           Runs \<Rightarrow> owner val
         | Snapshots \<Rightarrow> (case select_row sn_id val (t_snapshots db) of None \<Rightarrow> None | Some s \<Rightarrow> owner (sn_run s))
         | Instances \<Rightarrow> (case select_row in_id val (t_instances db) of None \<Rightarrow> None | Some i \<Rightarrow> owner (in_run i)))"

definition require_owner :: "string \<Rightarrow> owned \<Rightarrow> string \<Rightarrow> ('v, 'srv, unit) enginem" where
  "require_owner project_id t val =
     andthen connect (\<lambda>db.
       if project_of t val db \<noteq> Some project_id
       then throw (Forbidden (val @ '' is not in your project'')) else ret ())"

section \<open>Runs, snapshots, forks\<close>

definition create_run :: "('v, 'srv) engine \<Rightarrow> string \<Rightarrow> json \<Rightarrow> ('v, 'srv, json) enginem" where
  "create_run ev project_id img =
     andthen (new_id ev) (\<lambda>rid.
     andthen (new_id ev) (\<lambda>iid.
     andthen connect (\<lambda>con.
     andthen (on_host time_now) (\<lambda>t1.
     andthen (lift_sum (sql_bind img)) (\<lambda>bound.
     andthen (lift_sum (add_run \<lparr>rn_id = rid, rn_project = project_id, rn_image = bound, rn_created = t1\<rparr> con)) (\<lambda>con.
     andthen (on_host time_now) (\<lambda>t2.
     andthen (lift_sum (add_instance \<lparr>in_id = iid, in_run = rid, in_snapshot = None, in_state = ''RUNNING'',
                in_branch = ''genesis'', in_created = t2\<rparr> con)) (\<lambda>con.
     andthen (commit con) (\<lambda>_.
     andthen (boot_vm ev iid None None) (\<lambda>(vm, uds).
     andthen (on_host (await_agent (ev_plat ev) uds)) (\<lambda>_.
     ret (JObj [(''run_id'', JStr rid), (''instance_id'', JStr iid)]))))))))))))"

definition opt_str :: "string option \<Rightarrow> json" where
  "opt_str x = (case x of None \<Rightarrow> JNull | Some s \<Rightarrow> JStr s)"

text \<open>The host part of \<open>snapshot_instance\<close>, from the quiesce to the resume.\<close>

definition quiesce :: "'v platform \<Rightarrow> string \<Rightarrow> ('v, unit) hostm" where
  "quiesce P uds =
     attempt (andthen (vsock_request P uds 5000 (JObj [(''type'', JStr ''QUIESCE'')]))
               (\<lambda>_ h. (Inr (), py_sleep P (3 / 20) h)))
       (\<lambda>_. ret ())"

definition seal_vm :: "('v, 'srv) engine \<Rightarrow> microvm \<Rightarrow> string \<Rightarrow> string \<Rightarrow> string \<Rightarrow> string \<Rightarrow> ('v, unit) hostm" where
  "seal_vm ev vm iid sid snap mem =
     (let P = ev_plat ev; d = instance_dir ev iid; src = path_join d ''scratch.ext4''
      in andthen (quiesce P (path_join d ''vm.vsock'')) (\<lambda>_.
         andthen (pause P vm) (\<lambda>_.
         andthen (vm_snapshot P vm snap mem False) (\<lambda>_.
         andthen (\<lambda>h. if exists_file src h then copy_file src (scratch_of ev sid) h else (Inr (), h)) (\<lambda>_.
         resume P vm)))))"

definition snapshot_instance :: "('v, 'srv) engine \<Rightarrow> string \<Rightarrow> json \<Rightarrow> ('v, 'srv, json) enginem" where
  "snapshot_instance ev iid label w =
     (case map_of (w_live w) iid of
        None \<Rightarrow> (Inl (KeyError (''no live instance '' @ iid)), w)
      | Some vm \<Rightarrow>
          andthen connect (\<lambda>con.
            case select_row in_id iid (t_instances con) of
              None \<Rightarrow> throw (TypeError (quoted ''NoneType'' @ '' object is not subscriptable''))
            | Some row \<Rightarrow>
                let run_id = in_run row; parent = in_snapshot row in
                andthen (new_id ev) (\<lambda>sid.
                let snap = snap_file ev sid ''vmstate''; mem = snap_file ev sid ''mem'' in
                andthen (on_host (seal_vm ev vm iid sid snap mem)) (\<lambda>_.
                andthen (chunk_mem ev sid mem) (\<lambda>logical.
                andthen (on_host (file_size snap)) (\<lambda>state_size.
                let size_bytes = logical + state_size in
                andthen (on_host time_now) (\<lambda>now.
                andthen (lift_sum (sql_bind label)) (\<lambda>bound.
                andthen (lift_sum (add_snapshot \<lparr>sn_id = sid, sn_run = run_id, sn_parent = parent, sn_label = bound,
                   sn_snap_path = snap, sn_mem_path = mem, sn_size = size_bytes, sn_created = now\<rparr> con)) (\<lambda>con.
                andthen (commit (update_instance iid (\<lambda>r. r\<lparr>in_snapshot := Some sid\<rparr>) con)) (\<lambda>_.
                ret (JObj [(''snapshot_id'', JStr sid), (''size_bytes'', JInt (int size_bytes)), (''parent'', opt_str parent)]))))))))))
            w)"

text \<open>One iteration of the loop of \<open>fork_snapshot\<close>: boot, hand over, record.\<close>

definition branch_name :: "nat \<Rightarrow> int \<Rightarrow> string" where
  "branch_name i n = ''branch '' @ show_nat i @ '' of '' @ show_int n"

definition send_forked :: "('v, 'srv) engine \<Rightarrow> string \<Rightarrow> nat \<Rightarrow> int \<Rightarrow> ('v, string) hostm" where
  "send_forked ev uds i n =
     (let P = ev_plat ev; branch = branch_name i n
      in attempt
          (andthen (await_agent P uds) (\<lambda>_.
           andthen time_now (\<lambda>now.
           andthen (vsock_request P uds 5000 (JObj [(''type'', JStr ''FORKED''), (''index'', JInt (int i)), (''n'', JInt n),
              (''true_time'', JNum now), (''branch_context'', JStr branch)])) (\<lambda>r.
           andthen (lift_sum (json_get r ''status'')) (\<lambda>status.
           ret (if status = Some (JStr ''READY'') then branch else ''ERR:'' @ ev_str ev r))))))
          (\<lambda>e. ret (''ERR:'' @ exn_str e)))"

definition fork_one ::
  "('v, 'srv) engine \<Rightarrow> snapshot_row \<Rightarrow> int \<Rightarrow> nat \<Rightarrow> tables \<Rightarrow> ('v, 'srv, tables \<times> json) enginem" where
  "fork_one ev snap n i con =
     andthen (new_id ev) (\<lambda>iid.
     andthen (boot_vm ev iid (Some (sn_snap_path snap, sn_mem_path snap)) (Some (scratch_of ev (sn_id snap)))) (\<lambda>(vm, uds).
     andthen (on_host (send_forked ev uds i n)) (\<lambda>branch.
     andthen (on_host time_now) (\<lambda>now.
     andthen (lift_sum (add_instance \<lparr>in_id = iid, in_run = sn_run snap, in_snapshot = Some (sn_id snap),
        in_state = ''RUNNING'', in_branch = branch, in_created = now\<rparr> con)) (\<lambda>con.
     ret (con, JObj [(''instance_id'', JStr iid), (''branch'', JStr branch)]))))))"

fun fork_loop ::
  "('v, 'srv) engine \<Rightarrow> snapshot_row \<Rightarrow> int \<Rightarrow> nat list \<Rightarrow> tables \<Rightarrow> ('v, 'srv, tables \<times> json list) enginem" where
  "fork_loop ev snap n [] con = ret (con, [])"
| "fork_loop ev snap n (i # is) con =
     andthen (fork_one ev snap n i con) (\<lambda>(con, child).
     andthen (fork_loop ev snap n is con) (\<lambda>(con, children). ret (con, child # children)))"

definition fork_snapshot :: "('v, 'srv) engine \<Rightarrow> string \<Rightarrow> int \<Rightarrow> ('v, 'srv, json) enginem" where
  "fork_snapshot ev sid n =
     andthen connect (\<lambda>con.
       case select_row sn_id sid (t_snapshots con) of
         None \<Rightarrow> throw (KeyError (''no snapshot '' @ sid))
       | Some snap \<Rightarrow>
           andthen (reconstruct_mem ev sid) (\<lambda>_.
           andthen (fork_loop ev snap n [0..<nat n] con) (\<lambda>(con, children).
           andthen (commit con) (\<lambda>_. ret (JObj [(''children'', JList children)])))))"

definition destroy_instance :: "('v, 'srv) engine \<Rightarrow> string \<Rightarrow> ('v, 'srv, json) enginem" where
  "destroy_instance ev iid =
     andthen (\<lambda>w. case map_of (w_live w) iid of
                    None \<Rightarrow> (Inr (), w)
                  | Some vm \<Rightarrow> on_host (kill (ev_plat ev) vm) (w\<lparr>w_live := AList.delete iid (w_live w)\<rparr>)) (\<lambda>_.
     andthen connect (\<lambda>con.
     andthen (commit (update_instance iid (\<lambda>r. r\<lparr>in_state := ''DESTROYED''\<rparr>) con)) (\<lambda>_.
     ret (JObj [(''instance_id'', JStr iid), (''state'', JStr ''DESTROYED'')]))))"

section \<open>Queries\<close>

definition timeline :: "string \<Rightarrow> ('v, 'srv, json) enginem" where
  "timeline run_id =
     andthen connect (\<lambda>con. ret (JObj
       [(''run_id'', JStr run_id),
        (''snapshots'', JList (map (\<lambda>s. JObj [(''id'', JStr (sn_id s)), (''parent_id'', opt_str (sn_parent s)),
            (''label'', sn_label s), (''size_bytes'', JInt (int (sn_size s))), (''created_at'', JNum (sn_created s))])
          (order_by sn_created (filter (\<lambda>s. sn_run s = run_id) (t_snapshots con))))),
        (''instances'', JList (map (\<lambda>i. JObj [(''id'', JStr (in_id i)), (''snapshot_id'', opt_str (in_snapshot i)),
            (''state'', JStr (in_state i)), (''branch'', JStr (in_branch i))])
          (filter (\<lambda>i. in_run i = run_id) (t_instances con))))]))"

definition list_runs :: "string \<Rightarrow> ('v, 'srv, json) enginem" where
  "list_runs project_id =
     andthen connect (\<lambda>con. ret (JObj [(''runs'', JList (map (\<lambda>r. JObj [(''id'', JStr (rn_id r)),
            (''project_id'', JStr (rn_project r)), (''image'', rn_image r), (''created_at'', JNum (rn_created r))])
          (order_by rn_created (filter (\<lambda>r. rn_project r = project_id) (t_runs con)))))]))"

section \<open>Starting the daemon\<close>

text \<open>
  \<open>init_db\<close> on the host, database and chunk files a previous daemon left (empty on the first start):
  no VM is live, the chunk store starts with an empty index on the files it finds, and a default
  project with its key file is created when there is no project.
\<close>

definition init_db ::
  "('v, 'srv) engine \<Rightarrow> (string \<Rightarrow> bytes option) \<Rightarrow> 'srv \<Rightarrow> tables \<Rightarrow> 'v host \<Rightarrow> nat \<Rightarrow> nat \<Rightarrow>
   (exn + unit) \<times> ('v, 'srv) world" where
  "init_db ev chunk_files srv db host0 ids toks =
     (case cas_init (ev_cas ev) chunk_files srv of
        (Inl e, srv') \<Rightarrow> (Inl e, \<lparr>w_host = host0, w_db = db, w_live = [], w_store = cas_new chunk_files srv', w_ids = ids, w_tokens = toks\<rparr>)
      | (Inr store, srv') \<Rightarrow>
          (let w = \<lparr>w_host = host0, w_db = db, w_live = [], w_store = store, w_ids = ids, w_tokens = toks\<rparr>
           in if t_projects db = []
              then andthen (create_project ev (JStr ''default'')) (\<lambda>j.
                   on_host (write_file (path_join (ev_home ev) ''root.key'')
                     (encode (case json_field j ''api_key'' of JStr k \<Rightarrow> k | _ \<Rightarrow> [])))) w
              else (Inr (), w)))"

end
