(* ===== verification/Engine_Lineage.thy ===== *)
theory Engine_Lineage
  imports Engine
begin

text \<open>
  The timeline: what the handlers of \<open>Engine\<close> do to the database and the live VMs. Frame lemmas say
  which operations touch neither; from them the effect of each handler on the tables is read off,
  and the invariant \<open>db_ok\<close> (every reference resolves within its run, a snapshot's parent is older
  than the snapshot) and the growth of the snapshot history follow for every sequence of handlers.
\<close>

section \<open>Frames\<close>

definition same_db :: "('v, 'srv) world \<Rightarrow> ('v, 'srv) world \<Rightarrow> bool" where
  "same_db w w' \<longleftrightarrow> w_db w' = w_db w"

definition same_daemon :: "('v, 'srv) world \<Rightarrow> ('v, 'srv) world \<Rightarrow> bool" where
  "same_daemon w w' \<longleftrightarrow> w_db w' = w_db w \<and> w_live w' = w_live w"

interpretation db_frame: state_order same_db
  by unfold_locales (auto simp: same_db_def)

interpretation daemon_frame: state_order same_daemon
  by unfold_locales (auto simp: same_daemon_def)

lemma keeps_weaken: "keeps R m \<Longrightarrow> (\<And>s t. R s t \<Longrightarrow> R' s t) \<Longrightarrow> keeps R' m"
  by (simp add: keeps_def)

lemma daemon_db: "keeps same_daemon m \<Longrightarrow> keeps same_db m"
  by (erule keeps_weaken) (simp add: same_db_def same_daemon_def)

text \<open>One step of a computation whose first part respects a frame.\<close>

lemma andthen_frame:
  assumes "keeps R m"
    and "\<And>e w'. m w = (Inl e, w') \<Longrightarrow> R w w' \<Longrightarrow> Q (Inl e, w')"
    and "\<And>x w'. m w = (Inr x, w') \<Longrightarrow> R w w' \<Longrightarrow> Q (f x w')"
  shows "Q (andthen m f w)"
proof -
  obtain r w' where m: "m w = (r, w')" by fastforce
  with keepsD [OF assms(1) m] assms(2,3) show ?thesis by (cases r) (auto simp: andthen_def)
qed

lemma keeps_on_host [preserve_intros]: "keeps same_daemon (on_host m)"
  by (rule keepsI) (simp add: on_host_def same_daemon_def split_beta)

lemma keeps_on_store [preserve_intros]: "keeps same_daemon (on_store m)"
  by (rule keepsI) (simp add: on_store_def same_daemon_def split_beta)

lemma keeps_new_id [preserve_intros]: "keeps same_daemon (new_id ev)"
  by (rule keepsI) (simp add: new_id_def same_daemon_def)

lemma keeps_new_token [preserve_intros]: "keeps same_daemon (new_token ev)"
  by (rule keepsI) (simp add: new_token_def same_daemon_def)

lemma keeps_connect [preserve_intros]: "keeps same_daemon connect"
  by (rule keepsI) (simp add: connect_def same_daemon_def)

lemma keeps_lift_sum [preserve_intros]: "keeps same_daemon (lift_sum r)"
  by (rule keepsI) (simp add: lift_sum_def same_daemon_def)

lemmas [preserve_intros] = daemon_frame.keeps_andthen daemon_frame.keeps_ret daemon_frame.keeps_throw

lemma keeps_chunk_mem [preserve_intros]: "keeps same_daemon (chunk_mem ev sid mem)"
  unfolding chunk_mem_def by (intro preserve_intros)

lemma keeps_write_chunks [preserve_intros]: "keeps same_daemon (write_chunks ev tmp hs)"
  by (induction hs) (auto intro!: preserve_intros)

lemma keeps_reconstruct [preserve_intros]: "keeps same_daemon (reconstruct_mem ev sid)"
proof (rule keepsI)
  fix w :: "('a, 'b) world"
  let ?m = "andthen (on_host (read_file (snap_file ev sid ''mem.manifest''))) (\<lambda>text.
              andthen (lift_sum (loads (pf_codec (ev_plat ev)) (decode_bytes text))) (\<lambda>m.
              andthen (on_host (write_file (snap_file ev sid ''mem'' @ ''.tmp'') [])) (\<lambda>_.
              andthen (lift_sum (manifest_hashes m)) (\<lambda>hashes.
              andthen (write_chunks ev (snap_file ev sid ''mem'' @ ''.tmp'') hashes) (\<lambda>_.
              andthen (on_host (replace_file (snap_file ev sid ''mem'' @ ''.tmp'') (snap_file ev sid ''mem''))) (\<lambda>_.
              ret (snap_file ev sid ''mem'')))))))"
  have "keeps same_daemon ?m" by (intro preserve_intros)
  then show "same_daemon w (snd (reconstruct_mem ev sid w))"
    by (simp add: reconstruct_mem_def Let_def keeps_snd daemon_frame.R_refl)
qed

lemma keeps_boot_db: "keeps same_db (boot_vm ev iid load_from src)"
proof -
  have h: "keeps same_db (on_host m)" for m :: "('a, 'c) hostm"
    by (rule daemon_db) (rule keeps_on_host)
  show ?thesis
    unfolding boot_vm_def Let_def
    by (intro db_frame.keeps_andthen h) (rule keepsI, simp add: same_db_def)
qed

text \<open>\<open>boot_vm\<close> registers the VM exactly when it returns normally.\<close>

lemma boot_vm_live:
  assumes "boot_vm ev iid load_from src w = (r, w')"
  shows "w_db w' = w_db w \<and>
    (case r of Inl e \<Rightarrow> w_live w' = w_live w
             | Inr (vm, uds) \<Rightarrow> w_live w' = AList.update iid vm (w_live w))"
proof -
  have host: "w_db w2 = w_db w1 \<and> w_live w2 = w_live w1" if "on_host m w1 = (r1, w2)"
    for m :: "('a, 'z) hostm" and w1 w2 :: "('a, 'b) world" and r1
    using that by (auto simp: on_host_def split: prod.splits)
  show ?thesis
  proof (cases r)
    case (Inl e)
    with assms host show ?thesis
      unfolding boot_vm_def Let_def by (auto elim!: andthen_InlE dest!: host)
  next
    case (Inr x)
    with assms show ?thesis
      unfolding boot_vm_def Let_def by (auto elim!: andthen_InrE dest!: host)
  qed
qed

lemma same_daemonD: "same_daemon w w' \<Longrightarrow> w_db w' = w_db w \<and> w_live w' = w_live w"
  by (simp add: same_daemon_def)

text \<open>What a step of a handler that is not a commit or a boot says about database and live VMs.\<close>

lemmas frame_dests =
  keepsD [OF keeps_on_host, THEN same_daemonD]
  keepsD [OF keeps_on_store, THEN same_daemonD]
  keepsD [OF keeps_new_id, THEN same_daemonD]
  keepsD [OF keeps_new_token, THEN same_daemonD]
  keepsD [OF keeps_chunk_mem, THEN same_daemonD]
  keepsD [OF keeps_reconstruct, THEN same_daemonD]

section \<open>Effects of the handlers on the database\<close>

text \<open>One step of such a handler: it ends here with the exception and nothing changed, or goes on.\<close>

lemma quiet_step:
  assumes "andthen m f w = (r, w')" and "keeps same_daemon m"
  obtains (stop) e where "r = Inl e" "w_db w' = w_db w" "w_live w' = w_live w"
    | (go) x w1 where "w_db w1 = w_db w" "w_live w1 = w_live w" "f x w1 = (r, w')"
proof -
  obtain r1 w1 where m: "m w = (r1, w1)" by fastforce
  with keepsD [OF assms(2) m] assms(1) stop go show thesis
    by (cases r1) (auto simp: andthen_def same_daemon_def)
qed

lemma bind_lift_sum:
  assumes "andthen (lift_sum c) f w = (r, w')"
  obtains (stop) e where "r = Inl e" "w' = w" | (go) x where "c = Inr x" "f x w = (r, w')"
  using assms by (cases c) (auto simp: andthen_def lift_sum_def)

lemma bind_connect: "andthen connect f w = f (w_db w) w"
  by (simp add: andthen_def connect_def)

lemma bind_commit: "andthen (commit con) f w = f () (w\<lparr>w_db := con\<rparr>)"
  by (simp add: andthen_def commit_def)

lemmas quiet_host = quiet_step [OF _ keeps_on_host]
lemmas quiet_store = quiet_step [OF _ keeps_on_store]
lemmas quiet_id = quiet_step [OF _ keeps_new_id]
lemmas quiet_token = quiet_step [OF _ keeps_new_token]
lemmas quiet_chunk = quiet_step [OF _ keeps_chunk_mem]
lemmas quiet_reconstruct = quiet_step [OF _ keeps_reconstruct]

lemmas handler_elims = quiet_host quiet_id quiet_token quiet_chunk quiet_reconstruct bind_lift_sum

lemma create_project_effect:
  assumes "create_project ev name w = (r, w')"
  shows "w_live w' = w_live w \<and> (w_db w' = w_db w \<or> (\<exists>p. add_project p (w_db w) = Inr (w_db w')))"
  using assms unfolding create_project_def Let_def
  by (auto elim!: handler_elims simp: bind_connect bind_commit ret_def)

lemma bind_boot:
  assumes "andthen (boot_vm ev iid load_from src) f w = (r, w')"
  obtains (stop) e where "r = Inl e" "w_db w' = w_db w" "w_live w' = w_live w"
    | (go) vm uds w1 where "w_db w1 = w_db w" "w_live w1 = AList.update iid vm (w_live w)" "f (vm, uds) w1 = (r, w')"
proof -
  obtain r1 w1 where m: "boot_vm ev iid load_from src w = (r1, w1)" by fastforce
  from boot_vm_live [OF m] assms m stop go show thesis
    by (cases r1) (auto simp: andthen_def split: prod.splits)
qed

lemma create_run_effect:
  assumes "create_run ev p img w = (r, w')"
  shows "(\<exists>e. r = Inl e \<and> w_db w' = w_db w \<and> w_live w' = w_live w) \<or>
    (\<exists>rid iid t1 t2 bound c1.
       add_run \<lparr>rn_id = rid, rn_project = p, rn_image = bound, rn_created = t1\<rparr> (w_db w) = Inr c1 \<and>
       add_instance \<lparr>in_id = iid, in_run = rid, in_snapshot = None, in_state = ''RUNNING'', in_branch = ''genesis'', in_created = t2\<rparr> c1
         = Inr (w_db w') \<and>
       (case r of Inl e \<Rightarrow> w_live w' = w_live w \<or> (\<exists>vm. w_live w' = AList.update iid vm (w_live w))
        | Inr j \<Rightarrow> (\<exists>vm. w_live w' = AList.update iid vm (w_live w)) \<and>
            j = JObj [(''run_id'', JStr rid), (''instance_id'', JStr iid)]))"
  using assms unfolding create_run_def
  by (auto elim!: handler_elims bind_boot simp: bind_connect bind_commit ret_def; blast)

lemma snapshot_effect:
  assumes "snapshot_instance ev iid label w = (r, w')"
  shows "w_live w' = w_live w \<and>
    ((\<exists>e. r = Inl e \<and> w_db w' = w_db w) \<or>
     (\<exists>row sid bound size t c1.
        map_of (w_live w) iid \<noteq> None \<and> select_row in_id iid (t_instances (w_db w)) = Some row \<and>
        add_snapshot \<lparr>sn_id = sid, sn_run = in_run row, sn_parent = in_snapshot row, sn_label = bound,
          sn_snap_path = snap_file ev sid ''vmstate'', sn_mem_path = snap_file ev sid ''mem'', sn_size = size, sn_created = t\<rparr> (w_db w)
          = Inr c1 \<and>
        w_db w' = update_instance iid (\<lambda>r. r\<lparr>in_snapshot := Some sid\<rparr>) c1 \<and>
        r = Inr (JObj [(''snapshot_id'', JStr sid), (''size_bytes'', JInt (int size)), (''parent'', opt_str (in_snapshot row))])))"
  using assms unfolding snapshot_instance_def Let_def
  by (auto elim!: handler_elims simp: bind_connect bind_commit ret_def throw_def simp del: of_nat_add split: option.splits; blast)

section \<open>Effect of a fork\<close>

definition register :: "(string \<times> microvm) list \<Rightarrow> (string \<times> microvm) list \<Rightarrow> (string \<times> microvm) list" where
  "register vms live = foldl (\<lambda>l kv. AList.update (fst kv) (snd kv) l) live vms"

lemma register_simps [simp]:
  "register [] live = live"
  "register (kv # vms) live = register vms (AList.update (fst kv) (snd kv) live)"
  by (simp_all add: register_def)

lemma register_keys: "fst ` set (register vms live) = fst ` set live \<union> fst ` set vms"
proof (induction vms arbitrary: live)
  case (Cons kv vms)
  then show ?case using dom_update [of "fst kv" "snd kv" live] by auto
qed simp

lemma register_old: "k \<notin> fst ` set vms \<Longrightarrow> map_of (register vms live) k = map_of live k"
  by (induction vms arbitrary: live) auto

definition child_json :: "instance_row \<Rightarrow> json" where
  "child_json row = JObj [(''instance_id'', JStr (in_id row)), (''branch'', JStr (in_branch row))]"

definition fork_row :: "snapshot_row \<Rightarrow> instance_row \<Rightarrow> bool" where
  "fork_row snap row \<longleftrightarrow> in_run row = sn_run snap \<and> in_snapshot row = Some (sn_id snap) \<and> in_state row = ''RUNNING''"

lemma fork_one_Inl:
  assumes "fork_one ev snap n i con w = (Inl e, w')"
  shows "w_db w' = w_db w \<and> (w_live w' = w_live w \<or> (\<exists>iid vm. w_live w' = AList.update iid vm (w_live w)))"
  using assms unfolding fork_one_def
  by (auto elim!: handler_elims bind_boot simp: ret_def; blast)

lemma fork_one_Inr:
  assumes "fork_one ev snap n i con w = (Inr (con', child), w')"
  shows "w_db w' = w_db w \<and> (\<exists>row vm. add_instance row con = Inr con' \<and> fork_row snap row \<and> child = child_json row \<and>
         w_live w' = AList.update (in_id row) vm (w_live w))"
proof -
  have "w_db w' = w_db w \<and> (\<exists>iid vm branch now. add_instance \<lparr>in_id = iid, in_run = sn_run snap, in_snapshot = Some (sn_id snap),
        in_state = ''RUNNING'', in_branch = branch, in_created = now\<rparr> con = Inr con' \<and>
      child = JObj [(''instance_id'', JStr iid), (''branch'', JStr branch)] \<and> w_live w' = AList.update iid vm (w_live w))"
    using assms unfolding fork_one_def
    by (auto elim!: handler_elims bind_boot simp: ret_def; fast)
  then obtain iid vm branch now where f: "w_db w' = w_db w" "add_instance \<lparr>in_id = iid, in_run = sn_run snap, in_snapshot = Some (sn_id snap),
        in_state = ''RUNNING'', in_branch = branch, in_created = now\<rparr> con = Inr con'"
      "child = JObj [(''instance_id'', JStr iid), (''branch'', JStr branch)]" "w_live w' = AList.update iid vm (w_live w)"
    by blast
  show ?thesis
    by (intro conjI exI [of _ "\<lparr>in_id = iid, in_run = sn_run snap, in_snapshot = Some (sn_id snap),
        in_state = ''RUNNING'', in_branch = branch, in_created = now\<rparr>"] exI [of _ vm])
      (simp_all add: f fork_row_def child_json_def)
qed

lemma fork_one_effect:
  assumes "fork_one ev snap n i con w = (r, w')"
  shows "w_db w' = w_db w \<and>
    (case r of
       Inl e \<Rightarrow> w_live w' = w_live w \<or> (\<exists>iid vm. w_live w' = AList.update iid vm (w_live w))
     | Inr (con', child) \<Rightarrow> \<exists>row vm. add_instance row con = Inr con' \<and> fork_row snap row \<and> child = child_json row \<and>
         w_live w' = AList.update (in_id row) vm (w_live w))"
  using assms fork_one_Inl fork_one_Inr by (cases r) fastforce+

lemma fork_loop_effect:
  "fork_loop ev snap n is con w = (r, w') \<Longrightarrow> w_db w' = w_db w \<and>
    (case r of
       Inl e \<Rightarrow> \<exists>vms. w_live w' = register vms (w_live w) \<and> length vms \<le> length is
     | Inr (con', children) \<Rightarrow> \<exists>rows vms t. insts.ins_all rows (t_instances con) = Inr t \<and>
         con' = con\<lparr>t_instances := t\<rparr> \<and> list_all (fork_row snap) rows \<and> length rows = length is \<and>
         children = map child_json rows \<and> map fst vms = map in_id rows \<and> w_live w' = register vms (w_live w))"
proof (induction "is" arbitrary: con w r w')
  case Nil
  then show ?case by (auto simp: ret_def intro!: exI [of _ "[]"])
next
  case (Cons i "is")
  obtain r1 w1 where one: "fork_one ev snap n i con w = (r1, w1)" by fastforce
  note eff = fork_one_effect [OF one]
  show ?case
  proof (cases r1)
    case (Inl e)
    with Cons.prems one have "r = Inl e" "w' = w1" by (simp_all add: andthen_def)
    with eff Inl show ?thesis
      by (auto intro: exI [of _ "[]"]) (metis One_nat_def Suc_le_mono fst_conv le0 length_Cons list.size(3) register_simps snd_conv)
  next
    case (Inr cc)
    obtain con1 child where cc: "cc = (con1, child)" by (cases cc)
    obtain row vm where row: "add_instance row con = Inr con1" "fork_row snap row" "child = child_json row"
        "w_live w1 = AList.update (in_id row) vm (w_live w)" "w_db w1 = w_db w"
      using eff Inr cc by auto
    obtain r2 w2 where two: "fork_loop ev snap n is con1 w1 = (r2, w2)" by fastforce
    note ih = Cons.IH [OF two]
    show ?thesis
    proof (cases r2)
      case (Inl e)
      with Cons.prems one two Inr cc have "r = Inl e" "w' = w2" by (simp_all add: andthen_def)
      moreover obtain vms where "w_live w2 = register vms (w_live w1)" "length vms \<le> length is"
        using ih Inl by auto
      ultimately show ?thesis using ih row(4,5) by (auto intro!: exI [of _ "(in_id row, vm) # vms"])
    next
      case (Inr c2)
      obtain con2 children where c2: "c2 = (con2, children)" by (cases c2)
      with Cons.prems one two Inr \<open>r1 = Inr cc\<close> cc have r: "r = Inr (con2, child # children)" "w' = w2"
        by (simp_all add: andthen_def ret_def)
      obtain rows vms t where rows: "insts.ins_all rows (t_instances con1) = Inr t" "con2 = con1\<lparr>t_instances := t\<rparr>"
          "list_all (fork_row snap) rows" "length rows = length is" "children = map child_json rows"
          "map fst vms = map in_id rows" "w_live w2 = register vms (w_live w1)"
        using ih Inr c2 by auto
      obtain t1 where t1: "insert_row in_id row (t_instances con) = Inr t1" "con1 = con\<lparr>t_instances := t1\<rparr>"
        using row(1) by (auto simp: add_instance_def split: sum.splits)
      have all: "insts.ins_all (row # rows) (t_instances con) = Inr t" and con2: "con2 = con\<lparr>t_instances := t\<rparr>"
        using t1 rows(1,2) by simp_all
      have live: "w_live w2 = register ((in_id row, vm) # vms) (w_live w)" using rows(7) row(4) by simp
      have db: "w_db w2 = w_db w" using ih row(5) by simp
      show ?thesis unfolding r using db all con2 live row(2,3) rows(3-6)
        by (simp del: insts.ins_all.simps register_simps)
          (intro exI conjI, assumption, simp_all del: insts.ins_all.simps register_simps)
    qed
  qed
qed

lemma bind_fork_loop:
  assumes "andthen (fork_loop ev snap n is con) f w = (r, w')"
  obtains (stop) e vms where "r = Inl e" "w_db w' = w_db w" "w_live w' = register vms (w_live w)" "length vms \<le> length is"
    | (go) rows vms t w1 where "w_db w1 = w_db w" "w_live w1 = register vms (w_live w)" "map fst vms = map in_id rows"
        "insts.ins_all rows (t_instances con) = Inr t" "list_all (fork_row snap) rows" "length rows = length is"
        "f (con\<lparr>t_instances := t\<rparr>, map child_json rows) w1 = (r, w')"
proof -
  obtain r1 w1 where m: "fork_loop ev snap n is con w = (r1, w1)" by fastforce
  note eff = fork_loop_effect [OF m]
  show thesis
  proof (cases r1)
    case (Inl e)
    with eff assms m stop show thesis by (auto simp: andthen_def)
  next
    case (Inr cc)
    with eff assms m go show thesis by (cases cc) (auto simp: andthen_def)
  qed
qed

lemma fork_effect:
  assumes "fork_snapshot ev sid n w = (r, w')"
  shows "(\<exists>e vms. r = Inl e \<and> w_db w' = w_db w \<and> w_live w' = register vms (w_live w) \<and> length vms \<le> nat n) \<or>
    (\<exists>snap rows vms t. select_row sn_id sid (t_snapshots (w_db w)) = Some snap \<and>
       insts.ins_all rows (t_instances (w_db w)) = Inr t \<and> w_db w' = (w_db w)\<lparr>t_instances := t\<rparr> \<and>
       list_all (fork_row snap) rows \<and> length rows = nat n \<and> map fst vms = map in_id rows \<and>
       w_live w' = register vms (w_live w) \<and> r = Inr (JObj [(''children'', JList (map child_json rows))]))"
proof -
  have f: "fork_snapshot ev sid n w = (case select_row sn_id sid (t_snapshots (w_db w)) of
      None \<Rightarrow> (Inl (KeyError (''no snapshot '' @ sid)), w)
    | Some snap \<Rightarrow> andthen (reconstruct_mem ev sid) (\<lambda>_.
           andthen (fork_loop ev snap n [0..<nat n] (w_db w)) (\<lambda>(con, children).
           andthen (commit con) (\<lambda>_. ret (JObj [(''children'', JList children)])))) w)"
    by (simp add: fork_snapshot_def bind_connect throw_def split: option.split)
  show ?thesis
  proof (cases "select_row sn_id sid (t_snapshots (w_db w))")
    case None
    with assms f show ?thesis by (auto intro!: exI [of _ "[]"])
  next
    case (Some snap)
    with assms f have run: "andthen (reconstruct_mem ev sid) (\<lambda>_.
           andthen (fork_loop ev snap n [0..<nat n] (w_db w)) (\<lambda>(con, children).
           andthen (commit con) (\<lambda>_. ret (JObj [(''children'', JList children)])))) w = (r, w')" by simp
    show ?thesis
    proof (rule quiet_step [OF run keeps_reconstruct])
      fix e
      assume "r = Inl e" "w_db w' = w_db w" "w_live w' = w_live w"
      then show ?thesis by (intro disjI1 exI [of _ e] exI [of _ "[]"]) simp
    next
      fix x w1
      assume go: "w_db w1 = w_db w" "w_live w1 = w_live w"
        "andthen (fork_loop ev snap n [0..<nat n] (w_db w)) (\<lambda>(con, children).
           andthen (commit con) (\<lambda>_. ret (JObj [(''children'', JList children)]))) w1 = (r, w')"
      then have loop: "andthen (fork_loop ev snap n [0..<nat n] (w_db w)) (\<lambda>(con, children).
           andthen (commit con) (\<lambda>_. ret (JObj [(''children'', JList children)]))) w1 = (r, w')" by simp
      show ?thesis
      proof (rule bind_fork_loop [OF loop])
        fix e vms
        assume "r = Inl e" "w_db w' = w_db w1" "w_live w' = register vms (w_live w1)" "length vms \<le> length [0..<nat n]"
        with go show ?thesis by (intro disjI1 exI [of _ e] exI [of _ vms]) simp
      next
        fix rows vms t w2
        assume "w_db w2 = w_db w1" "w_live w2 = register vms (w_live w1)" "map fst vms = map in_id rows"
          "insts.ins_all rows (t_instances (w_db w)) = Inr t" "list_all (fork_row snap) rows" "length rows = length [0..<nat n]"
          "(case ((w_db w)\<lparr>t_instances := t\<rparr>, map child_json rows) of (con, children) \<Rightarrow>
             andthen (commit con) (\<lambda>_. ret (JObj [(''children'', JList children)]))) w2 = (r, w')"
        with go Some show ?thesis
          by (intro disjI2 exI [of _ snap] exI [of _ rows] exI [of _ vms] exI [of _ t])
            (auto simp: bind_commit ret_def)
      qed
    qed
  qed
qed

lemma destroy_effect:
  assumes "destroy_instance ev iid w = (r, w')"
  shows "w_db w' = update_instance iid (\<lambda>r. r\<lparr>in_state := ''DESTROYED''\<rparr>) (w_db w) \<and>
    w_live w' = AList.delete iid (w_live w) \<and>
    r = Inr (JObj [(''instance_id'', JStr iid), (''state'', JStr ''DESTROYED'')])"
proof (cases "map_of (w_live w) iid")
  case None
  then have "AList.delete iid (w_live w) = w_live w"
    by (metis delete_id map_of_eq_None_iff)
  with None assms show ?thesis
    by (auto simp: destroy_instance_def andthen_def connect_def commit_def ret_def)
next
  case (Some vm)
  with assms show ?thesis
    by (auto simp: destroy_instance_def andthen_def connect_def commit_def ret_def on_host_def kill_def Let_def)
qed

section \<open>The invariant of the database\<close>

text \<open>A snapshot's parent is an older snapshot of the same run.\<close>

definition parent_ok :: "snapshot_row list \<Rightarrow> snapshot_row \<Rightarrow> bool" where
  "parent_ok older s = (case sn_parent s of None \<Rightarrow> True | Some p \<Rightarrow> (\<exists>r \<in> set older. sn_id r = p \<and> sn_run r = sn_run s))"

fun lineage :: "snapshot_row list \<Rightarrow> snapshot_row list \<Rightarrow> bool" where
  "lineage older [] = True"
| "lineage older (s # ss) = (parent_ok older s \<and> lineage (older @ [s]) ss)"

definition instance_ok :: "tables \<Rightarrow> instance_row \<Rightarrow> bool" where
  "instance_ok db i \<longleftrightarrow> in_run i \<in> rn_id ` set (t_runs db) \<and>
     (\<forall>s. in_snapshot i = Some s \<longrightarrow> (\<exists>r \<in> set (t_snapshots db). sn_id r = s \<and> sn_run r = in_run i))"

definition db_ok :: "tables \<Rightarrow> bool" where
  "db_ok db \<longleftrightarrow>
     distinct (map pj_id (t_projects db)) \<and> distinct (map rn_id (t_runs db)) \<and>
     distinct (map sn_id (t_snapshots db)) \<and> distinct (map in_id (t_instances db)) \<and>
     (\<forall>s \<in> set (t_snapshots db). sn_run s \<in> rn_id ` set (t_runs db)) \<and>
     lineage [] (t_snapshots db) \<and> (\<forall>i \<in> set (t_instances db). instance_ok db i)"

lemma lineage_snoc: "lineage older (ss @ [s]) \<longleftrightarrow> lineage older ss \<and> parent_ok (older @ ss) s"
  by (induction ss arbitrary: older) auto

lemma instance_ok_mono:
  "instance_ok db i \<Longrightarrow> set (t_runs db) \<subseteq> set (t_runs db') \<Longrightarrow> set (t_snapshots db) \<subseteq> set (t_snapshots db') \<Longrightarrow>
    instance_ok db' i"
  unfolding instance_ok_def by blast

lemma instance_ok_instances [simp]:
  "instance_ok (db\<lparr>t_instances := t\<rparr>) = instance_ok db" "instance_ok (db\<lparr>t_usage := u\<rparr>) = instance_ok db"
  by (auto simp: instance_ok_def fun_eq_iff)

lemma db_ok_add_project: "db_ok db \<Longrightarrow> add_project p db = Inr db' \<Longrightarrow> db_ok db'"
  using instance_ok_mono [of db _ db']
  by (auto simp: add_project_def db_ok_def dest!: insert_row_Inr split: sum.splits)

lemma db_ok_add_run: "db_ok db \<Longrightarrow> add_run r db = Inr db' \<Longrightarrow> db_ok db' \<and> rn_id r \<in> rn_id ` set (t_runs db')"
  using instance_ok_mono [of db _ db']
  by (auto simp: add_run_def db_ok_def subset_insertI dest!: insert_row_Inr split: sum.splits)

lemma db_ok_add_instance: "db_ok db \<Longrightarrow> instance_ok db i \<Longrightarrow> add_instance i db = Inr db' \<Longrightarrow> db_ok db'"
  using instance_ok_mono [of db _ db']
  by (auto simp: add_instance_def db_ok_def dest!: insert_row_Inr split: sum.splits)

lemma db_ok_add_snapshot:
  assumes "db_ok db" "sn_run s \<in> rn_id ` set (t_runs db)" "parent_ok (t_snapshots db) s" "add_snapshot s db = Inr db'"
  shows "db_ok db' \<and> s \<in> set (t_snapshots db') \<and> t_instances db' = t_instances db \<and> t_runs db' = t_runs db"
proof -
  obtain db': "db' = db\<lparr>t_snapshots := t_snapshots db @ [s]\<rparr>" and new: "sn_id s \<notin> sn_id ` set (t_snapshots db)"
    using assms(4) by (auto simp: add_snapshot_def dest!: insert_row_Inr split: sum.splits)
  have "\<forall>i \<in> set (t_instances db). instance_ok db' i"
    using assms(1) instance_ok_mono [of db _ db'] db' by (auto simp: db_ok_def)
  with assms(1-3) new show ?thesis by (simp add: db' db_ok_def lineage_snoc)
qed

lemma db_ok_update_instance:
  assumes "db_ok db" "\<And>i. in_id (f i) = in_id i"
    and "\<And>i. i \<in> set (t_instances db) \<Longrightarrow> in_id i = iid \<Longrightarrow> instance_ok db (f i)"
  shows "db_ok (update_instance iid f db)"
proof -
  let ?db = "update_instance iid f db"
  have ids: "map in_id (update_row in_id iid f (t_instances db)) = map in_id (t_instances db)"
    using assms(2) by (simp add: update_row_def)
  have "instance_ok ?db i" if "i \<in> set (t_instances ?db)" for i
  proof -
    obtain r where "r \<in> set (t_instances db)" "i = (if in_id r = iid then f r else r)"
      using \<open>i \<in> set (t_instances ?db)\<close> set_update_row by (fastforce simp: update_instance_def)
    with assms have "instance_ok db i" by (simp add: db_ok_def)
    then show ?thesis by (rule instance_ok_mono) (simp_all add: update_instance_def)
  qed
  with assms(1) ids show ?thesis by (simp add: db_ok_def update_instance_def)
qed

lemma ins_all_append:
  "insts.ins_all rows t = Inr t' \<Longrightarrow> t' = t @ rows \<and> (distinct (map in_id t) \<longrightarrow> distinct (map in_id t'))"
proof (induction rows arbitrary: t)
  case (Cons r rows)
  then obtain t1 where one: "insert_row in_id r t = Inr t1" and rest: "insts.ins_all rows t1 = Inr t'"
    by (auto split: sum.splits)
  note ih = Cons.IH [OF rest] and new = insert_row_Inr [OF one]
  have "distinct (map in_id t) \<Longrightarrow> distinct (map in_id t1)" using new by simp
  with ih have "distinct (map in_id t) \<longrightarrow> distinct (map in_id t')" by blast
  moreover have "t' = t @ r # rows" using ih new by simp
  ultimately show ?case by blast
qed simp

lemma create_project_ok: "db_ok (w_db w) \<Longrightarrow> create_project ev name w = (r, w') \<Longrightarrow> db_ok (w_db w')"
  using create_project_effect [of ev name w r w'] db_ok_add_project by fastforce

lemma create_run_ok:
  assumes "db_ok (w_db w)" "create_run ev p img w = (r, w')"
  shows "db_ok (w_db w')"
proof -
  consider "w_db w' = w_db w"
    | rid iid t1 t2 bound c1 where
        "add_run \<lparr>rn_id = rid, rn_project = p, rn_image = bound, rn_created = t1\<rparr> (w_db w) = Inr c1"
        "add_instance \<lparr>in_id = iid, in_run = rid, in_snapshot = None, in_state = ''RUNNING'', in_branch = ''genesis'', in_created = t2\<rparr> c1
         = Inr (w_db w')"
    using create_run_effect [OF assms(2)] by blast
  then show ?thesis
  proof cases
    case 1
    with assms(1) show ?thesis by simp
  next
    case 2
    from db_ok_add_run [OF assms(1) 2(1)] db_ok_add_instance [OF _ _ 2(2)] show ?thesis
      by (simp add: instance_ok_def)
  qed
qed

lemma select_row_in: "select_row key k t = Some r \<Longrightarrow> r \<in> set t \<and> key r = k"
  unfolding select_row_def by (rule find_SomeD)

lemma snapshot_ok:
  assumes "db_ok (w_db w)" "snapshot_instance ev iid label w = (r, w')"
  shows "db_ok (w_db w')"
proof -
  consider "w_db w' = w_db w"
    | row sid bound size t c1 where
        "select_row in_id iid (t_instances (w_db w)) = Some row"
        "add_snapshot \<lparr>sn_id = sid, sn_run = in_run row, sn_parent = in_snapshot row, sn_label = bound,
          sn_snap_path = snap_file ev sid ''vmstate'', sn_mem_path = snap_file ev sid ''mem'', sn_size = size, sn_created = t\<rparr> (w_db w)
          = Inr c1"
        "w_db w' = update_instance iid (\<lambda>r. r\<lparr>in_snapshot := Some sid\<rparr>) c1"
    using snapshot_effect [OF assms(2)] by blast
  then show ?thesis
  proof cases
    case 1
    with assms(1) show ?thesis by simp
  next
    case 2
    let ?s = "\<lparr>sn_id = sid, sn_run = in_run row, sn_parent = in_snapshot row, sn_label = bound,
          sn_snap_path = snap_file ev sid ''vmstate'', sn_mem_path = snap_file ev sid ''mem'', sn_size = size, sn_created = t\<rparr>"
    have row: "row \<in> set (t_instances (w_db w))" "in_id row = iid" using select_row_in [OF 2(1)] by auto
    then have inst: "instance_ok (w_db w) row" using assms(1) by (simp add: db_ok_def)
    have c1: "db_ok c1 \<and> ?s \<in> set (t_snapshots c1) \<and> t_instances c1 = t_instances (w_db w) \<and> t_runs c1 = t_runs (w_db w)"
      by (rule db_ok_add_snapshot [OF assms(1) _ _ 2(2)]) (use inst in \<open>auto simp: instance_ok_def parent_ok_def split: option.split\<close>)
    have one: "i = row" if "i \<in> set (t_instances c1)" "in_id i = iid" for i
      using that row c1 assms(1) by (auto simp: db_ok_def distinct_map inj_on_def)
    have "instance_ok c1 (row\<lparr>in_snapshot := Some sid\<rparr>)"
      using inst c1 by (auto simp: instance_ok_def intro!: bexI [of _ ?s])
    with one have "db_ok (update_instance iid (\<lambda>r. r\<lparr>in_snapshot := Some sid\<rparr>) c1)"
      using c1 by (intro db_ok_update_instance) auto
    with 2(3) show ?thesis by simp
  qed
qed

lemma fork_ok:
  assumes "db_ok (w_db w)" "fork_snapshot ev sid n w = (r, w')"
  shows "db_ok (w_db w')"
proof -
  consider "w_db w' = w_db w"
    | snap rows t where "select_row sn_id sid (t_snapshots (w_db w)) = Some snap"
        "insts.ins_all rows (t_instances (w_db w)) = Inr t" "w_db w' = (w_db w)\<lparr>t_instances := t\<rparr>" "list_all (fork_row snap) rows"
    using fork_effect [OF assms(2)] by blast
  then show ?thesis
  proof cases
    case 1
    with assms(1) show ?thesis by simp
  next
    case 2
    have snap: "snap \<in> set (t_snapshots (w_db w))" using select_row_in [OF 2(1)] by simp
    have t: "t = t_instances (w_db w) @ rows" "distinct (map in_id t)"
      using ins_all_append [OF 2(2)] assms(1) unfolding db_ok_def by blast+
    have "instance_ok (w_db w) row" if "row \<in> set rows" for row
      using that 2(4) snap assms(1) by (auto simp: instance_ok_def list_all_iff fork_row_def db_ok_def)
    then have "\<forall>i \<in> set t. instance_ok (w_db w') i"
      using t(1) assms(1) 2(3) by (auto simp: db_ok_def)
    with assms(1) t(2) 2(3) show ?thesis by (simp add: db_ok_def)
  qed
qed

lemma destroy_ok:
  assumes "db_ok (w_db w)" "destroy_instance ev iid w = (r, w')"
  shows "db_ok (w_db w')"
proof -
  have "instance_ok (w_db w) (i\<lparr>in_state := ''DESTROYED''\<rparr>)" if "i \<in> set (t_instances (w_db w))" for i
    using that assms(1) by (auto simp: db_ok_def instance_ok_def)
  then have "db_ok (update_instance iid (\<lambda>r. r\<lparr>in_state := ''DESTROYED''\<rparr>) (w_db w))"
    using assms(1) by (intro db_ok_update_instance) auto
  with destroy_effect [OF assms(2)] show ?thesis by simp
qed

section \<open>Every run of the daemon\<close>

text \<open>
  One step: a handler, whatever its outcome; an update of the usage accounts (theory \<open>Metering\<close>); the
  host moving on by itself (time, guests, files); or a restart of the daemon, which keeps the
  database and finds the host and the chunk files in any state.
\<close>

inductive engine_step :: "('v, 'srv) engine \<Rightarrow> ('v, 'srv) world \<Rightarrow> ('v, 'srv) world \<Rightarrow> bool" for ev where
  StepProject: "create_project ev name w = (r, w') \<Longrightarrow> engine_step ev w w'"
| StepRun: "create_run ev p img w = (r, w') \<Longrightarrow> engine_step ev w w'"
| StepSnapshot: "snapshot_instance ev iid label w = (r, w') \<Longrightarrow> engine_step ev w w'"
| StepFork: "fork_snapshot ev sid n w = (r, w') \<Longrightarrow> engine_step ev w w'"
| StepDestroy: "destroy_instance ev iid w = (r, w') \<Longrightarrow> engine_step ev w w'"
| StepMeter: "engine_step ev w (w\<lparr>w_db := (w_db w)\<lparr>t_usage := u\<rparr>\<rparr>)"
| StepOutside: "engine_step ev w (w\<lparr>w_host := h\<rparr>)"
| StepRestart: "init_db ev chunk_files srv (w_db w) h ids toks = (r, w') \<Longrightarrow> engine_step ev w w'"

inductive_cases engine_stepE: "engine_step ev w w'"

lemma init_db_effect:
  assumes "init_db ev chunk_files srv db h ids toks = (r, w')"
  shows "w_live w' = [] \<and> (w_db w' = db \<or> (\<exists>p. add_project p db = Inr (w_db w')))"
proof (cases "cas_init (ev_cas ev) chunk_files srv")
  case (Pair r1 srv')
  show ?thesis
  proof (cases r1)
    case (Inl e)
    with assms Pair show ?thesis by (auto simp: init_db_def)
  next
    case (Inr store)
    let ?w = "\<lparr>w_host = h, w_db = db, w_live = [], w_store = store, w_ids = ids, w_tokens = toks\<rparr>"
    obtain r2 w2 where cp: "create_project ev (JStr ''default'') ?w = (r2, w2)" by fastforce
    note eff = create_project_effect [OF cp]
    show ?thesis
    proof (cases "t_projects db = []")
      case True
      with assms Pair Inr cp eff show ?thesis
        by (cases r2) (auto simp: init_db_def andthen_def dest!: frame_dests)
    qed (use assms Pair Inr in \<open>auto simp: init_db_def\<close>)
  qed
qed

lemma engine_step_ok: "engine_step ev w w' \<Longrightarrow> db_ok (w_db w) \<Longrightarrow> db_ok (w_db w')"
proof (induction rule: engine_step.induct)
  case (StepMeter w u)
  then show ?case by (simp add: db_ok_def instance_ok_def)
next
  case (StepRestart chunk_files srv w h ids toks r w')
  with init_db_effect [OF StepRestart.hyps] db_ok_add_project show ?case by auto
qed (auto intro: create_project_ok create_run_ok snapshot_ok fork_ok destroy_ok)

lemma add_frames:
  "add_project p db = Inr db' \<Longrightarrow> t_snapshots db' = t_snapshots db \<and> t_runs db' = t_runs db"
  "add_run rn db = Inr db' \<Longrightarrow> t_snapshots db' = t_snapshots db \<and> t_runs db' = t_runs db @ [rn]"
  "add_instance i db = Inr db' \<Longrightarrow> t_snapshots db' = t_snapshots db \<and> t_runs db' = t_runs db"
  "add_snapshot s db = Inr db' \<Longrightarrow> t_snapshots db' = t_snapshots db @ [s] \<and> t_runs db' = t_runs db"
  by (auto simp: add_project_def add_run_def add_instance_def add_snapshot_def dest!: insert_row_Inr split: sum.splits)

definition grows :: "tables \<Rightarrow> tables \<Rightarrow> bool" where
  "grows db db' \<longleftrightarrow> (\<exists>xs. t_snapshots db' = t_snapshots db @ xs) \<and> (\<exists>xs. t_runs db' = t_runs db @ xs)"

lemma growsI: "t_snapshots db' = t_snapshots db @ xs \<Longrightarrow> t_runs db' = t_runs db @ ys \<Longrightarrow> grows db db'"
  by (auto simp: grows_def)

lemma grows_refl: "t_snapshots db' = t_snapshots db \<Longrightarrow> t_runs db' = t_runs db \<Longrightarrow> grows db db'"
  by (auto simp: grows_def)

lemma grows_trans: "grows a b \<Longrightarrow> grows b c \<Longrightarrow> grows a c"
  by (auto simp: grows_def)

lemma engine_step_grows: "engine_step ev w w' \<Longrightarrow> grows (w_db w) (w_db w')"
proof (induction rule: engine_step.induct)
  case (StepProject name w r w')
  with create_project_effect [OF StepProject.hyps] add_frames(1) show ?case by (auto intro: grows_refl)
next
  case (StepRun p img w r w')
  consider "w_db w' = w_db w" | rn i c1 where "add_run rn (w_db w) = Inr c1" "add_instance i c1 = Inr (w_db w')"
    using create_run_effect [OF StepRun.hyps] by blast
  then show ?case
  proof cases
    case 2
    with add_frames(2) [OF 2(1)] add_frames(3) [OF 2(2)] show ?thesis by (auto intro: growsI [of _ _ "[]" "[rn]"])
  qed (auto intro: grows_refl)
next
  case (StepSnapshot iid label w r w')
  consider "w_db w' = w_db w" | s sid c1 where "add_snapshot s (w_db w) = Inr c1"
      "w_db w' = update_instance iid (\<lambda>r. r\<lparr>in_snapshot := Some sid\<rparr>) c1"
    using snapshot_effect [OF StepSnapshot.hyps] by blast
  then show ?case
  proof cases
    case 2
    with add_frames(4) [OF 2(1)] show ?thesis by (auto simp: update_instance_def intro: growsI [of _ _ "[s]" "[]"])
  qed (auto intro: grows_refl)
next
  case (StepFork sid n w r w')
  consider "w_db w' = w_db w" | t where "w_db w' = (w_db w)\<lparr>t_instances := t\<rparr>"
    using fork_effect [OF StepFork.hyps] by blast
  then show ?case by cases (auto intro: grows_refl)
next
  case (StepDestroy iid w r w')
  with destroy_effect [OF StepDestroy.hyps] show ?case by (auto simp: update_instance_def intro: grows_refl)
next
  case (StepRestart chunk_files srv w h ids toks r w')
  with init_db_effect [OF StepRestart.hyps] add_frames(1) show ?case by (auto intro: grows_refl)
qed (auto intro: grows_refl)

text \<open>Well-formedness and growth over any number of steps.\<close>

lemma engine_steps_ok: "(engine_step ev)\<^sup>*\<^sup>* w w' \<Longrightarrow> db_ok (w_db w) \<Longrightarrow> db_ok (w_db w')"
  by (induction rule: rtranclp_induct) (auto intro: engine_step_ok)

text \<open>
  What ownership rests on never goes away: projects and runs are only appended, and instances keep
  their run.
\<close>

definition claims_kept :: "tables \<Rightarrow> tables \<Rightarrow> bool" where
  "claims_kept db db' \<longleftrightarrow> (\<exists>xs. t_projects db' = t_projects db @ xs) \<and> (\<exists>xs. t_runs db' = t_runs db @ xs) \<and>
     (\<exists>xs. map (\<lambda>i. (in_id i, in_run i)) (t_instances db') = map (\<lambda>i. (in_id i, in_run i)) (t_instances db) @ xs)"

lemma claims_kept_refl: "claims_kept db db"
  by (simp add: claims_kept_def)

lemma claims_kept_trans: "claims_kept a b \<Longrightarrow> claims_kept b c \<Longrightarrow> claims_kept a c"
  unfolding claims_kept_def by (elim conjE exE) simp

lemma claims_add:
  "add_project p db = Inr db' \<Longrightarrow> claims_kept db db'"
  "add_run rn db = Inr db' \<Longrightarrow> claims_kept db db'"
  "add_instance i db = Inr db' \<Longrightarrow> claims_kept db db'"
  "add_snapshot s db = Inr db' \<Longrightarrow> claims_kept db db'"
  by (auto simp: claims_kept_def add_project_def add_run_def add_instance_def add_snapshot_def dest!: insert_row_Inr split: sum.splits)

lemma claims_update:
  assumes "\<And>i. in_id (f i) = in_id i \<and> in_run (f i) = in_run i"
  shows "claims_kept db (update_instance iid f db)"
proof -
  have "map (\<lambda>i. (in_id i, in_run i)) (update_row in_id iid f t) = map (\<lambda>i. (in_id i, in_run i)) t" for t
    using assms by (induction t) (auto simp: update_row_def)
  then show ?thesis by (simp add: claims_kept_def update_instance_def)
qed

lemma engine_step_claims: "engine_step ev w w' \<Longrightarrow> claims_kept (w_db w) (w_db w')"
proof (induction rule: engine_step.induct)
  case (StepProject name w r w')
  with create_project_effect [OF StepProject.hyps] claims_add(1) show ?case by (auto intro: claims_kept_refl)
next
  case (StepRun p img w r w')
  consider "w_db w' = w_db w" | rn i c1 where "add_run rn (w_db w) = Inr c1" "add_instance i c1 = Inr (w_db w')"
    using create_run_effect [OF StepRun.hyps] by blast
  then show ?case
    by cases (auto intro: claims_kept_refl claims_kept_trans [OF claims_add(2) claims_add(3)])
next
  case (StepSnapshot iid label w r w')
  consider "w_db w' = w_db w" | s sid c1 where "add_snapshot s (w_db w) = Inr c1"
      "w_db w' = update_instance iid (\<lambda>r. r\<lparr>in_snapshot := Some sid\<rparr>) c1"
    using snapshot_effect [OF StepSnapshot.hyps] by blast
  then show ?case
  proof cases
    case 2
    with claims_kept_trans [OF claims_add(4) [OF 2(1)] claims_update] show ?thesis by simp
  qed (simp add: claims_kept_refl)
next
  case (StepFork sid n w r w')
  consider "w_db w' = w_db w" | rows t where "insts.ins_all rows (t_instances (w_db w)) = Inr t" "w_db w' = (w_db w)\<lparr>t_instances := t\<rparr>"
    using fork_effect [OF StepFork.hyps] by blast
  then show ?case
  proof cases
    case 2
    with ins_all_append [OF 2(1)] show ?thesis by (simp add: claims_kept_def)
  qed (simp add: claims_kept_refl)
next
  case (StepDestroy iid w r w')
  with destroy_effect [OF StepDestroy.hyps] show ?case by (simp add: claims_update)
next
  case (StepMeter w u)
  then show ?case by (simp add: claims_kept_def)
next
  case (StepRestart chunk_files srv w h ids toks r w')
  with init_db_effect [OF StepRestart.hyps] claims_add(1) show ?case by (auto intro: claims_kept_refl)
qed (simp add: claims_kept_refl)

lemma engine_steps_claims: "(engine_step ev)\<^sup>*\<^sup>* w w' \<Longrightarrow> claims_kept (w_db w) (w_db w')"
  by (induction rule: rtranclp_induct) (auto intro: claims_kept_refl claims_kept_trans dest: engine_step_claims)

end
