(* ===== verification/Engine_Properties.thy ===== *)
theory Engine_Properties
  imports Engine_Lineage
begin

text \<open>
  The properties of the engine: lineage over every run of the daemon, what a fork returns and what a
  failed fork leaves behind, and the way of a memory image from snapshot to fork. Witnesses run the
  handlers on a toy host whose Firecracker accepts every request and whose guests answer.
\<close>

section \<open>A toy host\<close>

text \<open>
  The machine state counts the Firecracker processes that run; \<open>demo_limit\<close> of them can, the next
  start fails, and killing one also ends those started after it. The guests answer each type of request with its status.
\<close>

definition demo_status :: "json \<Rightarrow> json" where
  "demo_status msg = JObj [(''status'', JStr (case json_field msg ''type'' of
     JStr t \<Rightarrow> if t = ''PING'' then ''PONG'' else if t = ''FORKED'' then ''READY'' else ''QUIESCED'' | _ \<Rightarrow> ''ERR''))]"

definition demo_plat :: "nat \<Rightarrow> nat platform" where
  "demo_plat demo_limit = \<lparr>pf_codec = number_codec,
     pf_http = (\<lambda>sock meth path body h. (Inr (204, []), h)),
     pf_popen = (\<lambda>cmd h. if h_mach h < demo_limit
        then (Inr (h_mach h), h\<lparr>h_files := (\<lambda>p. if drop (length p - 5) p = ''.sock'' then Some [] else h_files h p), h_mach := h_mach h + 1\<rparr>)
        else (Inl (OSError ''fork''), h)),
     pf_alive = (\<lambda>pid h. pid < h_mach h), pf_sigkill = (\<lambda>pid h. h\<lparr>h_mach := min pid (h_mach h)\<rparr>),
     pf_connect = (\<lambda>_ _ h. (Inr [[79, 75, 32, 10]], h)),
     pf_send = (\<lambda>_ d h. (Inr [case loads number_codec (first_line d) of Inr msg \<Rightarrow> frame number_codec (demo_status msg) | Inl e \<Rightarrow> []], h)),
     pf_run = (\<lambda>_ h. (Inr (), h)), pf_idle = (\<lambda>_ h. h)\<rparr>"

definition demo_engine :: "nat \<Rightarrow> (nat, unit) engine" where
  "demo_engine demo_limit = \<lparr>ev_plat = demo_plat demo_limit, ev_cas = demo_cfg, ev_sched = (\<lambda>q. q), ev_sha256 = (\<lambda>b. b),
     ev_id = (\<lambda>n. ''id'' @ show_nat n), ev_token = (\<lambda>n. show_nat n), ev_str = (\<lambda>_. ''{}''),
     ev_mkdtemp = (\<lambda>_. ''t''), ev_tree = (\<lambda>_ _. []), ev_sha1 = (\<lambda>b. b),
     ev_home = ''h'', ev_kernel = ''k'', ev_rootfs = ''r''\<rparr>"

definition demo_tables :: tables where
  "demo_tables = \<lparr>t_projects = [\<lparr>pj_id = ''p'', pj_name = JNull, pj_key_hash = hex_of (encode ''k''), pj_created = 0\<rparr>],
     t_runs = [\<lparr>rn_id = ''r'', rn_project = ''p'', rn_image = JStr ''i'', rn_created = 0\<rparr>],
     t_snapshots = [\<lparr>sn_id = ''s'', sn_run = ''r'', sn_parent = None, sn_label = JStr ''l'', sn_snap_path = ''v'', sn_mem_path = ''m'',
       sn_size = 1, sn_created = 0\<rparr>],
     t_instances = [], t_usage = []\<rparr>"

definition demo_world :: "(nat, unit) world" where
  "demo_world = \<lparr>w_host = \<lparr>h_files = (\<lambda>_. None), h_clock = 0, h_mach = 0\<rparr>, w_db = demo_tables, w_live = [],
     w_store = cas_new (\<lambda>_. None) (), w_ids = 0, w_tokens = 0\<rparr>"

lemma demo_tables_ok: "db_ok demo_tables"
  by (simp add: db_ok_def demo_tables_def parent_ok_def)

subsection \<open>What the handlers do on it\<close>

lemma forward_same [simp]: "h_clock h' = h_clock h \<Longrightarrow> forward h h' = h'"
  by (simp add: forward_def)

lemma demo_exchange:
  assumes "demo_status msg = reply"
  shows "vsock_request (demo_plat k) uds port msg h = (Inr reply, h)"
proof -
  have ack: "recv_line [[79, 75, 32, 10]] [] = ([79, 75, 32, 10], [])" by simp
  have okay: "take 2 [79, 75, 32, 10] = encode ''OK''" by (simp add: encode_def of_char_def)
  have line: "first_line (frame number_codec j) = dumps number_codec j" for j
    using first_line_frame [OF number_codec_ok, of j "[]"] by simp
  have "first_line (fst (recv_line [frame number_codec reply] [])) = dumps number_codec reply"
  proof (rule recv_frame [OF number_codec_ok, of _ _ "[]"])
    show "[] \<notin> set [frame number_codec reply]" by (simp add: frame_def encode_def)
  qed simp
  moreover have "dumps number_codec reply \<noteq> []" using number_codec_ok [of reply] by (simp add: codec_ok_def)
  ultimately show ?thesis using assms ack okay
    by (simp add: vsock_request_def demo_plat_def timed_def andthen_def lift_sum_def forward_def line del: recv_line.simps)
qed

lemma demo_vsock_request:
  "vsock_request (demo_plat k) uds 5000 (JObj ((''type'', JStr ''PING'') # kvs)) h = (Inr (JObj [(''status'', JStr ''PONG'')]), h)"
  "vsock_request (demo_plat k) uds 5000 (JObj ((''type'', JStr ''FORKED'') # kvs)) h = (Inr (JObj [(''status'', JStr ''READY'')]), h)"
  "vsock_request (demo_plat k) uds 5000 (JObj ((''type'', JStr ''QUIESCE'') # kvs)) h = (Inr (JObj [(''status'', JStr ''QUIESCED'')]), h)"
  by (simp_all add: demo_exchange demo_status_def)

lemma demo_requests: "run_requests (demo_plat k) sock rs h = (Inr (), h)"
proof (induction rs)
  case (Cons rq rs)
  then show ?case
    by (cases rq) (simp add: fc_req_def timed_def andthen_def demo_plat_def ret_def)
qed (simp add: ret_def)

lemma demo_await_sock:
  assumes "exists_file (mv_sock vm) h" "h_clock h < deadline"
  shows "await_sock (demo_plat k) vm deadline h = (Inr (), h)"
  using assms by (subst await_sock.simps)
    (simp add: try_api_def fc_req_def timed_def andthen_def demo_plat_def ret_def throw_def)

lemma demo_popen:
  "pf_popen (demo_plat k) cmd h = (if h_mach h < k
     then (Inr (h_mach h), h\<lparr>h_files := (\<lambda>p. if drop (length p - 5) p = ''.sock'' then Some [] else h_files h p), h_mach := h_mach h + 1\<rparr>)
     else (Inl (OSError ''fork''), h))"
  by (simp add: demo_plat_def)

text \<open>No disk image exists yet.\<close>

definition blank :: "'v host \<Rightarrow> bool" where
  "blank h \<longleftrightarrow> (\<forall>q. h_files h (q @ ''.ext4'') = None)"

lemma demo_spawn:
  assumes "mv_sock vm = p @ ''.sock''" "mv_console vm = Some (c @ ''console'')" "blank h"
  shows "h_mach h < k \<Longrightarrow> \<exists>h'. spawn (demo_plat k) vm h = (Inr (vm\<lparr>mv_proc := Some (h_mach h)\<rparr>), h') \<and>
      h_mach h' = h_mach h + 1 \<and> blank h'"
    and "k \<le> h_mach h \<Longrightarrow> \<exists>h'. spawn (demo_plat k) vm h = (Inl (OSError ''fork''), h')"
proof -
  have e: "drop (length (q @ ''.ext4'') - 5) (q @ ''.ext4'') = ''.ext4''" for q :: string by simp
  have c: "q @ ''.ext4'' \<noteq> c @ ''console''" for q
  proof
    assume "q @ ''.ext4'' = c @ ''console''"
    then have "last (q @ ''.ext4'') = last (c @ ''console'')" by simp
    then show False by simp
  qed
  have s: "q @ ''.ext4'' \<noteq> p @ ''.sock''" for q by simp
  { assume "h_mach h < k"
    with assms show "\<exists>h'. spawn (demo_plat k) vm h = (Inr (vm\<lparr>mv_proc := Some (h_mach h)\<rparr>), h') \<and>
      h_mach h' = h_mach h + 1 \<and> blank h'"
      using e c s by (simp add: spawn_def Let_def andthen_def remove_file_def write_file_def timed_def demo_popen ret_def time_now_def
        demo_await_sock exists_file_def blank_def) }
  { assume "k \<le> h_mach h"
    with assms show "\<exists>h'. spawn (demo_plat k) vm h = (Inl (OSError ''fork''), h')"
      by (simp add: spawn_def Let_def andthen_def remove_file_def write_file_def timed_def demo_popen ret_def time_now_def
        exists_file_def) }
qed

lemma demo_boot:
  assumes "blank (w_host w)" and "src = q @ ''.ext4''"
  shows "h_mach (w_host w) < k \<Longrightarrow> \<exists>vm h'. boot_vm (demo_engine k) iid (Some (sp, mp)) (Some src) w =
      (Inr (vm, path_join (instance_dir (demo_engine k) iid) ''vm.vsock''), w\<lparr>w_host := h', w_live := AList.update iid vm (w_live w)\<rparr>) \<and>
      h_mach h' = h_mach (w_host w) + 1 \<and> blank h'"
    and "k \<le> h_mach (w_host w) \<Longrightarrow> \<exists>h'. boot_vm (demo_engine k) iid (Some (sp, mp)) (Some src) w =
      (Inl (OSError ''fork''), w\<lparr>w_host := h'\<rparr>)"
proof -
  let ?d = "instance_dir (demo_engine k) iid"
  let ?vm = "microvm_init (engine_spec (demo_engine k)) ?d ''vm'' (Some (path_join ?d ''console'')) (Some (baked, ?d))"
  have sock: "mv_sock ?vm = path_join ?d ''vm'' @ ''.sock''" "mv_console ?vm = Some ((?d @ ''/'') @ ''console'')"
    by (simp_all add: microvm_init_def path_join_def)
  have "path_join ?d ''scratch.ext4'' = (?d @ ''/scratch'') @ ''.ext4''" by (simp add: path_join_def)
  then have no: "\<not> exists_file (path_join ?d ''scratch.ext4'') (w_host w)" "\<not> exists_file src (w_host w)"
    using assms by (metis blank_def exists_file_def)+
  have scr: "(if src \<noteq> [] \<and> exists_file src (w_host w) then copy_file src (path_join ?d ''scratch.ext4'') (w_host w)
       else if \<not> exists_file (path_join ?d ''scratch.ext4'') (w_host w)
       then make_scratch (demo_plat k) (path_join ?d ''scratch.ext4'') (w_host w) else (Inr (), w_host w)) = (Inr (), w_host w)"
    using no by (simp add: make_scratch_def andthen_def timed_def demo_plat_def)
  have plat: "ev_plat (demo_engine k) = demo_plat k" by (simp add: demo_engine_def)
  { assume "h_mach (w_host w) < k"
    from demo_spawn(1) [OF sock assms(1) this] obtain h' where
      h': "spawn (demo_plat k) ?vm (w_host w) = (Inr (?vm\<lparr>mv_proc := Some (h_mach (w_host w))\<rparr>), h')"
        "h_mach h' = h_mach (w_host w) + 1" "blank h'"
      by blast
    show "\<exists>vm h'. boot_vm (demo_engine k) iid (Some (sp, mp)) (Some src) w =
      (Inr (vm, path_join ?d ''vm.vsock''), w\<lparr>w_host := h', w_live := AList.update iid vm (w_live w)\<rparr>) \<and>
      h_mach h' = h_mach (w_host w) + 1 \<and> blank h'"
      by (intro exI [of _ "?vm\<lparr>mv_proc := Some (h_mach (w_host w))\<rparr>"] exI [of _ h'])
        (simp add: boot_vm_def Let_def andthen_def on_host_def plat scr h' load_def demo_requests) }
  { assume "k \<le> h_mach (w_host w)"
    from demo_spawn(2) [OF sock assms(1) this] obtain h' where
      h': "spawn (demo_plat k) ?vm (w_host w) = (Inl (OSError ''fork''), h')" by blast
    show "\<exists>h'. boot_vm (demo_engine k) iid (Some (sp, mp)) (Some src) w = (Inl (OSError ''fork''), w\<lparr>w_host := h'\<rparr>)"
      by (intro exI) (simp add: boot_vm_def Let_def andthen_def on_host_def plat scr h') }
qed

lemma demo_handover:
  "send_forked (demo_engine k) uds i n h = (Inr (branch_name i n), h)"
proof -
  have plat: "ev_plat (demo_engine k) = demo_plat k" by (simp add: demo_engine_def)
  have up: "await_agent (demo_plat k) uds h = (Inr True, h)"
    by (simp add: await_agent_def wait_agent.simps [of _ _ _ h] ping_def demo_vsock_request)
  show ?thesis
    by (simp add: send_forked_def plat Let_def attempt_def andthen_def up demo_vsock_request time_now_def lift_sum_def ret_def)
qed

definition demo_row :: "string \<Rightarrow> nat \<Rightarrow> int \<Rightarrow> rat \<Rightarrow> instance_row" where
  "demo_row iid i n t = \<lparr>in_id = iid, in_run = ''r'', in_snapshot = Some ''s'', in_state = ''RUNNING'',
     in_branch = branch_name i n, in_created = t\<rparr>"

lemma demo_row_simps [simp]:
  "in_id (demo_row iid i n t) = iid" "in_branch (demo_row iid i n t) = branch_name i n"
  "in_run (demo_row iid i n t) = ''r''" "in_snapshot (demo_row iid i n t) = Some ''s''" "in_state (demo_row iid i n t) = ''RUNNING''"
  by (simp_all add: demo_row_def)

definition demo_snap :: snapshot_row where
  "demo_snap = \<lparr>sn_id = ''s'', sn_run = ''r'', sn_parent = None, sn_label = JStr ''l'', sn_snap_path = ''v'', sn_mem_path = ''m'',
       sn_size = 1, sn_created = 0\<rparr>"

lemma demo_fork_one:
  assumes "blank (w_host w)" "h_mach (w_host w) < k" "ev_id (demo_engine k) (w_ids w) \<notin> in_id ` set (t_instances con)"
  shows "\<exists>vm h' t. fork_one (demo_engine k) demo_snap n i con w =
      (Inr (con\<lparr>t_instances := t_instances con @ [demo_row (ev_id (demo_engine k) (w_ids w)) i n t]\<rparr>,
            JObj [(''instance_id'', JStr (ev_id (demo_engine k) (w_ids w))), (''branch'', JStr (branch_name i n))]),
       w\<lparr>w_host := h', w_live := AList.update (ev_id (demo_engine k) (w_ids w)) vm (w_live w), w_ids := w_ids w + 1\<rparr>) \<and>
      blank h' \<and> h_mach h' = h_mach (w_host w) + 1"
proof -
  let ?iid = "ev_id (demo_engine k) (w_ids w)"
  let ?w = "w\<lparr>w_ids := w_ids w + 1\<rparr>"
  have a: "blank (w_host ?w)" using assms(1) by simp
  have src: "scratch_of (demo_engine k) (sn_id demo_snap) = ''h/snapshots/s/scratch'' @ ''.ext4''"
    by (simp add: scratch_of_def snap_file_def snapdir_def path_join_def demo_engine_def demo_snap_def)
  obtain vm h' where b: "boot_vm (demo_engine k) ?iid (Some (sn_snap_path demo_snap, sn_mem_path demo_snap))
        (Some (scratch_of (demo_engine k) (sn_id demo_snap))) ?w =
      (Inr (vm, path_join (instance_dir (demo_engine k) ?iid) ''vm.vsock''),
       ?w\<lparr>w_host := h', w_live := AList.update ?iid vm (w_live ?w)\<rparr>)" "h_mach h' = h_mach (w_host w) + 1" "blank h'"
    using demo_boot(1) [OF a src, of k ?iid "sn_snap_path demo_snap" "sn_mem_path demo_snap"] assms(2) by auto
  show ?thesis
    by (intro exI [of _ vm] exI [of _ h'] exI [of _ "h_clock h'"])
      (use assms(3) b in \<open>simp add: fork_one_def andthen_def new_id_def on_host_def demo_handover time_now_def lift_sum_def
        add_instance_def insert_row_def demo_row_def demo_snap_def ret_def\<close>)
qed

lemma demo_fork_stop:
  assumes "blank (w_host w)" "k \<le> h_mach (w_host w)"
  shows "\<exists>h'. fork_one (demo_engine k) demo_snap n i con w = (Inl (OSError ''fork''), w\<lparr>w_host := h', w_ids := w_ids w + 1\<rparr>)"
proof -
  let ?iid = "ev_id (demo_engine k) (w_ids w)"
  let ?w = "w\<lparr>w_ids := w_ids w + 1\<rparr>"
  have a: "blank (w_host ?w)" using assms(1) by simp
  have src: "scratch_of (demo_engine k) (sn_id demo_snap) = ''h/snapshots/s/scratch'' @ ''.ext4''"
    by (simp add: scratch_of_def snap_file_def snapdir_def path_join_def demo_engine_def demo_snap_def)
  obtain h' where b: "boot_vm (demo_engine k) ?iid (Some (sn_snap_path demo_snap, sn_mem_path demo_snap))
        (Some (scratch_of (demo_engine k) (sn_id demo_snap))) ?w = (Inl (OSError ''fork''), ?w\<lparr>w_host := h'\<rparr>)"
    using demo_boot(2) [OF a src, of k ?iid "sn_snap_path demo_snap" "sn_mem_path demo_snap"] assms(2) by auto
  show ?thesis
    by (intro exI [of _ h']) (use b in \<open>simp add: fork_one_def andthen_def new_id_def\<close>)
qed

lemma demo_world_facts:
  "blank (w_host demo_world)" "h_mach (w_host demo_world) = 0" "w_ids demo_world = 0" "t_instances (w_db demo_world) = []"
  "w_live demo_world = []" "w_db demo_world = demo_tables"
  "reconstruct_mem (demo_engine k) sid demo_world = (Inr (snap_file (demo_engine k) sid ''mem''), demo_world)"
  "select_row sn_id ''s'' (t_snapshots (w_db demo_world)) = Some demo_snap"
  by (simp_all add: demo_world_def blank_def demo_tables_def reconstruct_mem_def exists_file_def select_row_def demo_snap_def)

lemma demo_fork_unfold:
  "fork_snapshot (demo_engine k) ''s'' 2 demo_world =
     andthen (fork_loop (demo_engine k) demo_snap 2 [0, 1] demo_tables) (\<lambda>(con, children).
       andthen (commit con) (\<lambda>_. ret (JObj [(''children'', JList children)]))) demo_world"
proof -
  have r: "andthen (reconstruct_mem (demo_engine k) ''s'') f demo_world = f (snap_file (demo_engine k) ''s'' ''mem'') demo_world"
    for f :: "string \<Rightarrow> (nat, unit, json) enginem"
    by (simp add: andthen_def demo_world_facts)
  show ?thesis
    using demo_world_facts(6,8) by (simp add: fork_snapshot_def bind_connect r upt_rec)
qed

lemma demo_fork_two:
  "\<exists>vm1 vm2 t1 t2 w'. fork_snapshot (demo_engine 9) ''s'' 2 demo_world =
     (Inr (JObj [(''children'', JList [child_json (demo_row ''id0'' 0 2 t1), child_json (demo_row ''id1'' 1 2 t2)])]), w') \<and>
   w_db w' = demo_tables\<lparr>t_instances := [demo_row ''id0'' 0 2 t1, demo_row ''id1'' 1 2 t2]\<rparr> \<and>
   w_live w' = [(''id0'', vm1), (''id1'', vm2)]"
proof -
  have ids: "ev_id (demo_engine 9) 0 = ''id0''" "ev_id (demo_engine 9) 1 = ''id1''"
    by (simp_all add: demo_engine_def show_nat.simps digit_char_def char_of_def bit_Suc_0_iff)
  obtain vm1 h1 t1 where one: "fork_one (demo_engine 9) demo_snap 2 0 demo_tables demo_world =
      (Inr (demo_tables\<lparr>t_instances := [demo_row ''id0'' 0 2 t1]\<rparr>, child_json (demo_row ''id0'' 0 2 t1)),
       demo_world\<lparr>w_host := h1, w_live := [(''id0'', vm1)], w_ids := 1\<rparr>)" "blank h1" "h_mach h1 = 1"
    using demo_fork_one [of demo_world 9 demo_tables 2 0] ids
    by (auto simp: demo_world_facts demo_tables_def child_json_def demo_row_def)
  let ?w1 = "demo_world\<lparr>w_host := h1, w_live := [(''id0'', vm1)], w_ids := 1\<rparr>"
  let ?c1 = "demo_tables\<lparr>t_instances := [demo_row ''id0'' 0 2 t1]\<rparr>"
  obtain vm2 h2 t2 where two: "fork_one (demo_engine 9) demo_snap 2 1 ?c1 ?w1 =
      (Inr (?c1\<lparr>t_instances := t_instances ?c1 @ [demo_row ''id1'' 1 2 t2]\<rparr>,
            JObj [(''instance_id'', JStr ''id1''), (''branch'', JStr (branch_name 1 2))]),
       ?w1\<lparr>w_host := h2, w_live := AList.update ''id1'' vm2 (w_live ?w1), w_ids := w_ids ?w1 + 1\<rparr>)"
    using demo_fork_one [of ?w1 9 ?c1 2 1] ids one(2,3) by (auto simp: demo_row_def)
  show ?thesis
    by (rule exI [of _ vm1], rule exI [of _ vm2], rule exI [of _ t1], rule exI [of _ t2],
        rule exI [of _ "snd (fork_snapshot (demo_engine 9) ''s'' 2 demo_world)"])
      (simp add: demo_fork_unfold andthen_def one(1) two [simplified] commit_def ret_def child_json_def)
qed

lemma demo_fork_leak:
  "\<exists>vm w'. fork_snapshot (demo_engine 1) ''s'' 2 demo_world = (Inl (OSError ''fork''), w') \<and>
   w_db w' = demo_tables \<and> w_live w' = [(''id0'', vm)]"
proof -
  have ids: "ev_id (demo_engine 1) 0 = ''id0''"
    by (simp add: demo_engine_def show_nat.simps digit_char_def char_of_def bit_Suc_0_iff)
  obtain vm1 h1 t1 where one: "fork_one (demo_engine 1) demo_snap 2 0 demo_tables demo_world =
      (Inr (demo_tables\<lparr>t_instances := [demo_row ''id0'' 0 2 t1]\<rparr>, child_json (demo_row ''id0'' 0 2 t1)),
       demo_world\<lparr>w_host := h1, w_live := [(''id0'', vm1)], w_ids := 1\<rparr>)" "blank h1" "h_mach h1 = 1"
    using demo_fork_one [of demo_world 1 demo_tables 2 0] ids
    by (auto simp: demo_world_facts demo_tables_def child_json_def demo_row_def)
  let ?w1 = "demo_world\<lparr>w_host := h1, w_live := [(''id0'', vm1)], w_ids := 1\<rparr>"
  let ?c1 = "demo_tables\<lparr>t_instances := [demo_row ''id0'' 0 2 t1]\<rparr>"
  obtain h2 where two: "fork_one (demo_engine 1) demo_snap 2 1 ?c1 ?w1 = (Inl (OSError ''fork''), ?w1\<lparr>w_host := h2, w_ids := Suc (Suc 0)\<rparr>)"
    using demo_fork_stop [of ?w1 1 2 1 ?c1] one(2,3) by auto
  show ?thesis
    by (rule exI [of _ vm1], rule exI [of _ "snd (fork_snapshot (demo_engine 1) ''s'' 2 demo_world)"])
      (simp add: demo_fork_unfold andthen_def one(1) [simplified] two [simplified] demo_world_facts)
qed

section \<open>Lineage\<close>

text \<open>
  C3. The timeline stays well-formed: from a well-formed database, any sequence of requests (whatever
  their outcome), metering ticks, host activity and daemon restarts leads to a well-formed one. Ids
  are unique, every snapshot and instance belongs to an existing run, an instance's snapshot is of
  its own run, and a snapshot's parent is an older snapshot of the same run.
\<close>

theorem timeline_wellformed:
  assumes "(engine_step ev)\<^sup>*\<^sup>* w w'" and "db_ok (w_db w)"
  shows "db_ok (w_db w')"
  using assms by (induction rule: rtranclp_induct) (auto intro: engine_step_ok)

theorem timeline_wellformed_witness:
  "\<exists>w'. (engine_step (demo_engine 9))\<^sup>*\<^sup>* demo_world w' \<and> length (t_instances (w_db w')) = 2 \<and> db_ok (w_db w')"
proof -
  obtain vm1 vm2 t1 t2 w' where f: "fork_snapshot (demo_engine 9) ''s'' 2 demo_world =
     (Inr (JObj [(''children'', JList [child_json (demo_row ''id0'' 0 2 t1), child_json (demo_row ''id1'' 1 2 t2)])]), w')"
     "w_db w' = demo_tables\<lparr>t_instances := [demo_row ''id0'' 0 2 t1, demo_row ''id1'' 1 2 t2]\<rparr>"
    using demo_fork_two by blast
  have run: "(engine_step (demo_engine 9))\<^sup>*\<^sup>* demo_world w'"
    using StepFork [OF f(1)] by (rule r_into_rtranclp)
  from timeline_wellformed [OF run] demo_tables_ok demo_world_facts(6) run f(2) show ?thesis by auto
qed

text \<open>Following parents goes back in the list of snapshots, so it ends.\<close>

definition parent_rel :: "tables \<Rightarrow> (string \<times> string) set" where
  "parent_rel db = {(p, sn_id s) | p s. s \<in> set (t_snapshots db) \<and> sn_parent s = Some p}"

fun position :: "string \<Rightarrow> snapshot_row list \<Rightarrow> nat" where
  "position k [] = 0"
| "position k (s # ss) = (if sn_id s = k then 0 else Suc (position k ss))"

lemma position_append: "position k (xs @ ys) = (if k \<in> sn_id ` set xs then position k xs else length xs + position k ys)"
  by (induction xs) auto

lemma position_less: "k \<in> sn_id ` set xs \<Longrightarrow> position k xs < length xs"
  by (induction xs) auto

lemma lineage_parent:
  "lineage older ss \<Longrightarrow> s \<in> set ss \<Longrightarrow> sn_parent s = Some p \<Longrightarrow>
    \<exists>pre post. ss = pre @ s # post \<and> p \<in> sn_id ` set (older @ pre)"
proof (induction ss arbitrary: older)
  case (Cons x ss)
  show ?case
  proof (cases "s = x")
    case True
    with Cons.prems show ?thesis by (intro exI [of _ "[]"] exI [of _ ss]) (auto simp: parent_ok_def)
  next
    case False
    with Cons.prems Cons.IH [of "older @ [x]"] obtain pre post
      where "ss = pre @ s # post" "p \<in> sn_id ` set ((older @ [x]) @ pre)" by auto
    then show ?thesis by (intro exI [of _ "x # pre"] exI [of _ post]) auto
  qed
qed simp



text \<open>
  Snapshots are immutable: over any sequence of steps of the daemon the rows of the snapshots (and
  of the runs) taken so far stay as they are and in their order; new ones are only appended.
\<close>

theorem history_only_grows:
  assumes "(engine_step ev)\<^sup>*\<^sup>* w w'"
  shows "\<exists>ss rs. t_snapshots (w_db w') = t_snapshots (w_db w) @ ss \<and> t_runs (w_db w') = t_runs (w_db w) @ rs"
proof -
  have "grows (w_db w) (w_db w')"
    using assms
  proof (induction rule: rtranclp_induct)
    case (step y z)
    from grows_trans [OF step.IH engine_step_grows [OF step.hyps(2)]] show ?case .
  qed (simp add: grows_refl)
  then show ?thesis by (auto simp: grows_def)
qed

theorem history_only_grows_witness:
  "\<exists>w' ss. (engine_step (demo_engine 9))\<^sup>*\<^sup>* demo_world w' \<and> t_snapshots (w_db w') = demo_snap # ss \<and> t_instances (w_db w') \<noteq> []"
proof -
  obtain vm1 vm2 t1 t2 w' where f: "fork_snapshot (demo_engine 9) ''s'' 2 demo_world =
     (Inr (JObj [(''children'', JList [child_json (demo_row ''id0'' 0 2 t1), child_json (demo_row ''id1'' 1 2 t2)])]), w')"
     "w_db w' = demo_tables\<lparr>t_instances := [demo_row ''id0'' 0 2 t1, demo_row ''id1'' 1 2 t2]\<rparr>"
    using demo_fork_two by blast
  have run: "(engine_step (demo_engine 9))\<^sup>*\<^sup>* demo_world w'"
    using StepFork [OF f(1)] by (rule r_into_rtranclp)
  from history_only_grows [OF run] run f(2) show ?thesis
    by (auto simp: demo_world_facts demo_tables_def demo_snap_def)
qed

section \<open>Forks\<close>

lemma fork_effect_rows:
  assumes "db_ok (w_db w)" and "fork_snapshot ev sid n w = (Inr reply, w')"
  shows "\<exists>snap rows. select_row sn_id sid (t_snapshots (w_db w)) = Some snap \<and>
    length rows = nat n \<and> reply = JObj [(''children'', JList (map child_json rows))] \<and>
    distinct (map in_id rows) \<and> (\<forall>row \<in> set rows. select_row in_id (in_id row) (t_instances (w_db w)) = None \<and>
      select_row in_id (in_id row) (t_instances (w_db w')) = Some row \<and>
      in_run row = sn_run snap \<and> in_snapshot row = Some sid \<and> in_state row = ''RUNNING'' \<and> in_id row \<in> fst ` set (w_live w')) \<and>
    w_db w' = (w_db w)\<lparr>t_instances := t_instances (w_db w) @ rows\<rparr>"
proof -
  obtain snap rows vms t where f: "select_row sn_id sid (t_snapshots (w_db w)) = Some snap"
      "insts.ins_all rows (t_instances (w_db w)) = Inr t" "w_db w' = (w_db w)\<lparr>t_instances := t\<rparr>"
      "list_all (fork_row snap) rows" "length rows = nat n" "map fst vms = map in_id rows"
      "w_live w' = register vms (w_live w)" "reply = JObj [(''children'', JList (map child_json rows))]"
    using fork_effect [OF assms(2)] by blast
  have okay: "distinct (map in_id (t_instances (w_db w)))" using assms(1) by (simp add: db_ok_def)
  note look = insts.ins_all_look [OF okay f(2)]
  have sid: "sn_id snap = sid" using select_row_in [OF f(1)] by simp
  have live: "in_id row \<in> fst ` set (w_live w')" if "row \<in> set rows" for row
  proof -
    have "in_id row \<in> set (map fst vms)" using that f(6) by auto
    then show ?thesis by (auto simp: f(7) register_keys)
  qed
  show ?thesis
    using f look live ins_all_append [OF f(2)] sid
    by (intro exI [of _ snap] exI [of _ rows]) (auto simp: list_all_iff fork_row_def)
qed

text \<open>
  C16. A fork that returns: the reply lists \<open>n\<close> children (none for a negative \<open>n\<close>) with distinct new ids;
  exactly these are recorded, running, in the run and on the snapshot that was forked; each of them
  has a live VM; and nothing else of the database changes.
\<close>

theorem fork_records_children:
  assumes "db_ok (w_db w)" and "fork_snapshot ev sid n w = (Inr reply, w')"
  shows "\<exists>snap rows. select_row sn_id sid (t_snapshots (w_db w)) = Some snap \<and>
    length rows = nat n \<and> reply = JObj [(''children'', JList (map child_json rows))] \<and>
    distinct (map in_id rows) \<and> (\<forall>row \<in> set rows. select_row in_id (in_id row) (t_instances (w_db w)) = None \<and>
      select_row in_id (in_id row) (t_instances (w_db w')) = Some row \<and>
      in_run row = sn_run snap \<and> in_snapshot row = Some sid \<and> in_state row = ''RUNNING'' \<and> in_id row \<in> fst ` set (w_live w')) \<and>
    w_db w' = (w_db w)\<lparr>t_instances := t_instances (w_db w) @ rows\<rparr>"
  using fork_effect_rows [OF assms] .

theorem fork_records_children_witness:
  "\<exists>w' rows. fork_snapshot (demo_engine 9) ''s'' 2 demo_world = (Inr (JObj [(''children'', JList (map child_json rows))]), w') \<and>
     length rows = 2 \<and> in_id ` set rows \<subseteq> fst ` set (w_live w')"
proof -
  obtain w' reply where f: "fork_snapshot (demo_engine 9) ''s'' 2 demo_world = (Inr reply, w')"
    using demo_fork_two by blast
  have ok: "db_ok (w_db demo_world)" by (simp add: demo_world_facts demo_tables_ok)
  from fork_records_children [OF ok f] f show ?thesis by auto
qed



text \<open>
  Destroying: \<open>destroy_instance\<close> never raises, takes the instance out of the live VMs, marks its row
  and leaves every other live VM and every other row alone; doing it again changes nothing more.
\<close>

theorem destroy_is_local:
  assumes "db_ok (w_db w)" and "destroy_instance ev iid w = (r, w')"
  shows "map_of (w_live w') iid = None \<and>
    select_row in_id iid (t_instances (w_db w')) = map_option (\<lambda>i. i\<lparr>in_state := ''DESTROYED''\<rparr>) (select_row in_id iid (t_instances (w_db w))) \<and>
    (\<forall>k. k \<noteq> iid \<longrightarrow> map_of (w_live w') k = map_of (w_live w) k \<and>
      select_row in_id k (t_instances (w_db w')) = select_row in_id k (t_instances (w_db w))) \<and>
    w_db (snd (destroy_instance ev iid w')) = w_db w' \<and> w_live (snd (destroy_instance ev iid w')) = w_live w' \<and>
    r = Inr (JObj [(''instance_id'', JStr iid), (''state'', JStr ''DESTROYED'')])"
proof -
  let ?f = "\<lambda>i. i\<lparr>in_state := ''DESTROYED''\<rparr>"
  note eff = destroy_effect [OF assms(2)]
  have okay: "distinct (map in_id (t_instances (w_db w)))" using assms(1) by (simp add: db_ok_def)
  have look: "select_row in_id k (t_instances (w_db w')) =
      (if k = iid then map_option ?f (select_row in_id iid (t_instances (w_db w))) else select_row in_id k (t_instances (w_db w)))" for k
    using insts.upd_look [OF okay, of ?f k iid] eff by (simp add: update_instance_def)
  obtain r2 w2 where two: "destroy_instance ev iid w' = (r2, w2)" by fastforce
  have "update_instance iid ?f (update_instance iid ?f db) = update_instance iid ?f db" for db
    by (simp add: update_instance_def update_row_def)
  then have db: "w_db w2 = w_db w'" using destroy_effect [OF two] eff by simp
  have live: "w_live w2 = w_live w'" using destroy_effect [OF two] eff by (simp add: AList.delete_eq)
  show ?thesis using eff look db live two by simp
qed

theorem destroy_is_local_witness:
  "\<exists>vm w1 w2. fork_snapshot (demo_engine 9) ''s'' 2 demo_world = (Inr vm, w1) \<and>
     destroy_instance (demo_engine 9) ''id0'' w1 = (Inr (JObj [(''instance_id'', JStr ''id0''), (''state'', JStr ''DESTROYED'')]), w2) \<and>
     map_of (w_live w2) ''id0'' = None \<and> map_of (w_live w2) ''id1'' \<noteq> None"
proof -
  obtain vm1 vm2 t1 t2 w1 where f: "fork_snapshot (demo_engine 9) ''s'' 2 demo_world =
     (Inr (JObj [(''children'', JList [child_json (demo_row ''id0'' 0 2 t1), child_json (demo_row ''id1'' 1 2 t2)])]), w1)"
     "w_live w1 = [(''id0'', vm1), (''id1'', vm2)]"
    using demo_fork_two by blast
  have ok: "db_ok (w_db demo_world)" by (simp add: demo_world_facts demo_tables_ok)
  obtain r2 w2 where d: "destroy_instance (demo_engine 9) ''id0'' w1 = (r2, w2)" by fastforce
  from destroy_is_local [OF fork_ok [OF ok f(1)] d]
  have "map_of (w_live w2) ''id0'' = None" "map_of (w_live w2) ''id1'' = map_of (w_live w1) ''id1''"
    "r2 = Inr (JObj [(''instance_id'', JStr ''id0''), (''state'', JStr ''DESTROYED'')])" by auto
  with d f show ?thesis by auto
qed

end
