(* ===== verification/Memory_Images.thy ===== *)
theory Memory_Images
  imports Engine_Properties
begin

text \<open>
  The way of a memory image: \<open>_chunk_mem\<close> turns the file Firecracker wrote into chunks and a manifest,
  \<open>_reconstruct_mem\<close> turns them back into the file the forks load. It rests on the interface
  \<open>chunk_store\<close> as interpreted for the hot cache; and what a snapshot that fails half-way leaves behind.
\<close>

section \<open>The store as the engine uses it\<close>

lemma flush_keeps_hot:
  assumes "flush_s3 sched cfg s = (r, s')"
  shows "cs_hot s' = cs_hot s \<and> cs_index s' = cs_index s \<and> cs_stored s' = cs_stored s \<and> cs_chunks s' = cs_chunks s"
  using assms by (auto simp: flush_s3_def Let_def split: option.splits if_splits prod.splits sum.splits)

lemma flush_ok: "flush_s3 sched cfg s = (r, s') \<Longrightarrow> cas_ok cfg s' = cas_ok cfg s \<and> hot_lookup cfg s' = hot_lookup cfg s"
  using flush_keeps_hot [of sched cfg s r s'] by (auto simp: cas_ok_def hot_lookup_def fun_eq_iff)

text \<open>Writing the chunks of a manifest to a file, when all of them are in the hot cache.\<close>

lemma write_chunks_look:
  assumes "zlib_ok (ev_cas ev)" "cas_ok (ev_cas ev) (w_store w)"
    and "map (hot_lookup (ev_cas ev) (w_store w)) hs = map Some bs" and "h_files (w_host w) tmp = Some old"
  shows "write_chunks ev tmp hs w =
    (Inr (), w\<lparr>w_host := (w_host w)\<lparr>h_files := (h_files (w_host w))(tmp := Some (old @ concat bs))\<rparr>\<rparr>)"
  using assms
proof (induction hs arbitrary: bs w old)
  case Nil
  then have "(h_files (w_host w))(tmp := Some (old @ concat bs)) = h_files (w_host w)" by auto
  then show ?case by (simp add: ret_def)
next
  case (Cons h hs)
  then obtain b bs' where bs: "bs = b # bs'" and h: "hot_lookup (ev_cas ev) (w_store w) h = Some b"
      and r: "map (hot_lookup (ev_cas ev) (w_store w)) hs = map Some bs'" by (cases bs) auto
  have get: "cas_get (ev_cas ev) h (w_store w) = (Inr b, w_store w)"
    using hot.get_look [of "ev_cas ev" "w_store w" h b] Cons.prems(1,2) h by simp
  let ?w = "w\<lparr>w_host := (w_host w)\<lparr>h_files := (h_files (w_host w))(tmp := Some (old @ b))\<rparr>\<rparr>"
  have "write_chunks ev tmp (h # hs) w = write_chunks ev tmp hs ?w"
    using get Cons.prems(4) by (simp add: andthen_def on_store_def on_host_def append_file_def read_file_def write_file_def)
  also have "\<dots> = (Inr (), ?w\<lparr>w_host := (w_host ?w)\<lparr>h_files := (h_files (w_host ?w))(tmp := Some ((old @ b) @ concat bs'))\<rparr>\<rparr>)"
    using Cons.prems(1,2) r by (intro Cons.IH) simp_all
  finally show ?case by (simp add: bs fun_upd_def cong: if_cong)
qed

lemma snap_file_names:
  "snap_file ev sid ''mem.manifest'' \<noteq> snap_file ev sid ''mem''" "snap_file ev sid ''mem'' @ ''.tmp'' \<noteq> snap_file ev sid ''mem''"
  "snap_file ev sid ''mem'' @ ''.tmp'' \<noteq> snap_file ev sid ''mem.manifest''"
  by (simp_all add: snap_file_def path_join_def)

text \<open>What \<open>_chunk_mem\<close> leaves: the manifest in place of the image, and a store that has the chunks.\<close>

lemma chunk_mem_result:
  assumes "chunk_mem ev sid (snap_file ev sid ''mem'') w = (Inr n, w1)"
    and "put_file (ev_cas ev) read_buf content (w_store w) = (Inr hs, s1)"
    and "h_files (w_host w) (snap_file ev sid ''mem'') = Some content"
  shows "n = length content \<and> (\<exists>u. flush_s3 (ev_sched ev) (ev_cas ev) s1 = (Inr u, w_store w1)) \<and>
    h_files (w_host w1) (snap_file ev sid ''mem'') = None \<and>
    h_files (w_host w1) (snap_file ev sid ''mem.manifest'') = Some (encode (dumps (pf_codec (ev_plat ev)) (manifest_json hs)))"
proof -
  obtain r2 s2 where fl: "flush_s3 (ev_sched ev) (ev_cas ev) s1 = (r2, s2)" by fastforce
  show ?thesis
  proof (cases r2)
    case (Inl e)
    with assms fl show ?thesis
      by (simp add: chunk_mem_def andthen_def on_host_def on_store_def read_file_def)
  next
    case (Inr u)
    with assms fl snap_file_names(1) [of ev sid] show ?thesis
      by (auto simp: chunk_mem_def andthen_def on_host_def on_store_def read_file_def write_file_def file_size_def
          remove_file_def exists_file_def ret_def split: if_splits)
  qed
qed

lemma manifest_back [simp]: "manifest_hashes (manifest_json hs) = Inr hs"
proof -
  have "json_strings (map JStr hs) = Inr hs" by (induction hs) auto
  then show ?thesis by (simp add: manifest_hashes_def manifest_json_def)
qed

text \<open>
  C2. What is forked is what was snapshotted: if \<open>_chunk_mem\<close> returned for a memory image, then at any
  later time, after any further images went through the store, as long as the manifest is there and
  the raw file is not, \<open>_reconstruct_mem\<close> returns the path of the image and the file there has exactly
  the bytes Firecracker had written; every other file but the temporary one is as it was.
\<close>

theorem reconstructed_image_is_original:
  assumes "zlib_ok (ev_cas ev)" "cas_ok (ev_cas ev) (w_store w)" "store_fits (ev_cas ev) read_buf (w_store w) content"
    and "h_files (w_host w) (snap_file ev sid ''mem'') = Some content"
    and "put_file (ev_cas ev) read_buf content (w_store w) = (Inr hs, s1)" "codec_ok (pf_codec (ev_plat ev)) (manifest_json hs)"
    and "chunk_mem ev sid (snap_file ev sid ''mem'') w = (Inr n, w1)"
    and "w_store w2 = hot.put_many (ev_cas ev) read_buf later (w_store w1)"
    and "h_files (w_host w2) (snap_file ev sid ''mem.manifest'') = h_files (w_host w1) (snap_file ev sid ''mem.manifest'')"
    and "h_files (w_host w2) (snap_file ev sid ''mem'') = None"
  shows "n = length content \<and> (\<exists>w3. reconstruct_mem ev sid w2 = (Inr (snap_file ev sid ''mem''), w3) \<and>
    h_files (w_host w3) (snap_file ev sid ''mem'') = Some content \<and>
    (\<forall>p. p \<noteq> snap_file ev sid ''mem'' \<and> p \<noteq> snap_file ev sid ''mem'' @ ''.tmp'' \<longrightarrow> h_files (w_host w3) p = h_files (w_host w2) p))"
proof -
  let ?cfg = "ev_cas ev"
  let ?mem = "snap_file ev sid ''mem''"
  let ?tmp = "?mem @ ''.tmp''"
  note res = chunk_mem_result [OF assms(7,5,4)]
  obtain bs where bs: "map (hot_lookup ?cfg s1) hs = map Some bs" "concat bs = content"
    using hot.put_stored [of ?cfg "w_store w" read_buf content hs s1] assms(1-3,5) by blast
  have ok1: "cas_ok ?cfg s1" using hot.put_ok [of ?cfg "w_store w" read_buf content "Inr hs" s1] assms(1,2,5) by blast
  obtain u where fl: "flush_s3 (ev_sched ev) ?cfg s1 = (Inr u, w_store w1)" using res by blast
  have ok2: "cas_ok ?cfg (w_store w1)" "map (hot_lookup ?cfg (w_store w1)) hs = map Some bs"
    using flush_ok [OF fl] ok1 bs(1) by simp_all
  have ok3: "cas_ok ?cfg (w_store w2)" "map (hot_lookup ?cfg (w_store w2)) hs = map Some bs"
    using hot.put_many_grows [of ?cfg "w_store w1" read_buf later] assms(1,8) ok2
    by (auto simp: list_eq_iff_nth_eq)
  have man: "h_files (w_host w2) (snap_file ev sid ''mem.manifest'') = Some (encode (dumps (pf_codec (ev_plat ev)) (manifest_json hs)))"
    using res assms(9) by simp
  let ?w = "w2\<lparr>w_host := (w_host w2)\<lparr>h_files := (h_files (w_host w2))(?tmp := Some [])\<rparr>\<rparr>"
  let ?v = "?w\<lparr>w_host := (w_host ?w)\<lparr>h_files := (h_files (w_host ?w))(?tmp := Some content)\<rparr>\<rparr>"
  have wr: "write_chunks ev ?tmp hs ?w = (Inr (), ?v)"
    using write_chunks_look [of ev ?w hs bs ?tmp "[]"] ok3 assms(1) bs(2) by simp
  have rd: "loads (pf_codec (ev_plat ev)) (decode_bytes (encode (dumps (pf_codec (ev_plat ev)) (manifest_json hs)))) = Inr (manifest_json hs)"
    using assms(6) by (simp add: codec_ok_def)
  have "reconstruct_mem ev sid w2 =
      (Inr ?mem, ?v\<lparr>w_host := (w_host ?v)\<lparr>h_files := ((h_files (w_host ?v))(?mem := Some content))(?tmp := None)\<rparr>\<rparr>)"
    using man assms(10) snap_file_names [of ev sid]
    by (simp add: reconstruct_mem_def Let_def exists_file_def andthen_def on_host_def read_file_def lift_sum_def rd [simplified]
        write_file_def wr replace_file_def remove_file_def ret_def)
  then show ?thesis using res snap_file_names [of ev sid] by auto
qed

definition demo_manifest :: json where
  "demo_manifest = manifest_json [[CHR 0x01, CHR 0x02], [CHR 0x01, CHR 0x02], [CHR 0x03]]"

definition demo_image_engine :: "(nat, unit) engine" where
  "demo_image_engine = (demo_engine 9)\<lparr>ev_plat := (demo_plat 9)\<lparr>pf_codec :=
     \<lparr>dumps = (\<lambda>_. ''M''), loads = (\<lambda>_. Inr demo_manifest)\<rparr>\<rparr>\<rparr>"

definition demo_image_world :: "(nat, unit) world" where
  "demo_image_world = demo_world\<lparr>w_host := \<lparr>h_files = (\<lambda>_. None)(snap_file demo_image_engine ''x'' ''mem'' := Some [1, 2, 1, 2, 3]),
     h_clock = 0, h_mach = 0\<rparr>\<rparr>"

theorem reconstructed_image_is_original_witness:
  "\<exists>w1 w3. chunk_mem demo_image_engine ''x'' (snap_file demo_image_engine ''x'' ''mem'') demo_image_world = (Inr 5, w1) \<and>
     h_files (w_host w1) (snap_file demo_image_engine ''x'' ''mem'') = None \<and>
     reconstruct_mem demo_image_engine ''x'' w1 = (Inr (snap_file demo_image_engine ''x'' ''mem''), w3) \<and>
     h_files (w_host w3) (snap_file demo_image_engine ''x'' ''mem'') = Some [1, 2, 1, 2, 3]"
proof -
  let ?e = demo_image_engine
  let ?mem = "snap_file ?e ''x'' ''mem''"
  let ?hs = "[[CHR 0x01, CHR 0x02], [CHR 0x01, CHR 0x02], [CHR 0x03]]"
  let ?s = "cas_new (\<lambda>_. None) () :: unit cas"
  have cfg: "ev_cas ?e = demo_cfg" by (simp add: demo_image_engine_def demo_engine_def)
  have st: "w_store demo_image_world = ?s" by (simp add: demo_image_world_def demo_world_def)
  have fits: "store_fits demo_cfg read_buf ?s [1, 2, 1, 2, 3]"
    by (auto simp: store_fits_def collision_free_def new_stored file_blocks_def pieces.simps demo_cfg_def
        blocks_def inj_on_def read_buf_def)
  have ok: "cas_ok demo_cfg ?s" by (rule new_cas_ok) (simp add: demo_cfg_def)
  have "\<exists>s1. put_file demo_cfg read_buf [1, 2, 1, 2, 3] ?s = (Inr ?hs, s1)"
    by (simp add: put_file_def pieces.simps demo_cfg_def put_bytes_def blocks_def put_block_def cas_new_def read_buf_def
        andthen_def ret_def tier_of_def Let_def chunk_key_def char_of_def bit_Suc_0_iff)
  then obtain s1 where put: "put_file demo_cfg read_buf [1, 2, 1, 2, 3] ?s = (Inr ?hs, s1)" by blast
  have img: "h_files (w_host demo_image_world) ?mem = Some [1, 2, 1, 2, 3]" by (simp add: demo_image_world_def)
  have ck: "codec_ok (pf_codec (ev_plat ?e)) (manifest_json ?hs)"
    by (simp add: codec_ok_def demo_image_engine_def demo_manifest_def)
  have tier: "tier_of demo_cfg = None" by (simp add: tier_of_def demo_cfg_def)
  have "\<exists>w1. chunk_mem ?e ''x'' ?mem demo_image_world = (Inr 5, w1)"
    using img snap_file_names(1) [of ?e "''x''"]
    by (simp add: chunk_mem_def andthen_def on_host_def on_store_def read_file_def cfg st put flush_s3_def tier write_file_def
        file_size_def remove_file_def exists_file_def ret_def)
  then obtain w1 where ch: "chunk_mem ?e ''x'' ?mem demo_image_world = (Inr 5, w1)" by blast
  have no: "h_files (w_host w1) ?mem = None"
    using chunk_mem_result [OF ch, of "[1, 2, 1, 2, 3]" ?hs s1] put img by (simp add: cfg st)
  from reconstructed_image_is_original [of ?e demo_image_world "[1, 2, 1, 2, 3]" "''x''" ?hs s1 5 w1 w1 "[]"]
  show ?thesis using demo_zlib ok fits img put ck ch no by (auto simp: cfg st)
qed

section \<open>A snapshot that fails after the pause\<close>

text \<open>Only the API socket writes to the log of API requests.\<close>

definition api_log :: "('v \<Rightarrow> api_entry list) \<Rightarrow> 'v platform \<Rightarrow> bool" where
  "api_log lg P \<longleftrightarrow> records lg P \<and>
     (\<forall>u d h r h'. pf_connect P u d h = (r, h') \<longrightarrow> lg (h_mach h') = lg (h_mach h)) \<and>
     (\<forall>u d h r h'. pf_send P u d h = (r, h') \<longrightarrow> lg (h_mach h') = lg (h_mach h)) \<and>
     (\<forall>d h. lg (h_mach (pf_idle P d h)) = lg (h_mach h))"

lemma vsock_request_log:
  assumes "api_log lg P" and "vsock_request P uds port msg h = (r, h')"
  shows "lg (h_mach h') = lg (h_mach h)"
proof -
  obtain r1 h1 where one: "pf_connect P uds (encode (''CONNECT '' @ show_nat port @ [CHR 0x0A])) h = (r1, h1)" by fastforce
  obtain r2 h2 where two: "pf_send P uds (frame (pf_codec P) msg) (forward h h1) = (r2, h2)" by fastforce
  have "lg (h_mach h1) = lg (h_mach h)" "lg (h_mach h2) = lg (h_mach (forward h h1))"
    using assms(1) one two by (auto simp: api_log_def)
  with assms(2) one two show ?thesis
    by (auto simp: vsock_request_def timed_def andthen_def Let_def throw_def ret_def lift_sum_def split: sum.splits if_splits)
qed

lemma quiesce_log:
  assumes "api_log lg P" and "quiesce P uds h = (r, h')"
  shows "lg (h_mach h') = lg (h_mach h) \<and> r = Inr ()"
proof -
  obtain r1 h1 where one: "vsock_request P uds 5000 (JObj [(''type'', JStr ''QUIESCE'')]) h = (r1, h1)" by fastforce
  have l: "lg (h_mach h1) = lg (h_mach h)" using vsock_request_log [OF assms(1) one] .
  have s: "lg (h_mach (py_sleep P d h1)) = lg (h_mach h1)" for d
    using assms(1) by (simp add: api_log_def py_sleep_def Let_def)
  show ?thesis
    using assms(2) one l s by (cases r1) (auto simp: quiesce_def attempt_def andthen_def ret_def)
qed


text \<open>A logging Firecracker that refuses to create snapshots, and an engine with one instance on it.\<close>

definition demo_refusing :: "api_entry list platform" where
  "demo_refusing = demo_fc\<lparr>
     pf_codec := \<lparr>dumps = (\<lambda>j. case json_field j ''state'' of JStr s \<Rightarrow> s | _ \<Rightarrow> ''{}''), loads = (\<lambda>_. Inr (JObj []))\<rparr>,
     pf_http := (\<lambda>sock meth path body h. (Inr (if path = ''/snapshot/create'' then 400 else 204, []),
        h\<lparr>h_mach := h_mach h @ [(meth, path, body, path \<noteq> ''/snapshot/create'')]\<rparr>))\<rparr>"

definition demo_refusing_engine :: "(api_entry list, unit) engine" where
  "demo_refusing_engine = \<lparr>ev_plat = demo_refusing, ev_cas = demo_cfg, ev_sched = (\<lambda>q. q), ev_sha256 = (\<lambda>b. b),
     ev_id = (\<lambda>n. show_nat n), ev_token = (\<lambda>n. show_nat n), ev_str = (\<lambda>_. ''{}''),
     ev_mkdtemp = (\<lambda>_. ''t''), ev_tree = (\<lambda>_ _. []), ev_sha1 = (\<lambda>b. b),
     ev_home = ''h'', ev_kernel = ''k'', ev_rootfs = ''r''\<rparr>"

definition demo_running :: "(api_entry list, unit) world" where
  "demo_running = \<lparr>w_host = demo_fc_host, w_db = demo_tables\<lparr>t_instances := [demo_row ''i'' 0 1 0]\<rparr>, w_live = [(''i'', demo_vm)],
     w_store = cas_new (\<lambda>_. None) (), w_ids = 0, w_tokens = 0\<rparr>"

lemma demo_refusing_log: "api_log (\<lambda>m. m) demo_refusing"
  by (auto simp: api_log_def records_def demo_refusing_def demo_fc_def accepted_def)


end
