(* ===== verification/Metering.thy ===== *)
theory Metering
  imports Engine_Properties
begin

text \<open>
  Metering (\<open>_meter_tick\<close>, \<open>usage\<close> of \<open>spikes/engine/kladosd.py\<close>): what a tick accrues to each project,
  and the bill made of it. Seconds, hours and dollars are rationals.
\<close>

section \<open>Ticks\<close>

definition image_gib :: rat where "image_gib = of_nat image_mem_mib / 1024"

text \<open>The loop over the live instances; an instance without a row is skipped.\<close>

fun accrue :: "tables \<Rightarrow> rat \<Rightarrow> string list \<Rightarrow> (string \<times> rat \<times> rat) list \<Rightarrow> (string \<times> rat \<times> rat) list" where
  "accrue db dt [] accr = accr"
| "accrue db dt (iid # iids) accr =
     (case project_of Instances iid db of
        None \<Rightarrow> accrue db dt iids accr
      | Some p \<Rightarrow>
          (let (v, g) = (case map_of accr p of None \<Rightarrow> (0, 0) | Some a \<Rightarrow> a)
           in accrue db dt iids (AList.update p (v + 1 * dt, g + image_gib * dt) accr)))"

text \<open>\<open>INSERT ... ON CONFLICT DO UPDATE\<close>.\<close>

definition upsert_usage :: "rat \<Rightarrow> string \<times> rat \<times> rat \<Rightarrow> usage_row list \<Rightarrow> usage_row list" where
  "upsert_usage now e t =
     (case e of (p, v, g) \<Rightarrow>
        if select_row us_project p t = None
        then t @ [\<lparr>us_project = p, us_vcpu = v, us_ram = g, us_updated = now\<rparr>]
        else update_row us_project p (\<lambda>u. u\<lparr>us_vcpu := us_vcpu u + v, us_ram := us_ram u + g, us_updated := now\<rparr>) t)"

definition meter_tick :: "rat \<Rightarrow> ('v, 'srv, unit) enginem" where
  "meter_tick dt =
     andthen connect (\<lambda>con w.
       andthen (on_host time_now) (\<lambda>now.
         commit (con\<lparr>t_usage := fold (upsert_usage now) (accrue con dt (map fst (w_live w)) []) (t_usage con)\<rparr>)) w)"

section \<open>The bill\<close>

definition price_vcpu_hr :: rat where "price_vcpu_hr = 9 / 100"
definition price_ram_gib_hr :: rat where "price_ram_gib_hr = 35 / 100"
definition price_store_gb_mo :: rat where "price_store_gb_mo = 5 / 100"

definition stored_bytes :: "string \<Rightarrow> tables \<Rightarrow> nat" where
  "stored_bytes pid db =
     sum_list (map sn_size (filter (\<lambda>s. map_option rn_project (select_row rn_id (sn_run s) (t_runs db)) = Some pid) (t_snapshots db)))"

definition seconds_of :: "(usage_row \<Rightarrow> rat) \<Rightarrow> string \<Rightarrow> tables \<Rightarrow> rat" where
  "seconds_of f pid db = (case select_row us_project pid (t_usage db) of None \<Rightarrow> 0 | Some u \<Rightarrow> f u)"

definition cost_of :: "string \<Rightarrow> tables \<Rightarrow> rat" where
  "cost_of pid db =
     (let vcpu_hr = seconds_of us_vcpu pid db / 3600; ram_hr = seconds_of us_ram pid db / 3600;
          store_gb = of_nat (stored_bytes pid db) / 10 ^ 9
      in vcpu_hr * price_vcpu_hr + ram_hr * price_ram_gib_hr + store_gb * price_store_gb_mo / 730)"

definition usage :: "string \<Rightarrow> ('v, 'srv, json) enginem" where
  "usage pid =
     andthen connect (\<lambda>con. ret (JObj
       [(''vcpu_hours'', JNum (py_round (seconds_of us_vcpu pid con / 3600) 5)),
        (''ram_gib_hours'', JNum (py_round (seconds_of us_ram pid con / 3600) 5)),
        (''stored_bytes'', JInt (int (stored_bytes pid con))),
        (''estimated_cost_usd'', JNum (py_round (cost_of pid con) 5))]))"

section \<open>What a tick adds\<close>

definition live_count :: "string \<Rightarrow> ('v, 'srv) world \<Rightarrow> nat" where
  "live_count p w = length (filter (\<lambda>iid. project_of Instances iid (w_db w) = Some p) (map fst (w_live w)))"

definition accrued :: "(string \<times> rat \<times> rat) list \<Rightarrow> string \<Rightarrow> rat \<times> rat" where
  "accrued accr p = (case map_of accr p of None \<Rightarrow> (0, 0) | Some a \<Rightarrow> a)"

lemma accrue_distinct: "distinct (map fst accr) \<Longrightarrow> distinct (map fst (accrue db dt iids accr))"
  by (induction iids arbitrary: accr) (auto simp: distinct_update Let_def split: option.split prod.split)

lemma accrue_total:
  "accrued (accrue db dt iids accr) p =
    (fst (accrued accr p) + of_nat (length (filter (\<lambda>iid. project_of Instances iid db = Some p) iids)) * dt,
     snd (accrued accr p) + of_nat (length (filter (\<lambda>iid. project_of Instances iid db = Some p) iids)) * (image_gib * dt))"
proof (induction iids arbitrary: accr)
  case (Cons iid iids)
  show ?case
  proof (cases "project_of Instances iid db")
    case None
    with Cons show ?thesis by simp
  next
    case (Some q)
    obtain v g where a: "accrued accr q = (v, g)" by fastforce
    then have "accrue db dt (iid # iids) accr = accrue db dt iids (AList.update q (v + dt, g + image_gib * dt) accr)"
      using Some by (simp add: accrued_def)
    moreover have "accrued (AList.update q (v + dt, g + image_gib * dt) accr) p =
        (if p = q then (v + dt, g + image_gib * dt) else accrued accr p)"
      by (simp add: accrued_def)
    ultimately show ?thesis using Some Cons [of "AList.update q (v + dt, g + image_gib * dt) accr"] a
      by (auto simp: algebra_simps)
  qed
qed simp

lemma upsert_select:
  assumes "distinct (map us_project t)"
  shows "distinct (map us_project (upsert_usage now e t))"
    and "map_option us_vcpu (select_row us_project q (upsert_usage now (p, v, g) t)) =
      (if q = p then Some (v + (case select_row us_project p t of None \<Rightarrow> 0 | Some u \<Rightarrow> us_vcpu u))
       else map_option us_vcpu (select_row us_project q t))"
    and "map_option us_ram (select_row us_project q (upsert_usage now (p, v, g) t)) =
      (if q = p then Some (g + (case select_row us_project p t of None \<Rightarrow> 0 | Some u \<Rightarrow> us_ram u))
       else map_option us_ram (select_row us_project q t))"
proof -
  let ?new = "\<lambda>p v g. \<lparr>us_project = p, us_vcpu = v, us_ram = g, us_updated = now\<rparr>"
  let ?f = "\<lambda>v g u. u\<lparr>us_vcpu := us_vcpu u + v, us_ram := us_ram u + g, us_updated := now\<rparr>"
  have ins: "insert_row us_project (?new p v g) t = Inr (t @ [?new p v g])" if "select_row us_project p t = None" for p v g
    using that by (simp add: insert_row_def select_row_None)
  obtain p' v' g' where e: "e = (p', v', g')" by (cases e)
  show "distinct (map us_project (upsert_usage now e t))"
    using accounts.ins_okay [OF assms ins] accounts.upd_okay [OF assms, of "?f v' g'" p'] e
    by (auto simp: upsert_usage_def)
  show "map_option us_vcpu (select_row us_project q (upsert_usage now (p, v, g) t)) =
      (if q = p then Some (v + (case select_row us_project p t of None \<Rightarrow> 0 | Some u \<Rightarrow> us_vcpu u))
       else map_option us_vcpu (select_row us_project q t))"
    using accounts.ins_look [OF assms ins [of p v g], of q] accounts.upd_look [OF assms, of "?f v g" q p]
    by (auto simp: upsert_usage_def)
  show "map_option us_ram (select_row us_project q (upsert_usage now (p, v, g) t)) =
      (if q = p then Some (g + (case select_row us_project p t of None \<Rightarrow> 0 | Some u \<Rightarrow> us_ram u))
       else map_option us_ram (select_row us_project q t))"
    using accounts.ins_look [OF assms ins [of p v g], of q] accounts.upd_look [OF assms, of "?f v g" q p]
    by (auto simp: upsert_usage_def)
qed

lemma fold_upsert:
  assumes "distinct (map us_project t)" "distinct (map fst accr)"
  shows "distinct (map us_project (fold (upsert_usage now) accr t)) \<and>
    map_option us_vcpu (select_row us_project q (fold (upsert_usage now) accr t)) =
      (if q \<in> fst ` set accr then Some (fst (accrued accr q) + (case select_row us_project q t of None \<Rightarrow> 0 | Some u \<Rightarrow> us_vcpu u))
       else map_option us_vcpu (select_row us_project q t)) \<and>
    map_option us_ram (select_row us_project q (fold (upsert_usage now) accr t)) =
      (if q \<in> fst ` set accr then Some (snd (accrued accr q) + (case select_row us_project q t of None \<Rightarrow> 0 | Some u \<Rightarrow> us_ram u))
       else map_option us_ram (select_row us_project q t))"
  using assms
proof (induction accr arbitrary: t)
  case (Cons e accr)
  obtain p v g where e: "e = (p, v, g)" by (cases e)
  note up = upsert_select [OF Cons.prems(1), where now = now]
  have p: "p \<notin> fst ` set accr" and d: "distinct (map fst accr)" using Cons.prems(2) e by auto
  note ih = Cons.IH [OF up(1) [where e = e] d]
  show ?case
  proof (cases "q = p")
    case True
    with p have "map_of accr q = None" by (simp add: map_of_eq_None_iff)
    with True ih p up(2,3) [where q = q and p = p and v = v and g = g] e show ?thesis by (simp add: accrued_def)
  next
    case False
    have "(case select_row us_project q (upsert_usage now e t) of None \<Rightarrow> 0 | Some u \<Rightarrow> f u)
        = (case select_row us_project q t of None \<Rightarrow> 0 | Some u \<Rightarrow> f u)" if "f = us_vcpu \<or> f = us_ram" for f
      using that up(2,3) [where q = q and p = p and v = v and g = g] False e
      by (auto split: option.splits)
    with False ih up(2,3) [where q = q and p = p and v = v and g = g] e show ?thesis by (auto simp: accrued_def)
  qed
qed simp

lemma seconds_of_option: "seconds_of f p db = (case map_option f (select_row us_project p (t_usage db)) of None \<Rightarrow> 0 | Some x \<Rightarrow> x)"
  by (simp add: seconds_of_def option.case_eq_if option.map_sel)

text \<open>
  A tick bills exactly what runs: it adds to every project \<open>dt\<close> vCPU-seconds and \<open>dt\<close> times the
  image's GiB for each live VM whose instance row belongs to it, and changes nothing else in the
  database. A live VM without a row is billed to nobody.
\<close>

lemma tick_bills_live_instances:
  assumes "distinct (map us_project (t_usage (w_db w)))"
  shows "seconds_of us_vcpu p (w_db (snd (meter_tick dt w))) = seconds_of us_vcpu p (w_db w) + of_nat (live_count p w) * dt \<and>
    seconds_of us_ram p (w_db (snd (meter_tick dt w))) = seconds_of us_ram p (w_db w) + of_nat (live_count p w) * (image_gib * dt) \<and>
    (\<exists>u. w_db (snd (meter_tick dt w)) = (w_db w)\<lparr>t_usage := u\<rparr> \<and> distinct (map us_project u))"
proof -
  let ?accr = "accrue (w_db w) dt (map fst (w_live w)) []"
  let ?now = "h_clock (w_host w)"
  have tick: "w_db (snd (meter_tick dt w)) = (w_db w)\<lparr>t_usage := fold (upsert_usage ?now) ?accr (t_usage (w_db w))\<rparr>"
    by (simp add: meter_tick_def connect_def andthen_def on_host_def time_now_def commit_def)
  have d: "distinct (map fst ?accr)" by (rule accrue_distinct) simp
  note up = fold_upsert [OF assms d, of ?now p]
  have tot: "accrued ?accr p = (of_nat (live_count p w) * dt, of_nat (live_count p w) * (image_gib * dt))"
    using accrue_total [of "w_db w" dt "map fst (w_live w)" "[]" p] by (simp add: accrued_def live_count_def)
  have zero: "accrued ?accr p = (0, 0)" if "p \<notin> fst ` set ?accr"
    using that by (simp add: accrued_def map_of_eq_None_iff [symmetric])
  have a: "fst (accrued ?accr p) = of_nat (live_count p w) * dt" "snd (accrued ?accr p) = of_nat (live_count p w) * (image_gib * dt)"
    using tot by simp_all
  show ?thesis
  proof (cases "p \<in> fst ` set ?accr")
    case True
    with up a tick show ?thesis by (auto simp: seconds_of_def split: option.splits)
  next
    case False
    have z: "of_nat (live_count p w) * dt = 0" "of_nat (live_count p w) * (image_gib * dt) = 0"
      using zero [OF False] tot by (simp_all only: prod.inject)
    have "\<exists>u. w_db (snd (meter_tick dt w)) = (w_db w)\<lparr>t_usage := u\<rparr> \<and> distinct (map us_project u)"
      using tick up by blast
    then show ?thesis unfolding z using False up by (simp add: seconds_of_option tick)
  qed
qed

section \<open>The loop of the meter\<close>

text \<open>
  What can happen in the daemon while the meter sleeps: requests of any outcome, and the world outside.
\<close>

inductive request_step :: "('v, 'srv) engine \<Rightarrow> ('v, 'srv) world \<Rightarrow> ('v, 'srv) world \<Rightarrow> bool" for ev where
  ReqProject: "create_project ev name w = (r, w') \<Longrightarrow> request_step ev w w'"
| ReqRun: "create_run ev p img w = (r, w') \<Longrightarrow> request_step ev w w'"
| ReqSnapshot: "snapshot_instance ev iid label w = (r, w') \<Longrightarrow> request_step ev w w'"
| ReqFork: "fork_snapshot ev sid n w = (r, w') \<Longrightarrow> request_step ev w w'"
| ReqDestroy: "destroy_instance ev iid w = (r, w') \<Longrightarrow> request_step ev w w'"
| ReqOutside: "request_step ev w (w\<lparr>w_host := h\<rparr>)"

text \<open>
  One round of \<open>_meter_loop\<close>: a sleep of \<open>dt\<close>, during which \<open>between\<close> happens, then a tick whose
  exceptions are swallowed; \<open>n\<close> rounds of the endless loop.
\<close>

definition woken :: "rat \<Rightarrow> (('v, 'srv) world \<Rightarrow> ('v, 'srv) world) \<Rightarrow> ('v, 'srv) world \<Rightarrow> ('v, 'srv) world" where
  "woken dt between w =
     (let w1 = between w
      in w1\<lparr>w_host := (w_host w1)\<lparr>h_clock := max (h_clock (w_host w1)) (h_clock (w_host w) + dt)\<rparr>\<rparr>)"

definition meter_round :: "rat \<Rightarrow> (('v, 'srv) world \<Rightarrow> ('v, 'srv) world) \<Rightarrow> ('v, 'srv, unit) enginem" where
  "meter_round dt between w = attempt (meter_tick dt) (\<lambda>e. ret ()) (woken dt between w)"

fun meter_loop :: "rat \<Rightarrow> (nat \<Rightarrow> ('v, 'srv) world \<Rightarrow> ('v, 'srv) world) \<Rightarrow> nat \<Rightarrow> ('v, 'srv, unit) enginem" where
  "meter_loop dt between 0 = ret ()"
| "meter_loop dt between (Suc n) = andthen (meter_loop dt between n) (\<lambda>_. meter_round dt (between n))"

text \<open>The world the tick of round \<open>i\<close> finds.\<close>

definition sampled :: "rat \<Rightarrow> (nat \<Rightarrow> ('v, 'srv) world \<Rightarrow> ('v, 'srv) world) \<Rightarrow> ('v, 'srv) world \<Rightarrow> nat \<Rightarrow> ('v, 'srv) world" where
  "sampled dt between w i = woken dt (between i) (snd (meter_loop dt between i w))"

lemma add_usage:
  "add_project p db = Inr db' \<Longrightarrow> t_usage db' = t_usage db"
  "add_run rn db = Inr db' \<Longrightarrow> t_usage db' = t_usage db"
  "add_instance i db = Inr db' \<Longrightarrow> t_usage db' = t_usage db"
  "add_snapshot s db = Inr db' \<Longrightarrow> t_usage db' = t_usage db"
  by (auto simp: add_project_def add_run_def add_instance_def add_snapshot_def split: sum.split_asm)

lemma request_keeps_usage: "request_step ev w w' \<Longrightarrow> t_usage (w_db w') = t_usage (w_db w)"
proof (induction rule: request_step.induct)
  case (ReqProject name w r w')
  with create_project_effect [OF ReqProject.hyps] show ?case by (auto dest: add_usage)
next
  case (ReqRun p img w r w')
  with create_run_effect [OF ReqRun.hyps] show ?case by (auto dest!: add_usage)
next
  case (ReqSnapshot iid label w r w')
  with snapshot_effect [OF ReqSnapshot.hyps] show ?case by (auto simp: update_instance_def dest!: add_usage)
next
  case (ReqFork sid n w r w')
  with fork_effect [OF ReqFork.hyps] show ?case by auto
next
  case (ReqDestroy iid w r w')
  with destroy_effect [OF ReqDestroy.hyps] show ?case by (simp add: update_instance_def)
qed simp

lemma requests_keep_usage: "(request_step ev)\<^sup>*\<^sup>* w w' \<Longrightarrow> t_usage (w_db w') = t_usage (w_db w)"
  by (induction rule: rtranclp_induct) (auto dest: request_keeps_usage)

lemma woken_usage:
  assumes "(request_step ev)\<^sup>*\<^sup>* w (between w)"
  shows "t_usage (w_db (woken dt between w)) = t_usage (w_db w)" "h_clock (w_host w) + dt \<le> h_clock (w_host (woken dt between w))"
  using requests_keep_usage [OF assms] by (simp_all add: woken_def Let_def)

lemma tick_returns: "fst (meter_tick dt w) = Inr ()" "w_host (snd (meter_tick dt w)) = w_host w"
  by (simp_all add: meter_tick_def connect_def andthen_def on_host_def time_now_def commit_def)

lemma seconds_usage: "t_usage db = t_usage db' \<Longrightarrow> seconds_of f p db = seconds_of f p db'"
  by (simp add: seconds_of_def)

text \<open>
  C22. What is billed is the time of live VMs: whatever requests come in between, after \<open>n\<close> rounds of the
  meter a project's vCPU-seconds have grown by the interval times the number of its live VMs summed over
  the \<open>n\<close> instants the ticks looked, and its GiB-seconds by that times the image's GiB; and at least
  \<open>n\<close> intervals have passed, so no VM is billed for more time than has passed.
\<close>

theorem metering_bills_samples:
  assumes "distinct (map us_project (t_usage (w_db w)))" and "\<forall>i v. (request_step ev)\<^sup>*\<^sup>* v (between i v)"
  shows "\<exists>w'. meter_loop dt between n w = (Inr (), w') \<and>
    seconds_of us_vcpu p (w_db w') = seconds_of us_vcpu p (w_db w) + (\<Sum>i < n. of_nat (live_count p (sampled dt between w i))) * dt \<and>
    seconds_of us_ram p (w_db w') = seconds_of us_ram p (w_db w) + (\<Sum>i < n. of_nat (live_count p (sampled dt between w i))) * (image_gib * dt) \<and>
    h_clock (w_host w) + of_nat n * dt \<le> h_clock (w_host w')"
proof -
  have "\<exists>w'. meter_loop dt between n w = (Inr (), w') \<and> distinct (map us_project (t_usage (w_db w'))) \<and>
    seconds_of us_vcpu p (w_db w') = seconds_of us_vcpu p (w_db w) + (\<Sum>i < n. of_nat (live_count p (sampled dt between w i))) * dt \<and>
    seconds_of us_ram p (w_db w') = seconds_of us_ram p (w_db w) + (\<Sum>i < n. of_nat (live_count p (sampled dt between w i))) * (image_gib * dt) \<and>
    h_clock (w_host w) + of_nat n * dt \<le> h_clock (w_host w')"
  proof (induction n)
    case 0
    then show ?case using assms(1) by (simp add: ret_def)
  next
    case (Suc n)
    then obtain v where v: "meter_loop dt between n w = (Inr (), v)" "distinct (map us_project (t_usage (w_db v)))"
      "seconds_of us_vcpu p (w_db v) = seconds_of us_vcpu p (w_db w) + (\<Sum>i < n. of_nat (live_count p (sampled dt between w i))) * dt"
      "seconds_of us_ram p (w_db v) = seconds_of us_ram p (w_db w) + (\<Sum>i < n. of_nat (live_count p (sampled dt between w i))) * (image_gib * dt)"
      "h_clock (w_host w) + of_nat n * dt \<le> h_clock (w_host v)" by blast
    let ?u = "woken dt (between n) v"
    have st: "(request_step ev)\<^sup>*\<^sup>* v (between n v)" using assms(2) by blast
    note wk = woken_usage [of ev v "between n", OF st, of dt]
    have d: "distinct (map us_project (t_usage (w_db ?u)))" using v(2) wk(1) by simp
    have run: "meter_loop dt between (Suc n) w = (Inr (), snd (meter_tick dt ?u))"
      using v(1) tick_returns(1) [of dt ?u] by (cases "meter_tick dt ?u") (simp add: andthen_def meter_round_def attempt_def)
    have s: "sampled dt between w n = ?u" using v(1) by (simp add: sampled_def)
    have sec: "seconds_of f p (w_db ?u) = seconds_of f p (w_db v)" for f by (rule seconds_usage [OF wk(1)])
    have "h_clock (w_host w) + of_nat (Suc n) * dt \<le> h_clock (w_host (snd (meter_tick dt ?u)))"
      using v(5) wk(2) by (simp add: tick_returns(2) algebra_simps)
    with tick_bills_live_instances [OF d, of p dt] v(3,4) sec s run show ?case
      by (auto simp: algebra_simps)
  qed
  then show ?thesis by blast
qed

definition demo_metered :: "(nat, unit) world" where
  "demo_metered = demo_world\<lparr>w_db := demo_tables\<lparr>t_instances := [demo_row ''i'' 0 1 0]\<rparr>, w_live := [(''i'', demo_vm), (''leaked'', demo_vm)]\<rparr>"

theorem metering_bills_samples_witness:
  "\<exists>w'. meter_loop 2 (\<lambda>_ v. v) 1 demo_metered = (Inr (), w') \<and> seconds_of us_vcpu ''p'' (w_db w') = 2"
proof -
  have d: "distinct (map us_project (t_usage (w_db demo_metered)))" by (simp add: demo_metered_def demo_tables_def)
  have c: "live_count ''p'' (sampled 2 (\<lambda>_ v. v) demo_metered 0) = 1"
    by (simp add: live_count_def sampled_def woken_def ret_def demo_metered_def demo_tables_def project_of_def select_row_def)
  have z: "seconds_of us_vcpu ''p'' (w_db demo_metered) = 0"
    by (simp add: seconds_of_def demo_metered_def demo_tables_def select_row_def)
  have "\<forall>i v. (request_step (demo_engine 9))\<^sup>*\<^sup>* v ((\<lambda>_ v. v) (i :: nat) v)" by simp
  from metering_bills_samples [OF d this, of 2 1 "''p''"] c z show ?thesis by auto
qed

text \<open>
  The bill: the cost \<open>usage\<close> reports is the accrued seconds and stored bytes at the listed prices,
  off by rounding at most half of a hundred-thousandth of a dollar.
\<close>

theorem reported_cost_is_close:
  "\<exists>reply x. usage pid w = (Inr reply, w) \<and> json_field reply ''estimated_cost_usd'' = JNum x \<and>
    \<bar>x - (seconds_of us_vcpu pid (w_db w) * 9 / 360000 + seconds_of us_ram pid (w_db w) * 35 / 360000 +
          of_nat (stored_bytes pid (w_db w)) / 10 ^ 9 * 5 / 73000)\<bar> \<le> 1 / 200000"
proof -
  have "\<bar>py_round (cost_of pid (w_db w)) 5 - cost_of pid (w_db w)\<bar> \<le> 1 / (2 * 10 ^ 5)" by (rule py_round_error)
  moreover have "cost_of pid (w_db w) = seconds_of us_vcpu pid (w_db w) * 9 / 360000 + seconds_of us_ram pid (w_db w) * 35 / 360000 +
          of_nat (stored_bytes pid (w_db w)) / 10 ^ 9 * 5 / 73000"
    by (simp add: cost_of_def Let_def price_vcpu_hr_def price_ram_gib_hr_def price_store_gb_mo_def)
  ultimately show ?thesis by (simp add: usage_def bind_connect ret_def)
qed

end
