(* ===== verification/Fs_Diff.thy ===== *)
theory Fs_Diff
  imports Memory_Images "HOL-Library.List_Lexorder" "HOL-Library.Char_ord"
begin

text \<open>
  The filesystem diff between the sealed \<open>/data\<close> layers of two snapshots (\<open>_mount_ro\<close>, \<open>_walk_fs\<close>,
  \<open>_umount\<close>, \<open>fs_diff\<close> of \<open>spikes/engine/kladosd.py\<close>). What a mounted image holds is a parameter of the
  engine (\<open>ev_tree\<close>); \<open>sorted\<close> on strings is the lexicographic order of characters.
\<close>

section \<open>Walking and comparing\<close>

type_synonym file_index = "(string \<times> nat \<times> string) list"

text \<open>\<open>_walk_fs\<close>: size and the first twelve hex digits of the SHA-1 of every readable regular file.\<close>

fun walk_fs :: "(bytes \<Rightarrow> bytes) \<Rightarrow> (string \<times> (exn + bytes)) list \<Rightarrow> file_index \<Rightarrow> file_index" where
  "walk_fs sha1 [] out = out"
| "walk_fs sha1 ((rel, r) # fs) out =
     (if take 10 rel = ''lost+found'' then walk_fs sha1 fs out
      else case r of
             Inl e \<Rightarrow> walk_fs sha1 fs out
           | Inr d \<Rightarrow> walk_fs sha1 fs (AList.update rel (length d, take 12 (hex_of (sha1 d))) out))"

definition diff_added :: "file_index \<Rightarrow> file_index \<Rightarrow> string list" where
  "diff_added fa fb = sort (filter (\<lambda>p. map_of fa p = None) (map fst fb))"

definition diff_removed :: "file_index \<Rightarrow> file_index \<Rightarrow> string list" where
  "diff_removed fa fb = sort (filter (\<lambda>p. map_of fb p = None) (map fst fa))"

definition diff_modified :: "file_index \<Rightarrow> file_index \<Rightarrow> string list" where
  "diff_modified fa fb = sort (filter (\<lambda>p. map_of fb p \<noteq> None \<and> map_of fa p \<noteq> map_of fb p) (map fst fa))"

definition mount_ro :: "('v, 'srv) engine \<Rightarrow> string \<Rightarrow> ('v, string) hostm" where
  "mount_ro ev img h =
     (let mnt = ev_mkdtemp ev h
      in andthen (timed (pf_run (ev_plat ev) [''mount'', ''-o'', ''loop,ro,norecovery'', img, mnt])) (\<lambda>_. ret mnt) h)"

definition umount :: "('v, 'srv) engine \<Rightarrow> string \<Rightarrow> ('v, unit) hostm" where
  "umount ev mnt = attempt (timed (pf_run (ev_plat ev) [''umount'', mnt])) (\<lambda>_. ret ())"

definition str_list :: "string list \<Rightarrow> json" where
  "str_list ss = JList (map JStr ss)"

definition fs_diff :: "('v, 'srv) engine \<Rightarrow> string \<Rightarrow> string \<Rightarrow> ('v, json) hostm" where
  "fs_diff ev sid_a sid_b h =
     (let a = scratch_of ev sid_a; b = scratch_of ev sid_b
      in if \<not> (exists_file a h \<and> exists_file b h)
         then (Inr (JObj [(''error'', JStr ''one or both snapshots have no sealed disk layer'')]), h)
         else andthen (mount_ro ev a) (\<lambda>ma.
              andthen (mount_ro ev b) (\<lambda>mb.
              andthen (\<lambda>h. (Inr (walk_fs (ev_sha1 ev) (ev_tree ev ma h) [], walk_fs (ev_sha1 ev) (ev_tree ev mb h) []), h)) (\<lambda>(fa, fb).
              andthen (umount ev ma) (\<lambda>_.
              andthen (umount ev mb) (\<lambda>_.
              ret (JObj [(''a'', JStr sid_a), (''b'', JStr sid_b), (''added'', str_list (diff_added fa fb)),
                         (''removed'', str_list (diff_removed fa fb)), (''modified'', str_list (diff_modified fa fb))])))))) h)"

section \<open>What the diff lists\<close>

text \<open>The readable files of a tree, \<open>lost+found\<close> left out.\<close>

definition content_of :: "(string \<times> (exn + bytes)) list \<Rightarrow> string \<Rightarrow> bytes option" where
  "content_of tree p =
     (if take 10 p = ''lost+found'' then None
      else case map_of tree p of Some (Inr d) \<Rightarrow> Some d | _ \<Rightarrow> None)"

definition file_sig :: "(bytes \<Rightarrow> bytes) \<Rightarrow> bytes \<Rightarrow> nat \<times> string" where
  "file_sig sha1 d = (length d, take 12 (hex_of (sha1 d)))"

lemma walk_fs_distinct: "distinct (map fst out) \<Longrightarrow> distinct (map fst (walk_fs sha1 tree out))"
  by (induction sha1 tree out rule: walk_fs.induct) (auto simp: distinct_update split: sum.split)

lemma walk_fs_lookup:
  "distinct (map fst tree) \<Longrightarrow> map_of (walk_fs sha1 tree out) p =
    (case content_of tree p of None \<Rightarrow> map_of out p | Some d \<Rightarrow> Some (file_sig sha1 d))"
proof (induction sha1 tree out rule: walk_fs.induct)
  case (2 sha1 rel r fs out)
  then have notin: "map_of fs rel = None" by (simp add: map_of_eq_None_iff)
  show ?case
  proof (cases r)
    case (Inl e)
    with 2 notin show ?thesis by (auto simp: content_of_def split: option.splits)
  next
    case (Inr d)
    with 2 notin show ?thesis by (auto simp: content_of_def file_sig_def split: option.splits)
  qed
qed (simp add: content_of_def)

lemma walk_lookup: "distinct (map fst tree) \<Longrightarrow> map_of (walk_fs sha1 tree []) p = map_option (file_sig sha1) (content_of tree p)"
  by (simp add: walk_fs_lookup split: option.split)

lemma walk_keys: "distinct (map fst tree) \<Longrightarrow> p \<in> fst ` set (walk_fs sha1 tree []) \<longleftrightarrow> content_of tree p \<noteq> None"
  using walk_lookup [of tree sha1 p] map_of_eq_None_iff [of "walk_fs sha1 tree []" p] by auto

text \<open>
  C24. The diff is the difference: for two trees and a truncated hash without collisions among files of
  equal size in them, a path is listed as added exactly when only the second has it, as removed
  exactly when only the first has it, as modified exactly when both have it with different contents;
  the three lists are sorted without duplicates, and all are empty exactly when the trees hold the
  same files with the same contents.
\<close>

theorem diff_is_difference:
  assumes "distinct (map fst ta)" "distinct (map fst tb)"
    and "\<forall>p q c d. content_of ta p = Some c \<and> content_of tb q = Some d \<and> file_sig sha1 c = file_sig sha1 d \<longrightarrow> c = d"
    and "fa = walk_fs sha1 ta []" "fb = walk_fs sha1 tb []"
  shows "(p \<in> set (diff_added fa fb) \<longleftrightarrow> content_of ta p = None \<and> content_of tb p \<noteq> None) \<and>
    (p \<in> set (diff_removed fa fb) \<longleftrightarrow> content_of ta p \<noteq> None \<and> content_of tb p = None) \<and>
    (p \<in> set (diff_modified fa fb) \<longleftrightarrow> content_of ta p \<noteq> None \<and> content_of tb p \<noteq> None \<and> content_of ta p \<noteq> content_of tb p) \<and>
    (\<forall>l \<in> {diff_added fa fb, diff_removed fa fb, diff_modified fa fb}. sorted l \<and> distinct l) \<and>
    (diff_added fa fb = [] \<and> diff_removed fa fb = [] \<and> diff_modified fa fb = [] \<longleftrightarrow> content_of ta = content_of tb)"
proof -
  note la = walk_lookup [OF assms(1), of sha1] and lb = walk_lookup [OF assms(2), of sha1]
  have a: "q \<in> set (diff_added fa fb) \<longleftrightarrow> content_of ta q = None \<and> content_of tb q \<noteq> None" for q
    using walk_keys [OF assms(2), of q sha1] la by (auto simp: diff_added_def assms(4,5))
  have r: "q \<in> set (diff_removed fa fb) \<longleftrightarrow> content_of ta q \<noteq> None \<and> content_of tb q = None" for q
    using walk_keys [OF assms(1), of q sha1] lb by (auto simp: diff_removed_def assms(4,5))
  have m: "q \<in> set (diff_modified fa fb) \<longleftrightarrow> content_of ta q \<noteq> None \<and> content_of tb q \<noteq> None \<and> content_of ta q \<noteq> content_of tb q" for q
    using walk_keys [OF assms(1), of q sha1] la [of q] lb [of q] assms(3)
    by (auto simp: diff_modified_def assms(4,5))
  have "diff_added fa fb = [] \<and> diff_removed fa fb = [] \<and> diff_modified fa fb = [] \<longleftrightarrow>
      (\<forall>q. q \<notin> set (diff_added fa fb) \<and> q \<notin> set (diff_removed fa fb) \<and> q \<notin> set (diff_modified fa fb))"
    by (metis equals0D last_in_set set_empty)
  also have "\<dots> \<longleftrightarrow> (\<forall>q. content_of ta q = content_of tb q)" unfolding a r m by metis
  finally have e: "diff_added fa fb = [] \<and> diff_removed fa fb = [] \<and> diff_modified fa fb = [] \<longleftrightarrow> content_of ta = content_of tb"
    by (simp add: fun_eq_iff)
  have d: "distinct (map fst fa)" "distinct (map fst fb)" using walk_fs_distinct [of "[]"] by (simp_all add: assms(4,5))
  then have "\<forall>l \<in> {diff_added fa fb, diff_removed fa fb, diff_modified fa fb}. sorted l \<and> distinct l"
    by (simp add: diff_added_def diff_removed_def diff_modified_def)
  with a [of p] r [of p] m [of p] e show ?thesis by blast
qed

definition demo_tree_a :: "(string \<times> (exn + bytes)) list" where
  "demo_tree_a = [(''x'', Inr [1]), (''y'', Inr [2]), (''lost+found/z'', Inr [])]"

definition demo_tree_b :: "(string \<times> (exn + bytes)) list" where
  "demo_tree_b = [(''x'', Inr [3]), (''w'', Inr [2]), (''y'', Inl (OSError ''io''))]"

theorem diff_is_difference_witness:
  "''w'' \<in> set (diff_added (walk_fs (\<lambda>d. d) demo_tree_a []) (walk_fs (\<lambda>d. d) demo_tree_b [])) \<and>
   ''y'' \<in> set (diff_removed (walk_fs (\<lambda>d. d) demo_tree_a []) (walk_fs (\<lambda>d. d) demo_tree_b [])) \<and>
   ''x'' \<in> set (diff_modified (walk_fs (\<lambda>d. d) demo_tree_a []) (walk_fs (\<lambda>d. d) demo_tree_b []))"
proof -
  have d: "distinct (map fst demo_tree_a)" "distinct (map fst demo_tree_b)"
    by (simp_all add: demo_tree_a_def demo_tree_b_def)
  have short: "content_of demo_tree_a p = Some c \<Longrightarrow> length c = 1" "content_of demo_tree_b p = Some c \<Longrightarrow> length c = 1" for p c
    by (auto simp: content_of_def demo_tree_a_def demo_tree_b_def split: if_splits)
  have col: "\<forall>p q c d. content_of demo_tree_a p = Some c \<and> content_of demo_tree_b q = Some d \<and>
      file_sig (\<lambda>d. d) c = file_sig (\<lambda>d. d) d \<longrightarrow> c = d"
    using short by (fastforce simp: file_sig_def)
  show ?thesis
    using diff_is_difference [OF d col refl refl, of "''w''"] diff_is_difference [OF d col refl refl, of "''x''"]
      diff_is_difference [OF d col refl refl, of "''y''"]
    by (simp add: content_of_def demo_tree_a_def demo_tree_b_def)
qed

text \<open>
  A mount is left behind: when the second layer cannot be mounted, \<open>fs_diff\<close> raises without having
  unmounted the first, whose mount point nobody knows afterwards.
\<close>

lemma failed_diff_leaves_mount:
  assumes "exists_file (scratch_of ev a) h" "exists_file (scratch_of ev b) h"
    and "mount_ro ev (scratch_of ev a) h = (Inr ma, h1)" and "mount_ro ev (scratch_of ev b) h1 = (Inl e, h2)"
  shows "fs_diff ev a b h = (Inl e, h2)"
  using assms by (simp add: fs_diff_def Let_def andthen_def)

end
