(* ===== verification/Http_Api.thy ===== *)
theory Http_Api
  imports Metering Fs_Diff
begin

text \<open>
  The HTTP API (class \<open>H\<close> of \<open>spikes/engine/kladosd.py\<close>): authentication, routing, ownership checks and
  the translation of exceptions into statuses. A request is its method, path, key and body; the
  answer is a status and the JSON object that is sent.
\<close>

section \<open>Requests\<close>

record api_request =
  ar_path :: string
  ar_key :: string                  \<comment> \<open>the \<open>X-Api-Key\<close> header, empty when missing\<close>
  ar_length :: "string option"      \<comment> \<open>the \<open>Content-Length\<close> header\<close>
  ar_data :: bytes                  \<comment> \<open>what follows the headers\<close>

type_synonym api_answer = "nat \<times> json"

text \<open>\<open>self.path.strip("/").split("/")\<close>.\<close>

definition strip_slash :: "string \<Rightarrow> string" where
  "strip_slash s = rev (dropWhile (\<lambda>c. c = CHR ''/'') (rev (dropWhile (\<lambda>c. c = CHR ''/'') s)))"

fun split_slash :: "string \<Rightarrow> string list" where
  "split_slash [] = [[]]"
| "split_slash (c # s) =
     (case split_slash s of
        [] \<Rightarrow> [[c]]
      | p # ps \<Rightarrow> if c = CHR ''/'' then [] # p # ps else (c # p) # ps)"

definition path_parts :: "string \<Rightarrow> string list" where
  "path_parts s = split_slash (strip_slash s)"

text \<open>\<open>int(_)\<close> of a decoded value.\<close>

definition json_int :: "json \<Rightarrow> exn + int" where
  "json_int j =
     (case j of
        JInt i \<Rightarrow> Inr i
      | JBool b \<Rightarrow> Inr (if b then 1 else 0)
      | JNum x \<Rightarrow> Inr (trunc_rat x)
      | JStr s \<Rightarrow> (case parse_int (strip s) of
                    Some i \<Rightarrow> Inr i
                  | None \<Rightarrow> Inl (ValueError (''invalid literal for int() with base 10: '' @ py_repr s)))
      | _ \<Rightarrow> Inl (TypeError ''int() argument must be a string, a bytes-like object or a real number''))"

text \<open>\<open>_body\<close>: the announced number of bytes, \<open>{}\<close> when there are none.\<close>

definition request_body :: "('v, 'srv) engine \<Rightarrow> api_request \<Rightarrow> exn + json" where
  "request_body ev rq =
     (let len = (case ar_length rq of None \<Rightarrow> Inr 0
                 | Some s \<Rightarrow> if s = [] then Inr 0 else json_int (JStr s))
      in case len of
           Inl e \<Rightarrow> Inl e
         | Inr n \<Rightarrow>
             (let d = (if n < 0 then ar_data rq else take (nat n) (ar_data rq))
              in loads (pf_codec (ev_plat ev)) (if d = [] then ''{}'' else decode_bytes d)))"

lemma strip_digits [simp]: "strip (show_nat n) = show_nat n"
  by (rule strip_no_space) (use show_nat_range in fastforce)

lemma json_int_nat [simp]: "json_int (JStr (show_nat n)) = Inr (int n)"
  using parse_show_int [of "int n"] by (simp add: json_int_def show_int_def)

text \<open>A body sent with its length is read back as the value.\<close>

lemma request_body_sent:
  assumes "codec_ok (pf_codec (ev_plat ev)) b"
    and "ar_length rq = Some (show_nat (length d))" "ar_data rq = d @ rest" "d = encode (dumps (pf_codec (ev_plat ev)) b)"
  shows "request_body ev rq = Inr b"
proof -
  have "d \<noteq> []" "loads (pf_codec (ev_plat ev)) (decode_bytes d) = Inr b"
    using assms(1,4) by (auto simp: codec_ok_def)
  with assms(2,3) show ?thesis by (simp add: request_body_def Let_def)
qed

text \<open>\<open>b.get(key, default)\<close>.\<close>

definition body_get :: "json \<Rightarrow> string \<Rightarrow> json \<Rightarrow> exn + json" where
  "body_get b k dflt =
     (case json_get b k of Inl e \<Rightarrow> Inl e | Inr None \<Rightarrow> Inr dflt | Inr (Some j) \<Rightarrow> Inr j)"

section \<open>Handlers\<close>

definition error_obj :: "string \<Rightarrow> json" where
  "error_obj s = JObj [(''error'', JStr s)]"

text \<open>The \<open>try\<close> block of both handlers; \<open>None\<close> is a path no route matches.\<close>

definition answer :: "('v, 'srv, json option) enginem \<Rightarrow> ('v, 'srv) world \<Rightarrow> api_answer \<times> ('v, 'srv) world" where
  "answer m w =
     (case m w of
        (Inr (Some j), w') \<Rightarrow> ((200, j), w')
      | (Inr None, w') \<Rightarrow> ((404, error_obj ''not found''), w')
      | (Inl e, w') \<Rightarrow> (case e of Forbidden s \<Rightarrow> ((403, error_obj s), w') | _ \<Rightarrow> ((500, error_obj (exn_str e)), w')))"

definition reply :: "('v, 'srv, json) enginem \<Rightarrow> ('v, 'srv, json option) enginem" where
  "reply m = andthen m (\<lambda>j. ret (Some j))"

definition authed :: "('v, 'srv) engine \<Rightarrow> api_request \<Rightarrow> ('v, 'srv) world \<Rightarrow> string option" where
  "authed ev rq w =
     (case project_of_key ev (ar_key rq) (w_db w) of
        None \<Rightarrow> None | Some pid \<Rightarrow> if pid = [] then None else Some pid)"

definition unauthorized :: api_answer where
  "unauthorized = (401, error_obj ''missing or invalid API key (send X-Api-Key)'')"

definition get_route :: "('v, 'srv) engine \<Rightarrow> string \<Rightarrow> string list \<Rightarrow> ('v, 'srv, json option) enginem" where
  "get_route ev pid p =
     (if p = [''v1'', ''runs''] then reply (list_runs pid)
      else if p = [''v1'', ''usage''] then reply (usage pid)
      else if length p = 4 \<and> p ! 1 = ''runs'' \<and> p ! 3 = ''timeline'' then
        andthen (require_owner pid Runs (p ! 2)) (\<lambda>_. reply (timeline (p ! 2)))
      else if length p = 5 \<and> p ! 1 = ''snapshots'' \<and> p ! 3 = ''diff'' then
        andthen (require_owner pid Snapshots (p ! 2)) (\<lambda>_.
        andthen (require_owner pid Snapshots (p ! 4)) (\<lambda>_. reply (on_host (fs_diff ev (p ! 2) (p ! 4)))))
      else ret None)"

definition do_GET :: "('v, 'srv) engine \<Rightarrow> api_request \<Rightarrow> ('v, 'srv) world \<Rightarrow> api_answer \<times> ('v, 'srv) world" where
  "do_GET ev rq w =
     (let p = path_parts (ar_path rq)
      in if p = [''health''] then ((200, JObj [(''status'', JStr ''ok'')]), w)
         else case authed ev rq w of
                None \<Rightarrow> (unauthorized, w)
              | Some pid \<Rightarrow> answer (get_route ev pid p) w)"

definition post_route :: "('v, 'srv) engine \<Rightarrow> string \<Rightarrow> string list \<Rightarrow> json \<Rightarrow> ('v, 'srv, json option) enginem" where
  "post_route ev pid p b =
     (if p = [''v1'', ''projects''] then
        andthen (lift_sum (body_get b ''name'' (JStr ''project''))) (\<lambda>name. reply (create_project ev name))
      else if p = [''v1'', ''runs''] then
        andthen (lift_sum (body_get b ''image'' (JStr ''klados/agent''))) (\<lambda>img. reply (create_run ev pid img))
      else if length p = 4 \<and> p ! 1 = ''instances'' \<and> p ! 3 = ''snapshot'' then
        andthen (require_owner pid Instances (p ! 2)) (\<lambda>_.
        andthen (lift_sum (body_get b ''label'' (JStr ''snap''))) (\<lambda>label. reply (snapshot_instance ev (p ! 2) label)))
      else if length p = 4 \<and> p ! 1 = ''snapshots'' \<and> p ! 3 = ''fork'' then
        andthen (require_owner pid Snapshots (p ! 2)) (\<lambda>_.
        andthen (lift_sum (body_get b ''n'' (JInt 4))) (\<lambda>nj.
        andthen (lift_sum (json_int nj)) (\<lambda>n. reply (fork_snapshot ev (p ! 2) n))))
      else if length p = 4 \<and> p ! 1 = ''instances'' \<and> p ! 3 = ''destroy'' then
        andthen (require_owner pid Instances (p ! 2)) (\<lambda>_. reply (destroy_instance ev (p ! 2)))
      else ret None)"

definition do_POST :: "('v, 'srv) engine \<Rightarrow> api_request \<Rightarrow> ('v, 'srv) world \<Rightarrow> api_answer \<times> ('v, 'srv) world" where
  "do_POST ev rq w =
     (let p = path_parts (ar_path rq)
      in case authed ev rq w of
           None \<Rightarrow> (unauthorized, w)
         | Some pid \<Rightarrow> answer (andthen (lift_sum (request_body ev rq)) (post_route ev pid p)) w)"

section \<open>New ids\<close>

text \<open>
  Whatever VMs an operation registers, it registers under ids it has drawn itself. The relation is
  reflexive and transitive, so it composes along the handlers.
\<close>

definition registers :: "('v, 'srv) engine \<Rightarrow> ('v, 'srv) world \<Rightarrow> ('v, 'srv) world \<Rightarrow> bool" where
  "registers ev w w' \<longleftrightarrow> w_ids w \<le> w_ids w' \<and>
     (\<forall>k. map_of (w_live w') k \<noteq> map_of (w_live w) k \<longrightarrow> (\<exists>j \<ge> w_ids w. k = ev_id ev j))"

interpretation fresh_frame: state_order "registers ev" for ev :: "('v, 'srv) engine"
proof
  show "registers ev s s" for s :: "('v, 'srv) world" by (simp add: registers_def)
  show "registers ev s u" if "registers ev s t" "registers ev t u" for s t u :: "('v, 'srv) world"
    using that unfolding registers_def by (metis order_trans)
qed

lemma on_host_fields: "on_host m w = (r, w') \<Longrightarrow> w_live w' = w_live w \<and> w_ids w' = w_ids w"
  by (auto simp: on_host_def split: prod.splits)

lemma registers_on_host: "keeps (registers ev) (on_host m)"
  by (rule keepsI) (simp add: on_host_def registers_def split_beta)

lemma registers_on_store: "keeps (registers ev) (on_store m)"
  by (rule keepsI) (simp add: on_store_def registers_def split_beta)

lemma registers_connect: "keeps (registers ev) connect"
  by (rule keepsI) (simp add: connect_def registers_def)

lemma registers_commit: "keeps (registers ev) (commit con)"
  by (rule keepsI) (simp add: commit_def registers_def)

lemma registers_lift_sum: "keeps (registers ev) (lift_sum r)"
  by (rule keepsI) (simp add: lift_sum_def registers_def)

lemmas registers_intros = fresh_frame.keeps_andthen fresh_frame.keeps_ret fresh_frame.keeps_throw registers_on_host
  registers_on_store registers_connect registers_commit registers_lift_sum

lemma registers_write_chunks: "keeps (registers ev) (write_chunks ev tmp hs)"
  by (induction hs) (auto intro!: registers_intros)

lemma registers_reconstruct: "keeps (registers ev) (reconstruct_mem ev sid)"
proof (rule keepsI)
  fix w :: "('a, 'b) world"
  let ?m = "andthen (on_host (read_file (snap_file ev sid ''mem.manifest''))) (\<lambda>text.
              andthen (lift_sum (loads (pf_codec (ev_plat ev)) (decode_bytes text))) (\<lambda>m.
              andthen (on_host (write_file (snap_file ev sid ''mem'' @ ''.tmp'') [])) (\<lambda>_.
              andthen (lift_sum (manifest_hashes m)) (\<lambda>hashes.
              andthen (write_chunks ev (snap_file ev sid ''mem'' @ ''.tmp'') hashes) (\<lambda>_.
              andthen (on_host (replace_file (snap_file ev sid ''mem'' @ ''.tmp'') (snap_file ev sid ''mem''))) (\<lambda>_.
              ret (snap_file ev sid ''mem'')))))))"
  have "keeps (registers ev) ?m" by (intro registers_intros registers_write_chunks)
  then show "registers ev w (snd (reconstruct_mem ev sid w))"
    by (simp add: reconstruct_mem_def Let_def keeps_snd fresh_frame.R_refl)
qed

lemma boot_vm_ids: "boot_vm ev iid load_from src w = (r, w') \<Longrightarrow> w_ids w' = w_ids w"
  unfolding boot_vm_def Let_def
  by (cases r) (auto elim!: andthen_InlE andthen_InrE dest!: on_host_fields)

lemma registers_boot:
  assumes "\<And>iid x. keeps (registers ev) (f iid x)"
  shows "keeps (registers ev) (andthen (new_id ev) (\<lambda>iid. andthen (boot_vm ev iid load_from src) (f iid)))"
proof (rule keepsI)
  fix w :: "('a, 'b) world"
  let ?iid = "ev_id ev (w_ids w)"
  let ?w = "w\<lparr>w_ids := w_ids w + 1\<rparr>"
  obtain r1 w1 where b: "boot_vm ev ?iid load_from src ?w = (r1, w1)" by fastforce
  have ids: "w_ids w1 = w_ids w + 1" using boot_vm_ids [OF b] by simp
  have run: "andthen (new_id ev) (\<lambda>iid. andthen (boot_vm ev iid load_from src) (f iid)) w =
      (case r1 of Inl e \<Rightarrow> (Inl e, w1) | Inr x \<Rightarrow> f ?iid x w1)"
    by (simp add: andthen_def new_id_def b [simplified] split: sum.split)
  have r1: "registers ev w w1"
    using boot_vm_live [OF b] ids by (cases r1) (auto simp: registers_def split: prod.splits if_splits)
  show "registers ev w (snd (andthen (new_id ev) (\<lambda>iid. andthen (boot_vm ev iid load_from src) (f iid)) w))"
    unfolding run using r1 fresh_frame.R_trans [OF r1] keeps_snd [OF assms] by (cases r1) auto
qed

lemma registers_fork: "keeps (registers ev) (fork_snapshot ev sid n)"
proof -
  have one: "keeps (registers ev) (fork_one ev snap n i con)" for snap i con
    unfolding fork_one_def by (rule registers_boot) (auto intro!: registers_intros split: prod.splits)
  have loop: "keeps (registers ev) (fork_loop ev snap n is con)" for snap "is" con
  proof (induction "is" arbitrary: con)
    case (Cons i "is")
    then show ?case by (auto intro!: registers_intros one split: prod.splits)
  qed (simp add: fresh_frame.keeps_ret)
  show ?thesis
    unfolding fork_snapshot_def
    by (auto intro!: registers_intros registers_reconstruct loop split: option.split prod.splits)
qed

section \<open>Isolation of projects\<close>

definition run_owner :: "string \<Rightarrow> tables \<Rightarrow> string option" where
  "run_owner rid db = map_option rn_project (select_row rn_id rid (t_runs db))"

lemma project_of_simps:
  "project_of Runs rid db = run_owner rid db"
  "project_of Snapshots sid db = (case select_row sn_id sid (t_snapshots db) of None \<Rightarrow> None | Some s \<Rightarrow> run_owner (sn_run s) db)"
  "project_of Instances iid db = (case select_row in_id iid (t_instances db) of None \<Rightarrow> None | Some i \<Rightarrow> run_owner (in_run i) db)"
  by (simp_all add: project_of_def run_owner_def split: option.split)

text \<open>What project \<open>q\<close> has is the same in both states: its runs, snapshots, instances and live VMs.\<close>

definition untouched :: "string \<Rightarrow> ('v, 'srv) world \<Rightarrow> ('v, 'srv) world \<Rightarrow> bool" where
  "untouched q w w' \<longleftrightarrow>
     (\<forall>iid. project_of Instances iid (w_db w) = Some q \<longrightarrow>
        select_row in_id iid (t_instances (w_db w')) = select_row in_id iid (t_instances (w_db w)) \<and>
        project_of Instances iid (w_db w') = Some q \<and> map_of (w_live w') iid = map_of (w_live w) iid) \<and>
     filter (\<lambda>s. run_owner (sn_run s) (w_db w') = Some q) (t_snapshots (w_db w')) =
       filter (\<lambda>s. run_owner (sn_run s) (w_db w) = Some q) (t_snapshots (w_db w)) \<and>
     filter (\<lambda>r. rn_project r = q) (t_runs (w_db w')) = filter (\<lambda>r. rn_project r = q) (t_runs (w_db w))"

lemma select_row_append:
  "select_row key k (t @ [r]) = (case select_row key k t of None \<Rightarrow> if key r = k then Some r else None | Some x \<Rightarrow> Some x)"
  by (simp add: select_row_def find_append split: option.split)

lemma select_row_appends:
  "select_row key k (t @ t') = (case select_row key k t of None \<Rightarrow> select_row key k t' | Some x \<Rightarrow> Some x)"
  by (simp add: select_row_def find_append split: option.split)

lemma untouched_same:
  assumes "t_runs (w_db w') = t_runs (w_db w)" "t_snapshots (w_db w') = t_snapshots (w_db w)" "t_instances (w_db w') = t_instances (w_db w)"
    and "\<And>iid. project_of Instances iid (w_db w) = Some q \<Longrightarrow> map_of (w_live w') iid = map_of (w_live w) iid"
  shows "untouched q w w'"
proof -
  have "run_owner k (w_db w') = run_owner k (w_db w)" for k using assms(1) by (simp add: run_owner_def)
  moreover from this have "project_of Instances k (w_db w') = project_of Instances k (w_db w)" for k
    using assms(3) by (simp add: project_of_simps split: option.split)
  ultimately show ?thesis using assms by (simp add: untouched_def)
qed

text \<open>The same when instances of other runs are appended.\<close>

lemma untouched_instances:
  assumes "w_db w' = (w_db w)\<lparr>t_instances := t_instances (w_db w) @ rows\<rparr>"
    and "\<And>iid. project_of Instances iid (w_db w) = Some q \<Longrightarrow> map_of (w_live w') iid = map_of (w_live w) iid"
  shows "untouched q w w'"
  using assms by (auto simp: untouched_def project_of_simps run_owner_def select_row_appends split: option.splits)

lemma add_project_rows: "add_project p db = Inr db' \<Longrightarrow> t_projects db' = t_projects db @ [p]"
  by (auto simp: add_project_def dest!: insert_row_Inr split: sum.splits)

lemma add_project_instances: "add_project p db = Inr db' \<Longrightarrow> t_instances db' = t_instances db"
  by (auto simp: add_project_def split: sum.splits)

lemma untouched_project:
  assumes "w_live w' = w_live w" "w_db w' = w_db w \<or> (\<exists>p. add_project p (w_db w) = Inr (w_db w'))"
  shows "untouched q w w'"
proof (rule untouched_same)
  have "t_instances (w_db w') = t_instances (w_db w)"
    using assms(2) add_project_instances by auto
  then show "t_runs (w_db w') = t_runs (w_db w)" "t_snapshots (w_db w') = t_snapshots (w_db w)" "t_instances (w_db w') = t_instances (w_db w)"
    using assms(2) add_frames(1) by auto
qed (simp add: assms(1))

lemma live_of_others:
  assumes "registers ev w w'" "\<forall>j \<ge> w_ids w. ev_id ev j \<notin> in_id ` set (t_instances (w_db w))"
    and "project_of Instances iid (w_db w) = Some q"
  shows "map_of (w_live w') iid = map_of (w_live w) iid"
proof (rule ccontr)
  assume "\<not> ?thesis"
  then obtain j where "w_ids w \<le> j" "iid = ev_id ev j" using assms(1) by (auto simp: registers_def)
  moreover have "iid \<in> in_id ` set (t_instances (w_db w))"
    using assms(3) by (auto simp: project_of_simps split: option.splits dest: select_row_in)
  ultimately show False using assms(2) by blast
qed

lemma create_run_rows:
  assumes "create_run ev p img w = (r, w')"
  shows "(w_db w' = w_db w \<and> w_live w' = w_live w) \<or>
    (\<exists>rid iid t1 t2 bound c1.
       add_run \<lparr>rn_id = rid, rn_project = p, rn_image = bound, rn_created = t1\<rparr> (w_db w) = Inr c1 \<and>
       add_instance \<lparr>in_id = iid, in_run = rid, in_snapshot = None, in_state = ''RUNNING'', in_branch = ''genesis'', in_created = t2\<rparr> c1
         = Inr (w_db w') \<and>
       (w_live w' = w_live w \<or> (\<exists>vm. w_live w' = AList.update iid vm (w_live w))))"
  using create_run_effect [OF assms]
  by (elim disjE exE conjE) (blast, cases r, (simp, blast)+)

lemma run_untouched:
  assumes "db_ok (w_db w)" "create_run ev pid img w = (r, w')" "q \<noteq> pid"
  shows "untouched q w w'"
proof -
  consider "w_db w' = w_db w" "w_live w' = w_live w"
    | rid iid t1 t2 bound c1 where
       "add_run \<lparr>rn_id = rid, rn_project = pid, rn_image = bound, rn_created = t1\<rparr> (w_db w) = Inr c1"
       "add_instance \<lparr>in_id = iid, in_run = rid, in_snapshot = None, in_state = ''RUNNING'', in_branch = ''genesis'', in_created = t2\<rparr> c1
         = Inr (w_db w')" "w_live w' = w_live w \<or> (\<exists>vm. w_live w' = AList.update iid vm (w_live w))"
    using create_run_rows [OF assms(2)] by blast
  then show ?thesis
  proof cases
    case 1
    then show ?thesis by (intro untouched_same) auto
  next
    case 2
    let ?rn = "\<lparr>rn_id = rid, rn_project = pid, rn_image = bound, rn_created = t1\<rparr>"
    let ?i = "\<lparr>in_id = iid, in_run = rid, in_snapshot = None, in_state = ''RUNNING'', in_branch = ''genesis'', in_created = t2\<rparr>"
    have db: "w_db w' = (w_db w)\<lparr>t_runs := t_runs (w_db w) @ [?rn], t_instances := t_instances (w_db w) @ [?i]\<rparr>"
      and new: "iid \<notin> in_id ` set (t_instances (w_db w))"
      using 2(1,2) by (auto simp: add_run_def add_instance_def dest!: insert_row_Inr split: sum.splits)
    have own: "run_owner k (w_db w') = run_owner k (w_db w)" if "k \<in> rn_id ` set (t_runs (w_db w))" for k
      using that select_row_None [of rn_id k "t_runs (w_db w)"]
      by (auto simp: run_owner_def db select_row_append split: option.split)
    have snaps: "filter (\<lambda>s. run_owner (sn_run s) (w_db w') = Some q) (t_snapshots (w_db w)) =
       filter (\<lambda>s. run_owner (sn_run s) (w_db w) = Some q) (t_snapshots (w_db w))"
      using assms(1) own by (intro filter_cong) (auto simp: db_ok_def)
    have inst: "select_row in_id k (t_instances (w_db w')) = select_row in_id k (t_instances (w_db w)) \<and>
        project_of Instances k (w_db w') = Some q \<and> map_of (w_live w') k = map_of (w_live w) k"
      if own_k: "project_of Instances k (w_db w) = Some q" for k
    proof -
      obtain i where i: "select_row in_id k (t_instances (w_db w)) = Some i" "run_owner (in_run i) (w_db w) = Some q"
        using own_k by (auto simp: project_of_simps split: option.splits)
      then have "i \<in> set (t_instances (w_db w))" "in_id i = k" using select_row_in [OF i(1)] by auto
      moreover then have "in_run i \<in> rn_id ` set (t_runs (w_db w))" "k \<noteq> iid"
        using assms(1) new by (auto simp: db_ok_def instance_ok_def)
      ultimately show ?thesis using i own [of "in_run i"] 2(3) by (auto simp: db select_row_append project_of_simps)
    qed
    with snaps assms(3) show ?thesis by (simp add: untouched_def db)
  qed
qed

lemma update_untouched:
  assumes "w_db w' = update_instance iid f db" "t_instances db = t_instances (w_db w)" "t_runs db = t_runs (w_db w)"
    and "\<And>i. in_id (f i) = in_id i" "distinct (map in_id (t_instances (w_db w)))"
    and "\<And>k. k \<noteq> iid \<Longrightarrow> map_of (w_live w') k = map_of (w_live w) k"
    and "project_of Instances iid (w_db w) = Some pid" "q \<noteq> pid"
    and "filter (\<lambda>s. run_owner (sn_run s) (w_db w) = Some q) (t_snapshots db) =
       filter (\<lambda>s. run_owner (sn_run s) (w_db w) = Some q) (t_snapshots (w_db w))"
  shows "untouched q w w'"
proof -
  have own: "run_owner k (w_db w') = run_owner k (w_db w)" for k
    using assms(1,3) by (simp add: run_owner_def update_instance_def)
  have sel: "select_row in_id k (t_instances (w_db w')) = select_row in_id k (t_instances (w_db w))" if "k \<noteq> iid" for k
    using insts.upd_look [OF assms(5,4), of k iid] that assms(1,2) by (simp add: update_instance_def)
  have inst: "select_row in_id k (t_instances (w_db w')) = select_row in_id k (t_instances (w_db w)) \<and>
      project_of Instances k (w_db w') = Some q \<and> map_of (w_live w') k = map_of (w_live w) k"
    if own_k: "project_of Instances k (w_db w) = Some q" for k
  proof -
    have "k \<noteq> iid" using own_k assms(7,8) by auto
    with own_k own sel [of k] assms(6) show ?thesis by (auto simp: project_of_simps split: option.splits)
  qed
  have "t_snapshots (w_db w') = t_snapshots db" "t_runs (w_db w') = t_runs (w_db w)"
    using assms(1,3) by (simp_all add: update_instance_def)
  with inst own assms(9) show ?thesis by (simp add: untouched_def)
qed

lemma snapshot_untouched:
  assumes "db_ok (w_db w)" "snapshot_instance ev iid label w = (r, w')" "project_of Instances iid (w_db w) = Some pid" "q \<noteq> pid"
  shows "untouched q w w'"
proof -
  note eff = snapshot_effect [OF assms(2)]
  consider "w_db w' = w_db w"
    | row s sid c1 where "select_row in_id iid (t_instances (w_db w)) = Some row" "sn_run s = in_run row"
        "add_snapshot s (w_db w) = Inr c1" "w_db w' = update_instance iid (\<lambda>r. r\<lparr>in_snapshot := Some sid\<rparr>) c1"
    using eff by (metis snapshot_row.select_convs(2))
  then show ?thesis
  proof cases
    case 1
    with eff show ?thesis by (intro untouched_same) auto
  next
    case 2
    have c1: "c1 = (w_db w)\<lparr>t_snapshots := t_snapshots (w_db w) @ [s]\<rparr>"
      using 2(3) by (auto simp: add_snapshot_def dest!: insert_row_Inr split: sum.splits)
    have "run_owner (sn_run s) (w_db w) = Some pid" using assms(3) 2(1,2) by (simp add: project_of_simps)
    moreover have "w_live w' = w_live w" using eff by blast
    moreover have "distinct (map in_id (t_instances (w_db w)))" using assms(1) by (simp add: db_ok_def)
    ultimately show ?thesis
      by (intro update_untouched [OF 2(4) _ _ _ _ _ assms(3,4)]) (simp_all add: c1 assms(4) [symmetric])
  qed
qed

lemma destroy_untouched:
  assumes "db_ok (w_db w)" "destroy_instance ev iid w = (r, w')" "project_of Instances iid (w_db w) = Some pid" "q \<noteq> pid"
  shows "untouched q w w'"
proof -
  note eff = destroy_effect [OF assms(2)]
  have "distinct (map in_id (t_instances (w_db w)))" using assms(1) by (simp add: db_ok_def)
  with eff show ?thesis
    by (intro update_untouched [OF conjunct1 [OF eff] _ _ _ _ _ assms(3,4)]) simp_all
qed

lemma fork_untouched:
  assumes "fork_snapshot ev sid n w = (r, w')"
    and "\<forall>j \<ge> w_ids w. ev_id ev j \<notin> in_id ` set (t_instances (w_db w))"
  shows "untouched q w w'"
proof -
  have reg: "registers ev w w'" using keepsD [OF registers_fork assms(1)] .
  consider "w_db w' = w_db w" | rows where "w_db w' = (w_db w)\<lparr>t_instances := t_instances (w_db w) @ rows\<rparr>"
    using fork_effect [OF assms(1)] ins_all_append by blast
  then show ?thesis
  proof cases
    case 1
    with live_of_others [OF reg assms(2)] show ?thesis by (intro untouched_same) auto
  next
    case 2
    with live_of_others [OF reg assms(2)] show ?thesis by (intro untouched_instances) auto
  qed
qed

section \<open>Properties of the API\<close>

lemma answer_snd [simp]: "snd (answer m w) = snd (m w)"
  by (auto simp: answer_def split: prod.splits sum.splits option.splits exn.splits)

lemma answer_status: "fst (fst (answer m w)) \<in> {200, 403, 404, 500}"
  by (auto simp: answer_def split: prod.splits sum.splits option.splits exn.splits)

lemma reply_snd [simp]: "snd (reply m w) = snd (m w)"
  by (auto simp: reply_def andthen_def ret_def split: prod.splits sum.splits)

lemma bind_owner:
  "andthen (require_owner pid t x) f w =
     (if project_of t x (w_db w) = Some pid then f () w else (Inl (Forbidden (x @ '' is not in your project'')), w))"
  by (simp add: require_owner_def bind_connect andthen_def connect_def throw_def ret_def)

lemma bind_sum: "andthen (lift_sum c) f w = (case c of Inl e \<Rightarrow> (Inl e, w) | Inr x \<Rightarrow> f x w)"
  by (simp add: andthen_def lift_sum_def split: sum.split)

lemma untouched_refl: "untouched q w w"
  by (rule untouched_same) auto

lemma post_route_untouched:
  assumes "db_ok (w_db w)" "\<forall>j \<ge> w_ids w. ev_id ev j \<notin> in_id ` set (t_instances (w_db w))" "q \<noteq> pid"
  shows "untouched q w (snd (post_route ev pid p b w))"
proof -
  have proj: "untouched q w (snd (create_project ev name w))" for name
    using create_project_effect [of ev name w "fst (create_project ev name w)" "snd (create_project ev name w)"]
    by (intro untouched_project) auto
  have run: "untouched q w (snd (create_run ev pid img w))" for img
    using run_untouched [OF assms(1) prod.collapse [symmetric] assms(3)] .
  have snap: "untouched q w (snd (snapshot_instance ev iid label w))" if "project_of Instances iid (w_db w) = Some pid" for iid label
    using snapshot_untouched [OF assms(1) prod.collapse [symmetric] that assms(3)] .
  have dest: "untouched q w (snd (destroy_instance ev iid w))" if "project_of Instances iid (w_db w) = Some pid" for iid
    using destroy_untouched [OF assms(1) prod.collapse [symmetric] that assms(3)] .
  have fork: "untouched q w (snd (fork_snapshot ev sid n w))" for sid n
    using fork_untouched [OF prod.collapse [symmetric] assms(2)] .
  show ?thesis
    unfolding post_route_def
    by (auto simp: bind_owner bind_sum ret_def untouched_refl proj run snap dest fork split: sum.split)
qed


definition demo_two :: tables where
  "demo_two = \<lparr>t_projects = [\<lparr>pj_id = ''p'', pj_name = JNull, pj_key_hash = hash_key (demo_engine 9) ''k'', pj_created = 0\<rparr>],
     t_runs = [\<lparr>rn_id = ''r'', rn_project = ''p'', rn_image = JNull, rn_created = 0\<rparr>,
               \<lparr>rn_id = ''r2'', rn_project = ''q'', rn_image = JNull, rn_created = 0\<rparr>],
     t_snapshots = [], t_instances =
       [\<lparr>in_id = ''i'', in_run = ''r'', in_snapshot = None, in_state = ''RUNNING'', in_branch = [], in_created = 0\<rparr>,
        \<lparr>in_id = ''j'', in_run = ''r2'', in_snapshot = None, in_state = ''RUNNING'', in_branch = [], in_created = 0\<rparr>], t_usage = []\<rparr>"

definition demo_shared :: "(nat, unit) world" where
  "demo_shared = demo_world\<lparr>w_db := demo_two, w_live := [(''i'', demo_vm), (''j'', demo_vm)]\<rparr>"

definition demo_destroy :: "string \<Rightarrow> api_request" where
  "demo_destroy x = \<lparr>ar_path = ''/v1/instances/'' @ x @ ''/destroy'', ar_key = ''k'',
     ar_length = Some (show_nat (length (dumps number_codec (JObj [])))), ar_data = encode (dumps number_codec (JObj []))\<rparr>"

lemma demo_shared_facts:
  "db_ok (w_db demo_shared)" "authed (demo_engine 9) (demo_destroy x) demo_shared = Some ''p''"
  "\<forall>j \<ge> w_ids demo_shared. ev_id (demo_engine 9) j \<notin> in_id ` set (t_instances (w_db demo_shared))"
  "project_of Instances ''j'' (w_db demo_shared) = Some ''q''" "project_of Instances ''i'' (w_db demo_shared) = Some ''p''"
  by (simp_all add: db_ok_def demo_shared_def demo_two_def instance_ok_def authed_def project_of_key_def demo_destroy_def
      demo_engine_def project_of_def select_row_def)

lemma demo_destroy_body: "request_body (demo_engine 9) (demo_destroy x) = Inr (JObj [])"
proof -
  have "pf_codec (ev_plat (demo_engine 9)) = number_codec" by (simp add: demo_engine_def demo_plat_def)
  with number_codec_ok show ?thesis
    by (intro request_body_sent [of _ _ _ "encode (dumps number_codec (JObj []))" "[]"]) (simp_all add: demo_destroy_def)
qed

lemma demo_destroy_path: "path_parts (ar_path (demo_destroy ''i'')) = [''v1'', ''instances'', ''i'', ''destroy'']"
    "path_parts (ar_path (demo_destroy ''j'')) = [''v1'', ''instances'', ''j'', ''destroy'']"
  by (simp_all add: demo_destroy_def path_parts_def strip_slash_def)


text \<open>
  C19. No oracle: on a route that names an instance or a snapshot, an id of another project and an id that
  does not exist are answered alike, with 403 and the same text, before anything is done.
\<close>

theorem foreign_ids_are_refused:
  assumes "authed ev rq w = Some pid" and "request_body ev rq = Inr b"
    and "path_parts (ar_path rq) = [v, kind, x, act]"
    and "(kind = ''instances'' \<and> t = Instances \<and> (act = ''snapshot'' \<or> act = ''destroy'')) \<or> (kind = ''snapshots'' \<and> t = Snapshots \<and> act = ''fork'')"
    and "project_of t x (w_db w) \<noteq> Some pid"
  shows "do_POST ev rq w = ((403, error_obj (x @ '' is not in your project'')), w)"
  using assms by (auto simp: do_POST_def Let_def bind_sum post_route_def bind_owner answer_def)

theorem foreign_ids_are_refused_witness:
  "do_POST (demo_engine 9) (demo_destroy ''j'') demo_shared = ((403, error_obj ''j is not in your project''), demo_shared)"
  using foreign_ids_are_refused [OF demo_shared_facts(2) demo_destroy_body demo_destroy_path(2), of Instances] demo_shared_facts(4)
  by simp

text \<open>
  C20. Authentication: a request whose key is missing or whose hash no project has is answered 401 (only
  the health probe is open) and changes nothing.
\<close>

theorem unauthenticated_does_nothing:
  assumes "ar_key rq = [] \<or> hash_key ev (ar_key rq) \<notin> pj_key_hash ` set (t_projects (w_db w))"
  shows "do_POST ev rq w = (unauthorized, w) \<and>
    do_GET ev rq w = ((if path_parts (ar_path rq) = [''health''] then (200, JObj [(''status'', JStr ''ok'')]) else unauthorized), w)"
proof -
  have "find (\<lambda>r. pj_key_hash r = hash_key ev (ar_key rq)) (t_projects (w_db w)) = None" if "ar_key rq \<noteq> []"
    using assms that unfolding find_None_iff by (metis image_eqI)
  then have "authed ev rq w = None" by (auto simp: authed_def project_of_key_def)
  then show ?thesis by (simp add: do_POST_def do_GET_def Let_def)
qed

theorem unauthenticated_does_nothing_witness:
  "do_POST (demo_engine 9) ((demo_destroy ''i'')\<lparr>ar_key := ''x''\<rparr>) demo_shared = (unauthorized, demo_shared)"
proof -
  have "hash_key (demo_engine 9) ''x'' \<notin> pj_key_hash ` set (t_projects (w_db demo_shared))"
    by (simp add: demo_shared_def demo_two_def hash_key_def demo_engine_def)
  then show ?thesis using unauthenticated_does_nothing [of "(demo_destroy ''i'')\<lparr>ar_key := ''x''\<rparr>" "demo_engine 9" demo_shared] by simp
qed

text \<open>
  A new project's key works: the key \<open>create_project\<close> returns authenticates as the project it
  created, if no earlier project's key has the same hash; and no key that was not accepted before,
  other than those with its hash, is accepted afterwards.
\<close>

theorem issued_key_authenticates:
  assumes "create_project ev name w = (Inr obj, w')" and "json_field obj ''api_key'' = JStr key"
    and "hash_key ev key \<notin> pj_key_hash ` set (t_projects (w_db w))"
  shows "(\<exists>pid. json_field obj ''project_id'' = JStr pid \<and> project_of_key ev key (w_db w') = Some pid) \<and>
    (\<forall>k. hash_key ev k \<noteq> hash_key ev key \<longrightarrow> project_of_key ev k (w_db w') = project_of_key ev k (w_db w))"
proof -
  let ?key = "''klados_'' @ ev_token ev (w_tokens w)"
  let ?pid = "ev_id ev (w_ids w)"
  obtain bound c where c: "add_project \<lparr>pj_id = ?pid, pj_name = bound, pj_key_hash = hash_key ev ?key, pj_created = h_clock (w_host w)\<rparr> (w_db w) = Inr c"
      "w_db w' = c" "obj = JObj [(''project_id'', JStr ?pid), (''name'', name), (''api_key'', JStr ?key)]"
    using assms(1)
    by (auto simp: create_project_def Let_def andthen_def new_token_def new_id_def connect_def on_host_def time_now_def lift_sum_def
        commit_def ret_def split: sum.splits)
  have key: "key = ?key" using assms(2) c(3) by simp
  have db: "t_projects (w_db w') = t_projects (w_db w) @ [\<lparr>pj_id = ?pid, pj_name = bound, pj_key_hash = hash_key ev ?key, pj_created = h_clock (w_host w)\<rparr>]"
    using add_project_rows [OF c(1)] c(2) by simp
  have "find (\<lambda>r. pj_key_hash r = hash_key ev key) (t_projects (w_db w)) = None"
    using assms(3) unfolding find_None_iff by (metis image_eqI)
  then show ?thesis
    using c(3) by (auto simp: project_of_key_def db key find_append split: option.split)
qed

theorem issued_key_authenticates_witness:
  "\<exists>obj w'. create_project (demo_engine 9) (JStr ''n'') demo_world = (Inr obj, w') \<and>
     project_of_key (demo_engine 9) (''klados_'' @ show_nat 0) (w_db w') = Some (''id'' @ show_nat 0)"
proof -
  let ?obj = "JObj [(''project_id'', JStr (''id'' @ show_nat 0)), (''name'', JStr ''n''), (''api_key'', JStr (''klados_'' @ show_nat 0))]"
  have "\<exists>w'. create_project (demo_engine 9) (JStr ''n'') demo_world = (Inr ?obj, w')"
    by (simp add: create_project_def Let_def andthen_def new_token_def new_id_def connect_def on_host_def time_now_def lift_sum_def
        commit_def ret_def demo_engine_def demo_world_def sql_bind_def add_project_def insert_row_def demo_tables_def)
  then obtain w' where w': "create_project (demo_engine 9) (JStr ''n'') demo_world = (Inr ?obj, w')" by blast
  have key: "json_field ?obj ''api_key'' = JStr (''klados_'' @ show_nat 0)" by simp
  have new: "hash_key (demo_engine 9) (''klados_'' @ show_nat 0) \<notin> pj_key_hash ` set (t_projects (w_db demo_world))"
    by (simp add: demo_world_def demo_tables_def hash_key_def demo_engine_def)
  from issued_key_authenticates [OF w' key new] w' show ?thesis by auto
qed

text \<open>
  Reading changes nothing: a \<open>GET\<close> leaves the database, the live VMs and the store alone, and every
  request is answered with one of the statuses 200, 401, 403, 404 and 500.
\<close>

theorem get_is_readonly:
  "w_db (snd (do_GET ev rq w)) = w_db w \<and> w_live (snd (do_GET ev rq w)) = w_live w \<and> w_store (snd (do_GET ev rq w)) = w_store w \<and>
   fst (fst (do_GET ev rq w)) \<in> {200, 401, 403, 404, 500} \<and> fst (fst (do_POST ev rq w)) \<in> {200, 401, 403, 404, 500}"
proof -
  have "w_db (snd (get_route ev pid p w)) = w_db w \<and> w_live (snd (get_route ev pid p w)) = w_live w \<and>
      w_store (snd (get_route ev pid p w)) = w_store w" for pid p
    by (simp add: get_route_def bind_owner list_runs_def usage_def timeline_def bind_connect ret_def on_host_def split_beta)
  moreover have "fst (fst (answer m w)) \<in> {200, 401, 403, 404, 500}" for m using answer_status [of m w] by auto
  ultimately show ?thesis
    by (auto simp: do_GET_def do_POST_def Let_def unauthorized_def split: option.splits)
qed

end
