(* ===== verification/Metrics.thy ===== *)
theory Metrics
  imports Guest_Agent
begin

text \<open>
  The statistics of the experiments (\<open>spikes/harness/metrics.py\<close>): \<open>percentile\<close>, \<open>summary\<close> and \<open>pss_kib\<close>.
  Numbers are rationals; the result \<open>None\<close> of a percentile is \<open>float("nan")\<close>.
\<close>

section \<open>Percentiles\<close>

definition percentile :: "rat list \<Rightarrow> rat \<Rightarrow> exn + rat option" where
  "percentile vals p =
     (if vals = [] then Inr None
      else let xs = sort vals
           in if length xs = 1 then Inr (Some (xs ! 0))
              else let k = (of_nat (length xs) - 1) * (p / 100);
                       lo = trunc_rat k; hi = min (trunc_rat k + 1) (int (length xs) - 1)
                   in case py_index xs lo of
                        Inl e \<Rightarrow> Inl e
                      | Inr a \<Rightarrow> (case py_index xs hi of
                                    Inl e \<Rightarrow> Inl e
                                  | Inr b \<Rightarrow> Inr (Some (a + (b - a) * (k - of_int lo)))))"

record summary_row =
  sm_n :: nat
  sm_min :: "rat option"
  sm_p50 :: "rat option"
  sm_p99 :: "rat option"
  sm_max :: "rat option"
  sm_mean :: "rat option"

definition round2 :: "rat \<Rightarrow> rat" where "round2 x = py_round x 2"

definition summary :: "rat list \<Rightarrow> exn + summary_row" where
  "summary vals =
     (case percentile vals 50 of
        Inl e \<Rightarrow> Inl e
      | Inr p50 \<Rightarrow>
          (case percentile vals 99 of
             Inl e \<Rightarrow> Inl e
           | Inr p99 \<Rightarrow> Inr
               \<lparr>sm_n = length vals,
                sm_min = (if vals \<noteq> [] then Some (round2 (Min (set vals))) else None),
                sm_p50 = map_option round2 p50,
                sm_p99 = map_option round2 p99,
                sm_max = (if vals \<noteq> [] then Some (round2 (Max (set vals))) else None),
                sm_mean = (if vals \<noteq> [] then Some (round2 (sum_list vals / of_nat (length vals))) else None)\<rparr>))"

section \<open>Between the samples\<close>

text \<open>The value at position \<open>k\<close> of a sorted list, interpolated: what \<open>percentile\<close> computes.\<close>

definition interpolate :: "rat list \<Rightarrow> rat \<Rightarrow> rat" where
  "interpolate xs k =
     (let lo = nat \<lfloor>k\<rfloor>; hi = min (lo + 1) (length xs - 1)
      in xs ! lo + (xs ! hi - xs ! lo) * (k - of_int \<lfloor>k\<rfloor>))"

lemma percentile_interpolate:
  assumes "vals \<noteq> []" "0 \<le> p" "p \<le> 100"
  shows "percentile vals p = Inr (Some (interpolate (sort vals) (of_nat (length vals - 1) * (p / 100))))"
proof (cases "length vals = 1")
  case True
  then have "p / 100 * 0 = 0" by simp
  with True assms show ?thesis by (simp add: percentile_def interpolate_def)
next
  case False
  let ?n = "length vals" and ?xs = "sort vals"
  let ?k = "of_nat (?n - 1) * (p / 100) :: rat"
  have n: "2 \<le> ?n" using False assms(1) by (metis One_nat_def Suc_leI less_Suc_eq_0_disj linorder_neqE_nat length_greater_0_conv numeral_2_eq_2 not_less_eq)
  then have cast: "(of_nat ?n - 1 :: rat) = of_nat (?n - 1)" by (simp add: of_nat_diff)
  have k: "0 \<le> ?k" "?k \<le> of_nat (?n - 1)"
    using assms(2,3) mult_left_mono [of "p / 100" 1 "of_nat (?n - 1)"] by simp_all
  have tr: "trunc_rat ?k = \<lfloor>?k\<rfloor>" using k(1) by (simp add: trunc_rat_def)
  have fl: "0 \<le> \<lfloor>?k\<rfloor>" "\<lfloor>?k\<rfloor> \<le> int (?n - 1)" using k by (simp_all add: floor_le_iff)
  have lo: "py_index ?xs \<lfloor>?k\<rfloor> = Inr (?xs ! nat \<lfloor>?k\<rfloor>)"
    using fl n by (simp add: py_index_def)
  have hi: "py_index ?xs (min (\<lfloor>?k\<rfloor> + 1) (int ?n - 1)) = Inr (?xs ! min (nat \<lfloor>?k\<rfloor> + 1) (?n - 1))"
  proof -
    have "nat (min (\<lfloor>?k\<rfloor> + 1) (int ?n - 1)) = min (nat \<lfloor>?k\<rfloor> + 1) (?n - 1)" using fl n by linarith
    moreover have "0 \<le> min (\<lfloor>?k\<rfloor> + 1) (int ?n - 1) \<and> min (\<lfloor>?k\<rfloor> + 1) (int ?n - 1) < int (length ?xs)"
      unfolding length_sort using fl n by linarith
    ultimately show ?thesis unfolding py_index_def by (simp only: if_True simp_thms)
  qed
  show ?thesis
    using False assms(1) unfolding percentile_def interpolate_def Let_def length_sort cast tr lo hi
    by (simp only: if_False sum.case)
qed

lemma interpolate_between:
  assumes "sorted xs" "0 \<le> k" "k \<le> of_nat (length xs - 1)" "xs \<noteq> []"
  shows "xs ! nat \<lfloor>k\<rfloor> \<le> interpolate xs k" "interpolate xs k \<le> xs ! min (nat \<lfloor>k\<rfloor> + 1) (length xs - 1)"
proof -
  let ?lo = "nat \<lfloor>k\<rfloor>" and ?hi = "min (nat \<lfloor>k\<rfloor> + 1) (length xs - 1)"
  have fl: "0 \<le> \<lfloor>k\<rfloor>" "\<lfloor>k\<rfloor> \<le> int (length xs - 1)" using assms by (simp_all add: floor_le_iff)
  have lo: "?lo \<le> ?hi" using fl by linarith
  have hi: "?hi < length xs" using assms(4) by (cases xs) auto
  have le: "0 \<le> xs ! ?hi - xs ! ?lo" using sorted_nth_mono [OF assms(1) lo hi] by simp
  have t: "0 \<le> k - of_int \<lfloor>k\<rfloor>" "k - of_int \<lfloor>k\<rfloor> \<le> 1" by linarith+
  have "0 \<le> (xs ! ?hi - xs ! ?lo) * (k - of_int \<lfloor>k\<rfloor>)" using le t by simp
  moreover have "(xs ! ?hi - xs ! ?lo) * (k - of_int \<lfloor>k\<rfloor>) \<le> (xs ! ?hi - xs ! ?lo) * 1"
    using le t by (intro mult_left_mono)
  ultimately show "xs ! ?lo \<le> interpolate xs k" "interpolate xs k \<le> xs ! ?hi"
    by (simp_all add: interpolate_def Let_def)
qed

lemma interpolate_mono:
  assumes "sorted xs" "0 \<le> j" "j \<le> k" "k \<le> of_nat (length xs - 1)" "xs \<noteq> []"
  shows "interpolate xs j \<le> interpolate xs k"
proof (cases "\<lfloor>j\<rfloor> = \<lfloor>k\<rfloor>")
  case True
  have fl: "0 \<le> \<lfloor>k\<rfloor>" "\<lfloor>k\<rfloor> \<le> int (length xs - 1)" using assms by (simp_all add: floor_le_iff)
  have "nat \<lfloor>k\<rfloor> \<le> min (nat \<lfloor>k\<rfloor> + 1) (length xs - 1)" "min (nat \<lfloor>k\<rfloor> + 1) (length xs - 1) < length xs"
    using fl assms(5) by (cases xs; auto)+
  from sorted_nth_mono [OF assms(1) this]
  have "0 \<le> xs ! min (nat \<lfloor>k\<rfloor> + 1) (length xs - 1) - xs ! nat \<lfloor>k\<rfloor>" by simp
  then have "(xs ! min (nat \<lfloor>k\<rfloor> + 1) (length xs - 1) - xs ! nat \<lfloor>k\<rfloor>) * (j - of_int \<lfloor>k\<rfloor>)
      \<le> (xs ! min (nat \<lfloor>k\<rfloor> + 1) (length xs - 1) - xs ! nat \<lfloor>k\<rfloor>) * (k - of_int \<lfloor>k\<rfloor>)"
    using assms(3) by (intro mult_left_mono) simp_all
  with True show ?thesis by (simp add: interpolate_def Let_def)
next
  case False
  then have less: "\<lfloor>j\<rfloor> < \<lfloor>k\<rfloor>" using floor_mono [OF assms(3)] by simp
  have fl: "0 \<le> \<lfloor>j\<rfloor>" "\<lfloor>k\<rfloor> \<le> int (length xs - 1)" using assms by (simp_all add: floor_le_iff)
  have "interpolate xs j \<le> xs ! min (nat \<lfloor>j\<rfloor> + 1) (length xs - 1)"
    using interpolate_between(2) [of xs j] assms by simp
  also have "\<dots> \<le> xs ! nat \<lfloor>k\<rfloor>"
  proof (rule sorted_nth_mono [OF assms(1)])
    show "min (nat \<lfloor>j\<rfloor> + 1) (length xs - 1) \<le> nat \<lfloor>k\<rfloor>" "nat \<lfloor>k\<rfloor> < length xs"
      using less fl assms(5) by (cases xs; auto; linarith)+
  qed
  also have "\<dots> \<le> interpolate xs k" using interpolate_between(1) [of xs k] assms by simp
  finally show ?thesis .
qed

lemma interpolate_ends: "xs \<noteq> [] \<Longrightarrow> interpolate xs 0 = xs ! 0 \<and> interpolate xs (of_nat (length xs - 1)) = last xs"
  by (simp add: interpolate_def last_conv_nth)

lemma sort_ends:
  assumes "vals \<noteq> []"
  shows "sort vals ! 0 = Min (set vals)" "last (sort vals) = Max (set vals)"
proof -
  have ne: "sort vals \<noteq> []" using assms by (metis length_0_conv length_sort)
  show "sort vals ! 0 = Min (set vals)"
  proof (rule Min_eqI [symmetric])
    show "sort vals ! 0 \<in> set vals" using nth_mem [of 0 "sort vals"] assms by simp
    show "sort vals ! 0 \<le> y" if "y \<in> set vals" for y
    proof -
      have "y \<in> set (sort vals)" using that by simp
      then obtain i where "i < length (sort vals)" "sort vals ! i = y" by (auto simp only: in_set_conv_nth)
      with sorted_nth_mono [of "sort vals" 0 i] show ?thesis by simp
    qed
  qed simp
  show "last (sort vals) = Max (set vals)"
  proof (rule Max_eqI [symmetric])
    show "last (sort vals) \<in> set vals" using ne last_in_set by fastforce
    show "y \<le> last (sort vals)" if "y \<in> set vals" for y
    proof -
      have "y \<in> set (sort vals)" using that by simp
      then obtain i where "i < length (sort vals)" "sort vals ! i = y" by (auto simp only: in_set_conv_nth)
      with sorted_nth_mono [of "sort vals" i "length (sort vals) - 1"] ne show ?thesis
        by (simp add: last_conv_nth)
    qed
  qed simp
qed

text \<open>Percentiles of the same samples are ordered as their ranks, from the minimum to the maximum.\<close>

lemma percentile_order:
  assumes "vals \<noteq> []" "0 \<le> p" "p \<le> q" "q \<le> 100"
  obtains x y where "percentile vals p = Inr (Some x)" "percentile vals q = Inr (Some y)"
    "Min (set vals) \<le> x" "x \<le> y" "y \<le> Max (set vals)"
proof -
  let ?xs = "sort vals" and ?m = "of_nat (length vals - 1) :: rat"
  have ne: "?xs \<noteq> []" using assms(1) by (metis length_0_conv length_sort)
  have m: "?m = of_nat (length ?xs - 1)" by simp
  have k: "0 \<le> ?m * (p / 100)" "?m * (p / 100) \<le> ?m * (q / 100)" "?m * (q / 100) \<le> ?m"
    using assms mult_left_mono [of "p / 100" "q / 100" ?m] mult_left_mono [of "q / 100" 1 ?m] by simp_all
  have a: "Min (set vals) \<le> interpolate ?xs (?m * (p / 100))"
    using interpolate_mono [of ?xs 0 "?m * (p / 100)"] k ne m interpolate_ends [OF ne] sort_ends(1) [OF assms(1)] by simp
  have b: "interpolate ?xs (?m * (p / 100)) \<le> interpolate ?xs (?m * (q / 100))"
    by (rule interpolate_mono) (use k ne m in simp_all)
  have c: "interpolate ?xs (?m * (q / 100)) \<le> Max (set vals)"
    using interpolate_mono [of ?xs "?m * (q / 100)" ?m] k ne m interpolate_ends [OF ne] sort_ends(2) [OF assms(1)] by simp
  show thesis
  proof (rule that [of "interpolate ?xs (?m * (p / 100))" "interpolate ?xs (?m * (q / 100))"])
    show "percentile vals p = Inr (Some (interpolate ?xs (?m * (p / 100))))"
      "percentile vals q = Inr (Some (interpolate ?xs (?m * (q / 100))))"
      using assms by (simp_all add: percentile_interpolate)
  qed (use a b c in simp_all)
qed

text \<open>The mean lies between minimum and maximum.\<close>

lemma mean_between:
  assumes "vals \<noteq> []"
  shows "Min (set vals) \<le> sum_list vals / of_nat (length vals)"
    and "sum_list vals / of_nat (length vals) \<le> (Max (set vals) :: rat)"
proof -
  have pos: "(0::rat) < of_nat (length vals)" using assms by simp
  have "of_nat (length vals) * Min (set vals) \<le> sum_list vals"
    using sum_list_mono [of vals "\<lambda>_. Min (set vals)" "\<lambda>x. x"] by (simp add: sum_list_triv)
  then show "Min (set vals) \<le> sum_list vals / of_nat (length vals)"
    using pos by (simp add: pos_le_divide_eq mult.commute)
  have "sum_list vals \<le> of_nat (length vals) * Max (set vals)"
    using sum_list_mono [of vals "\<lambda>x. x" "\<lambda>_. Max (set vals)"] by (simp add: sum_list_triv)
  then show "sum_list vals / of_nat (length vals) \<le> Max (set vals)"
    using pos by (simp add: pos_divide_le_eq mult.commute)
qed

text \<open>
  A summary is consistent: for every list of samples \<open>summary\<close> returns (\<open>percentile\<close> never reads out
  of range); of samples in any order it returns the same; and of at least one sample the minimum,
  the median, the 99th percentile and the maximum are in this order and the mean lies between minimum and
  maximum, also after rounding.
\<close>

theorem summary_ordered:
  "\<exists>r. summary vals = Inr r \<and> sm_n r = length vals \<and> (\<forall>other. mset other = mset vals \<longrightarrow> summary other = Inr r) \<and>
    (vals = [] \<and> sm_p50 r = None \<and> sm_min r = None \<or>
     (\<exists>lo p50 p99 hi m. sm_min r = Some lo \<and> sm_p50 r = Some p50 \<and> sm_p99 r = Some p99 \<and> sm_max r = Some hi \<and> sm_mean r = Some m \<and>
        lo \<le> p50 \<and> p50 \<le> p99 \<and> p99 \<le> hi \<and> lo \<le> m \<and> m \<le> hi))"
proof -
  have same: "summary other = summary vals" if "mset other = mset vals" for other
  proof -
    have p: "percentile other p = percentile vals p" for p
    proof -
      have "sort other = sort vals" "length other = length vals" "other = [] \<longleftrightarrow> vals = []"
        using that by (auto simp: properties_for_sort dest: mset_eq_length)
      then show ?thesis by (simp add: percentile_def)
    qed
    have "set other = set vals" "length other = length vals" "sum_list other = sum_list vals" "other = [] \<longleftrightarrow> vals = []"
      using that by (auto dest: mset_eq_setD mset_eq_length simp flip: sum_mset_sum_list)
    with p show ?thesis unfolding summary_def by (simp only:)
  qed
  show ?thesis
  proof (cases "vals = []")
    case True
    with same show ?thesis by (simp add: summary_def percentile_def)
  next
    case False
    then obtain x y where xy: "percentile vals 50 = Inr (Some x)" "percentile vals 99 = Inr (Some y)"
        "Min (set vals) \<le> x" "x \<le> y" "y \<le> Max (set vals)"
      by (rule percentile_order [of vals 50 99]) simp_all
    note m = mean_between [OF False]
    let ?r = "\<lparr>sm_n = length vals, sm_min = Some (round2 (Min (set vals))), sm_p50 = Some (round2 x),
      sm_p99 = Some (round2 y), sm_max = Some (round2 (Max (set vals))),
      sm_mean = Some (round2 (sum_list vals / of_nat (length vals)))\<rparr>"
    have r: "summary vals = Inr ?r" using False xy(1,2) by (simp add: summary_def)
    have rm: "round2 a \<le> round2 b" if "a \<le> b" for a b using that by (simp add: round2_def py_round_mono)
    have order: "round2 (Min (set vals)) \<le> round2 x" "round2 x \<le> round2 y" "round2 y \<le> round2 (Max (set vals))"
      "round2 (Min (set vals)) \<le> round2 (sum_list vals / of_nat (length vals))"
      "round2 (sum_list vals / of_nat (length vals)) \<le> round2 (Max (set vals))"
      using rm xy(3-5) m by blast+
    have "\<forall>other. mset other = mset vals \<longrightarrow> summary other = Inr ?r" using same r by simp
    then show ?thesis using r order by (intro exI [of _ ?r] conjI disjI2 exI; (rule refl | assumption | simp only: summary_row.simps))
  qed
qed

theorem summary_ordered_witness:
  "\<exists>r. summary [3, 1, 2] = Inr r \<and> summary [1, 2, 3] = Inr r \<and> sm_n r = 3"
proof -
  have "mset [1, 2, 3 :: rat] = mset [3, 1, 2]" by (simp add: add_mset_commute)
  with summary_ordered [of "[3, 1, 2]"] show ?thesis by auto
qed

section \<open>Proportional set size\<close>

text \<open>
  \<open>line.split()\<close>, and the loop over the lines of a file: the number in the second field of the first
  line with the prefix.
\<close>

definition is_blank :: "char \<Rightarrow> bool" where
  "is_blank c \<longleftrightarrow> c \<in> {CHR 0x20, CHR 0x09, CHR 0x0A, CHR 0x0B, CHR 0x0C, CHR 0x0D}"

fun split_blank :: "string \<Rightarrow> string list" where
  "split_blank [] = []"
| "split_blank (c # s) =
     (if is_blank c then split_blank s
      else case s of
             [] \<Rightarrow> [[c]]
           | d # _ \<Rightarrow> if is_blank d then [c] # split_blank s
                    else (case split_blank s of [] \<Rightarrow> [[c]] | w # ws \<Rightarrow> (c # w) # ws))"

definition starts_with :: "string \<Rightarrow> string \<Rightarrow> bool" where
  "starts_with p s \<longleftrightarrow> take (length p) s = p"

definition second_int :: "string \<Rightarrow> exn + int" where
  "second_int line =
     (case py_index (split_blank line) 1 of
        Inl e \<Rightarrow> Inl e
      | Inr f \<Rightarrow> (case parse_int f of
                    Some i \<Rightarrow> Inr i
                  | None \<Rightarrow> Inl (ValueError (''invalid literal for int() with base 10: '' @ py_repr f))))"

fun find_field :: "string \<Rightarrow> string list \<Rightarrow> (exn + int) option" where
  "find_field p [] = None"
| "find_field p (l # ls) = (if starts_with p l then Some (second_int l) else find_field p ls)"

text \<open>
  \<open>pss_kib\<close>, given what reading a file of \<open>/proc\<close> yields, as lines. Only the listed exceptions are
  caught: \<open>PermissionError\<close> on the first file but not on the second.
\<close>

definition pss_kib :: "(string \<Rightarrow> exn + string list) \<Rightarrow> nat \<Rightarrow> exn + int" where
  "pss_kib proc pid =
     (let fallback =
        (case proc (''/proc/'' @ show_nat pid @ ''/status'') of
           Inl (FileNotFoundError s) \<Rightarrow> Inr 0
         | Inl (ProcessLookupError s) \<Rightarrow> Inr 0
         | Inl e \<Rightarrow> Inl e
         | Inr ls \<Rightarrow> (case find_field ''VmRSS:'' ls of None \<Rightarrow> Inr 0 | Some r \<Rightarrow> r))
      in case proc (''/proc/'' @ show_nat pid @ ''/smaps_rollup'') of
           Inl (FileNotFoundError s) \<Rightarrow> fallback
         | Inl (PermissionError s) \<Rightarrow> fallback
         | Inl (ProcessLookupError s) \<Rightarrow> fallback
         | Inl e \<Rightarrow> Inl e
         | Inr ls \<Rightarrow> (case find_field ''Pss:'' ls of None \<Rightarrow> fallback | Some r \<Rightarrow> r))"

lemma find_field_first:
  assumes "\<forall>l \<in> set pre. \<not> starts_with p l"
  shows "find_field p (pre @ (p @ rest) # post) = Some (second_int (p @ rest))"
  using assms by (induction pre) (simp_all add: starts_with_def)

text \<open>
  A file that cannot be read at all counts as zero, and \<open>VmRSS\<close> is used only when no \<open>Pss\<close> line could be
  found; but a process whose files are not permitted raises.
\<close>

lemma pss_kib_cases:
  "proc (''/proc/'' @ show_nat pid @ ''/smaps_rollup'') = Inr (pre @ (''Pss:'' @ rest) # post) \<Longrightarrow>
     \<forall>l \<in> set pre. \<not> starts_with ''Pss:'' l \<Longrightarrow> pss_kib proc pid = second_int (''Pss:'' @ rest)"
  "(\<And>f. proc f = Inl (ProcessLookupError m)) \<Longrightarrow> pss_kib proc pid = Inr 0"
  "(\<And>f. proc f = Inl (PermissionError m)) \<Longrightarrow> pss_kib proc pid = Inl (PermissionError m)"
  using find_field_first [of pre "''Pss:''" rest post] by (simp_all add: pss_kib_def)

lemma second_int_example: "second_int ''Pss:      1234 kB'' = Inr 1234"
  by (simp add: second_int_def is_blank_def py_index_def parse_digits_def read_nat_def)

end
