(* ===== verification/Timeline_Spec.thy ===== *)
theory Timeline_Spec
  imports Engine_Properties
begin

text \<open>
  What the engine promises, without its tables: a forest of immutable snapshots, the runs they belong
  to, and the instances that sit on them. Every step of the daemon is a step of this specification,
  or none (the database part of \<open>spikes/engine/kladosd.py\<close> is a refinement of it).
\<close>

section \<open>The abstract timeline\<close>

record dag =
  dg_runs :: "string \<rightharpoonup> string"                          \<comment> \<open>the project of a run\<close>
  dg_nodes :: "string \<rightharpoonup> string \<times> string option"          \<comment> \<open>run and parent of a snapshot\<close>
  dg_heads :: "string \<rightharpoonup> string \<times> string option \<times> bool"   \<comment> \<open>run, position and not destroyed, of an instance\<close>

inductive dag_step :: "dag \<Rightarrow> dag \<Rightarrow> bool" where
  Genesis: "r \<notin> dom (dg_runs d) \<Longrightarrow> i \<notin> dom (dg_heads d) \<Longrightarrow>
    dag_step d (d\<lparr>dg_runs := (dg_runs d)(r \<mapsto> p), dg_heads := (dg_heads d)(i \<mapsto> (r, None, True))\<rparr>)"
| Take: "dg_heads d i = Some (r, pos, b) \<Longrightarrow> s \<notin> dom (dg_nodes d) \<Longrightarrow>
    dag_step d (d\<lparr>dg_nodes := (dg_nodes d)(s \<mapsto> (r, pos)), dg_heads := (dg_heads d)(i \<mapsto> (r, Some s, b))\<rparr>)"
| Branch: "dg_nodes d s = Some (r, pos) \<Longrightarrow> set ids \<inter> dom (dg_heads d) = {} \<Longrightarrow> distinct ids \<Longrightarrow>
    dag_step d (d\<lparr>dg_heads := (\<lambda>i. if i \<in> set ids then Some (r, Some s, True) else dg_heads d i)\<rparr>)"
| Kill: "dg_heads d i = Some (r, pos, b) \<Longrightarrow>
    dag_step d (d\<lparr>dg_heads := (dg_heads d)(i \<mapsto> (r, pos, False))\<rparr>)"

inductive_cases dag_stepE: "dag_step d d'"

text \<open>What holds of the specification alone: history is immutable, and what is destroyed stays so.\<close>

lemma dag_step_history:
  assumes "dag_step d d'"
  shows "dg_nodes d \<subseteq>\<^sub>m dg_nodes d' \<and> dg_runs d \<subseteq>\<^sub>m dg_runs d' \<and>
    (\<forall>i r pos b. dg_heads d i = Some (r, pos, b) \<longrightarrow> (\<exists>pos' b'. dg_heads d' i = Some (r, pos', b') \<and> (b' \<longrightarrow> b)))"
  using assms
proof cases
  case (Genesis r i p)
  have "dg_nodes d' = dg_nodes d" "dg_runs d \<subseteq>\<^sub>m dg_runs d'" using Genesis(1,2) by (auto simp: map_le_def)
  with Genesis(1,3) show ?thesis by (auto simp: map_le_def)
next
  case (Take i r pos b s)
  have "dg_nodes d \<subseteq>\<^sub>m dg_nodes d'" "dg_runs d' = dg_runs d" using Take(1,3) by (auto simp: map_le_def)
  with Take(1,2) show ?thesis by (auto simp: map_le_def)
next
  case (Branch s r pos ids)
  have "dg_nodes d' = dg_nodes d" "dg_runs d' = dg_runs d" using Branch(1) by simp_all
  with Branch(1,3) show ?thesis by (auto simp: map_le_def)
next
  case (Kill i r pos b)
  have "dg_nodes d' = dg_nodes d" "dg_runs d' = dg_runs d" using Kill(1) by simp_all
  with Kill(1,2) show ?thesis by (auto simp: map_le_def)
qed

lemma dag_steps_history:
  "dag_step\<^sup>*\<^sup>* d d' \<Longrightarrow> dg_nodes d \<subseteq>\<^sub>m dg_nodes d' \<and> dg_runs d \<subseteq>\<^sub>m dg_runs d' \<and>
    (\<forall>i r pos b. dg_heads d i = Some (r, pos, b) \<longrightarrow> (\<exists>pos' b'. dg_heads d' i = Some (r, pos', b') \<and> (b' \<longrightarrow> b)))"
proof (induction rule: rtranclp_induct)
  case (step y z)
  note s = dag_step_history [OF step.hyps(2)]
  have "dg_nodes d \<subseteq>\<^sub>m dg_nodes z" "dg_runs d \<subseteq>\<^sub>m dg_runs z" using step.IH s map_le_trans by blast+
  moreover have "\<exists>pos' b'. dg_heads z i = Some (r, pos', b') \<and> (b' \<longrightarrow> b)" if "dg_heads d i = Some (r, pos, b)" for i r pos b
    using step.IH s that by meson
  ultimately show ?case by blast
qed simp

section \<open>The tables as a timeline\<close>

definition dag_of :: "tables \<Rightarrow> dag" where
  "dag_of db = \<lparr>
     dg_runs = (\<lambda>k. map_option rn_project (select_row rn_id k (t_runs db))),
     dg_nodes = (\<lambda>k. map_option (\<lambda>s. (sn_run s, sn_parent s)) (select_row sn_id k (t_snapshots db))),
     dg_heads = (\<lambda>k. map_option (\<lambda>i. (in_run i, in_snapshot i, in_state i \<noteq> ''DESTROYED'')) (select_row in_id k (t_instances db)))\<rparr>"

lemma dag_of_simps [simp]:
  "dg_runs (dag_of db) k = map_option rn_project (select_row rn_id k (t_runs db))"
  "dg_nodes (dag_of db) k = map_option (\<lambda>s. (sn_run s, sn_parent s)) (select_row sn_id k (t_snapshots db))"
  "dg_heads (dag_of db) k = map_option (\<lambda>i. (in_run i, in_snapshot i, in_state i \<noteq> ''DESTROYED'')) (select_row in_id k (t_instances db))"
  by (simp_all add: dag_of_def)

lemma dag_of_same:
  "t_runs db' = t_runs db \<Longrightarrow> t_snapshots db' = t_snapshots db \<Longrightarrow> t_instances db' = t_instances db \<Longrightarrow> dag_of db' = dag_of db"
  by (simp add: dag_of_def)

lemma dag_eqI:
  "(\<And>k. dg_runs a k = dg_runs b k) \<Longrightarrow> (\<And>k. dg_nodes a k = dg_nodes b k) \<Longrightarrow> (\<And>k. dg_heads a k = dg_heads b k) \<Longrightarrow> (a :: dag) = b"
  by (intro dag.equality ext) simp_all

lemma set_heads: "dg_heads (d\<lparr>dg_heads := f\<rparr>) = f" for d :: dag
  by simp

lemma dag_add_project: "add_project p db = Inr db' \<Longrightarrow> dag_of db' = dag_of db"
  by (rule dag_of_same) (auto simp: add_project_def split: sum.splits)

text \<open>One abstract step for the effect of each handler.\<close>

lemma dag_run:
  assumes "db_ok db" "add_run rn db = Inr c1" "add_instance i c1 = Inr db'"
    and "in_run i = rn_id rn" "in_snapshot i = None" "in_state i = ''RUNNING''"
  shows "dag_step (dag_of db) (dag_of db')"
proof -
  obtain rs where rs: "insert_row rn_id rn (t_runs db) = Inr rs" "c1 = db\<lparr>t_runs := rs\<rparr>"
    using assms(2) by (auto simp: add_run_def split: sum.splits)
  obtain il where il: "insert_row in_id i (t_instances db) = Inr il" "db' = db\<lparr>t_runs := rs, t_instances := il\<rparr>"
    using assms(3) rs(2) by (auto simp: add_instance_def split: sum.splits)
  have d: "distinct (map rn_id (t_runs db))" "distinct (map in_id (t_instances db))" using assms(1) by (simp_all add: db_ok_def)
  have "dag_of db' = (dag_of db)\<lparr>dg_runs := (dg_runs (dag_of db))(rn_id rn \<mapsto> rn_project rn),
      dg_heads := (dg_heads (dag_of db))(in_id i \<mapsto> (rn_id rn, None, True))\<rparr>"
    using runs.ins_look [OF d(1) rs(1)] insts.ins_look [OF d(2) il(1)] assms(4-6)
    by (intro dag_eqI) (simp_all add: il(2))
  moreover have "rn_id rn \<notin> dom (dg_runs (dag_of db))" "in_id i \<notin> dom (dg_heads (dag_of db))"
    using runs.ins_new [OF d(1) rs(1)] insts.ins_new [OF d(2) il(1)] by (simp_all add: domIff)
  ultimately show ?thesis by (auto intro: dag_step.Genesis)
qed

lemma dag_snapshot:
  assumes "db_ok db" "select_row in_id iid (t_instances db) = Some row" "add_snapshot s db = Inr c1"
    and "sn_run s = in_run row" "sn_parent s = in_snapshot row"
  shows "dag_step (dag_of db) (dag_of (update_instance iid (\<lambda>r. r\<lparr>in_snapshot := Some (sn_id s)\<rparr>) c1))"
proof -
  let ?f = "\<lambda>r. r\<lparr>in_snapshot := Some (sn_id s)\<rparr>"
  obtain ss where ss: "insert_row sn_id s (t_snapshots db) = Inr ss" "c1 = db\<lparr>t_snapshots := ss\<rparr>"
    using assms(3) by (auto simp: add_snapshot_def split: sum.splits)
  have d: "distinct (map sn_id (t_snapshots db))" "distinct (map in_id (t_instances db))" using assms(1) by (simp_all add: db_ok_def)
  have "dag_of (update_instance iid ?f c1) = (dag_of db)\<lparr>dg_nodes := (dg_nodes (dag_of db))(sn_id s \<mapsto> (in_run row, in_snapshot row)),
      dg_heads := (dg_heads (dag_of db))(iid \<mapsto> (in_run row, Some (sn_id s), in_state row \<noteq> ''DESTROYED''))\<rparr>"
    using snaps.ins_look [OF d(1) ss(1)] insts.upd_look [OF d(2), of ?f _ iid] assms(2,4,5)
    by (intro dag_eqI) (simp_all add: ss(2) update_instance_def)
  moreover have "dg_heads (dag_of db) iid = Some (in_run row, in_snapshot row, in_state row \<noteq> ''DESTROYED'')" using assms(2) by simp
  moreover have "sn_id s \<notin> dom (dg_nodes (dag_of db))" using snaps.ins_new [OF d(1) ss(1)] by (simp add: domIff)
  ultimately show ?thesis by (auto intro: dag_step.Take)
qed

lemma dag_fork:
  assumes "db_ok db" "select_row sn_id sid (t_snapshots db) = Some snap"
    and "insts.ins_all rows (t_instances db) = Inr t" "list_all (fork_row snap) rows"
  shows "dag_step (dag_of db) (dag_of (db\<lparr>t_instances := t\<rparr>))"
proof -
  have d: "distinct (map in_id (t_instances db))" using assms(1) by (simp add: db_ok_def)
  note look = insts.ins_all_look [OF d assms(3)]
  have sid: "sn_id snap = sid" using select_row_in [OF assms(2)] by simp
  have heads: "dg_heads (dag_of (db\<lparr>t_instances := t\<rparr>)) i =
      (if i \<in> set (map in_id rows) then Some (sn_run snap, Some sid, True) else dg_heads (dag_of db) i)" for i
  proof (cases "i \<in> set (map in_id rows)")
    case True
    then obtain row where "row \<in> set rows" "in_id row = i" by auto
    moreover from this have "select_row in_id i t = Some row" using look by auto
    moreover have "fork_row snap row" using assms(4) \<open>row \<in> set rows\<close> by (simp add: list_all_iff)
    ultimately show ?thesis using True sid by (simp add: fork_row_def)
  next
    case False
    then have "select_row in_id i t = select_row in_id i (t_instances db)" using look by simp
    with False show ?thesis by simp
  qed
  have "dag_of (db\<lparr>t_instances := t\<rparr>) = (dag_of db)\<lparr>dg_heads :=
      (\<lambda>i. if i \<in> set (map in_id rows) then Some (sn_run snap, Some sid, True) else dg_heads (dag_of db) i)\<rparr>"
  proof (rule dag_eqI)
    fix k
    show "dg_heads (dag_of (db\<lparr>t_instances := t\<rparr>)) k = dg_heads ((dag_of db)\<lparr>dg_heads :=
      (\<lambda>i. if i \<in> set (map in_id rows) then Some (sn_run snap, Some sid, True) else dg_heads (dag_of db) i)\<rparr>) k"
      using heads [of k] by (simp only: set_heads)
  qed simp_all
  moreover have "dg_nodes (dag_of db) sid = Some (sn_run snap, sn_parent snap)" using assms(2) by simp
  moreover have "set (map in_id rows) \<inter> dom (dg_heads (dag_of db)) = {}" using look by (auto simp: dom_def)
  moreover have "distinct (map in_id rows)" using look by blast
  ultimately show ?thesis using dag_step.Branch [of "dag_of db" sid "sn_run snap" "sn_parent snap" "map in_id rows"] by (simp only:)
qed

lemma dag_destroy:
  assumes "db_ok db"
  shows "dag_step\<^sup>=\<^sup>= (dag_of db) (dag_of (update_instance iid (\<lambda>r. r\<lparr>in_state := ''DESTROYED''\<rparr>) db))"
proof -
  let ?f = "\<lambda>r. r\<lparr>in_state := ''DESTROYED''\<rparr>"
  have d: "distinct (map in_id (t_instances db))" using assms by (simp add: db_ok_def)
  note look = insts.upd_look [OF d, of ?f _ iid]
  show ?thesis
  proof (cases "select_row in_id iid (t_instances db)")
    case None
    have "dag_of (update_instance iid ?f db) = dag_of db"
      using look None by (intro dag_eqI) (simp_all add: update_instance_def)
    then show ?thesis by simp
  next
    case (Some row)
    have "dag_of (update_instance iid ?f db) =
        (dag_of db)\<lparr>dg_heads := (dg_heads (dag_of db))(iid \<mapsto> (in_run row, in_snapshot row, False))\<rparr>"
      using look Some by (intro dag_eqI) (simp_all add: update_instance_def)
    moreover have "dg_heads (dag_of db) iid = Some (in_run row, in_snapshot row, in_state row \<noteq> ''DESTROYED'')" using Some by simp
    ultimately show ?thesis by (auto intro: dag_step.Kill)
  qed
qed

lemma engine_step_dag:
  assumes "engine_step ev w w'" "db_ok (w_db w)"
  shows "dag_step\<^sup>=\<^sup>= (dag_of (w_db w)) (dag_of (w_db w'))"
  using assms(1)
proof (cases rule: engine_step.cases)
  case (StepProject name r)
  from create_project_effect [OF StepProject] consider "w_db w' = w_db w" | p where "add_project p (w_db w) = Inr (w_db w')" by blast
  then have "dag_of (w_db w') = dag_of (w_db w)" by cases (simp_all add: dag_add_project)
  then show ?thesis by simp
next
  case (StepRun p img r)
  consider "w_db w' = w_db w" | rid iid t1 t2 bound c1 where
      "add_run \<lparr>rn_id = rid, rn_project = p, rn_image = bound, rn_created = t1\<rparr> (w_db w) = Inr c1"
      "add_instance \<lparr>in_id = iid, in_run = rid, in_snapshot = None, in_state = ''RUNNING'', in_branch = ''genesis'', in_created = t2\<rparr> c1 = Inr (w_db w')"
    using create_run_effect [OF StepRun] by blast
  then show ?thesis
    by cases (simp, simp add: dag_run [OF assms(2)])
next
  case (StepSnapshot iid label r)
  consider "w_db w' = w_db w" | row s sid c1 where "select_row in_id iid (t_instances (w_db w)) = Some row"
      "add_snapshot s (w_db w) = Inr c1" "sn_id s = sid" "sn_run s = in_run row" "sn_parent s = in_snapshot row"
      "w_db w' = update_instance iid (\<lambda>r. r\<lparr>in_snapshot := Some sid\<rparr>) c1"
    using snapshot_effect [OF StepSnapshot] by (metis snapshot_row.select_convs(1-3))
  then show ?thesis
  proof cases
    case 2
    with dag_snapshot [OF assms(2) 2(1,2,4,5)] show ?thesis by simp
  qed simp
next
  case (StepFork sid n r)
  consider "w_db w' = w_db w" | snap rows t where "select_row sn_id sid (t_snapshots (w_db w)) = Some snap"
      "insts.ins_all rows (t_instances (w_db w)) = Inr t" "list_all (fork_row snap) rows" "w_db w' = (w_db w)\<lparr>t_instances := t\<rparr>"
    using fork_effect [OF StepFork] by blast
  then show ?thesis
  proof cases
    case 2
    with dag_fork [OF assms(2) 2(1-3)] show ?thesis by simp
  qed simp
next
  case (StepDestroy iid r)
  then have "w_db w' = update_instance iid (\<lambda>r. r\<lparr>in_state := ''DESTROYED''\<rparr>) (w_db w)" by (rule destroy_effect [THEN conjunct1])
  with dag_destroy [OF assms(2), of iid] show ?thesis by (simp only:)
next
  case (StepMeter u)
  then have "dag_of (w_db w') = dag_of (w_db w)" by (simp add: dag_of_def)
  then show ?thesis by simp
next
  case (StepRestart chunk_files srv h ids toks r)
  from init_db_effect [OF StepRestart] consider "w_db w' = w_db w" | p where "add_project p (w_db w) = Inr (w_db w')" by blast
  then have "dag_of (w_db w') = dag_of (w_db w)" by cases (simp_all add: dag_add_project)
  then show ?thesis by simp
qed simp

text \<open>
  C6. The engine implements the abstract timeline: whatever sequence of requests, failures, metering
  ticks, host events and restarts the daemon goes through, its tables go through a sequence of steps of
  the specification, each of which starts a run, takes a snapshot, branches from a snapshot or
  destroys an instance. In particular no snapshot ever changes its run or its parent, and no
  instance comes back after it was destroyed.
\<close>

theorem engine_refines_timeline:
  assumes "(engine_step ev)\<^sup>*\<^sup>* w w'" and "db_ok (w_db w)"
  shows "dag_step\<^sup>*\<^sup>* (dag_of (w_db w)) (dag_of (w_db w')) \<and>
    dg_nodes (dag_of (w_db w)) \<subseteq>\<^sub>m dg_nodes (dag_of (w_db w')) \<and>
    (\<forall>i row. select_row in_id i (t_instances (w_db w)) = Some row \<and> in_state row = ''DESTROYED'' \<longrightarrow>
       (\<exists>row'. select_row in_id i (t_instances (w_db w')) = Some row' \<and> in_state row' = ''DESTROYED'' \<and> in_run row' = in_run row))"
proof -
  have sim: "dag_step\<^sup>*\<^sup>* (dag_of (w_db w)) (dag_of (w_db w'))"
    using assms(1)
  proof (induction rule: rtranclp_induct)
    case (step y z)
    have "dag_step\<^sup>=\<^sup>= (dag_of (w_db y)) (dag_of (w_db z))"
      using engine_step_dag [OF step.hyps(2) engine_steps_ok [OF step.hyps(1) assms(2)]] .
    with step.IH show ?case by (auto intro: rtranclp.rtrancl_into_rtrancl)
  qed simp
  have dead: "\<exists>row'. select_row in_id i (t_instances (w_db w')) = Some row' \<and> in_state row' = ''DESTROYED'' \<and> in_run row' = in_run row"
    if "select_row in_id i (t_instances (w_db w)) = Some row" "in_state row = ''DESTROYED''" for i row
  proof -
    have "dg_heads (dag_of (w_db w)) i = Some (in_run row, in_snapshot row, False)" using that by simp
    with dag_steps_history [OF sim] have "\<exists>pos' b'. dg_heads (dag_of (w_db w')) i = Some (in_run row, pos', b') \<and> (b' \<longrightarrow> False)" by blast
    then show ?thesis by auto
  qed
  show ?thesis using sim dag_steps_history [OF sim] dead by blast
qed

theorem engine_refines_timeline_witness:
  "\<exists>w'. (engine_step (demo_engine 9))\<^sup>*\<^sup>* demo_world w' \<and> dag_of (w_db w') \<noteq> dag_of demo_tables \<and>
     dag_step\<^sup>*\<^sup>* (dag_of demo_tables) (dag_of (w_db w'))"
proof -
  obtain vm1 vm2 t1 t2 w' where f: "fork_snapshot (demo_engine 9) ''s'' 2 demo_world =
     (Inr (JObj [(''children'', JList [child_json (demo_row ''id0'' 0 2 t1), child_json (demo_row ''id1'' 1 2 t2)])]), w')"
     "w_db w' = demo_tables\<lparr>t_instances := [demo_row ''id0'' 0 2 t1, demo_row ''id1'' 1 2 t2]\<rparr>"
    using demo_fork_two by blast
  have run: "(engine_step (demo_engine 9))\<^sup>*\<^sup>* demo_world w'"
    using StepFork [OF f(1)] by (rule r_into_rtranclp)
  have ok: "db_ok (w_db demo_world)" by (simp add: demo_world_facts demo_tables_ok)
  have "dg_heads (dag_of (w_db w')) ''id0'' \<noteq> dg_heads (dag_of demo_tables) ''id0''"
    by (simp add: f(2) select_row_def demo_tables_def)
  then have "dag_of (w_db w') \<noteq> dag_of demo_tables" by metis
  moreover have "dag_step\<^sup>*\<^sup>* (dag_of demo_tables) (dag_of (w_db w'))"
    using engine_refines_timeline [OF run ok] by (simp add: demo_world_facts)
  ultimately show ?thesis using run by blast
qed

end
