(* ===== verification/Web_Socket.thy ===== *)
theory Web_Socket
  imports Wire
begin

text \<open>
  The WebSocket client of the browser workload (class \<open>WS\<close> of \<open>spikes/guest/browser_workload.py\<close>):
  \<open>send\<close>, \<open>_read\<close>, \<open>recv\<close>, and the evaluation loop \<open>ev\<close> over them. The peer is described by the frame
  format of RFC 6455; a socket is the sequence of segments that arrive on it.
\<close>

unbundle bit_operations_syntax

section \<open>Sending\<close>

text \<open>\<open>struct.pack(">H", n)\<close> and \<open>struct.pack(">Q", n)\<close>: \<open>k\<close> bytes, most significant first.\<close>

definition be_bytes :: "nat \<Rightarrow> nat \<Rightarrow> bytes" where
  "be_bytes k n = map (\<lambda>i. of_nat (n div 256 ^ (k - 1 - i))) [0..<k]"

definition be_value :: "bytes \<Rightarrow> nat" where
  "be_value bs = foldl (\<lambda>acc b. 256 * acc + unat b) 0 bs"

text \<open>The length field after the first byte; \<open>bit\<close> is the mask bit (\<open>0x80\<close> for a client).\<close>

definition length_field :: "byte \<Rightarrow> nat \<Rightarrow> exn + bytes" where
  "length_field mask_bit n =
     (if n < 126 then Inr [mask_bit OR of_nat n]
      else if n < 65536 then Inr ((mask_bit OR 126) # be_bytes 2 n)
      else if n < 2 ^ 64 then Inr ((mask_bit OR 127) # be_bytes 8 n)
      else Inl (ValueError ''int too large to convert''))"

definition xor_mask :: "bytes \<Rightarrow> bytes \<Rightarrow> bytes" where
  "xor_mask key data = map (\<lambda>i. (data ! i) XOR (key ! (i mod 4))) [0..<length data]"

text \<open>\<open>send\<close>, given the four bytes of \<open>os.urandom(4)\<close>: the bytes written to the socket.\<close>

definition ws_send :: "codec \<Rightarrow> bytes \<Rightarrow> json \<Rightarrow> exn + bytes" where
  "ws_send K key obj =
     (let data = encode (dumps K obj)
      in case length_field 0x80 (length data) of
           Inl e \<Rightarrow> Inl e
         | Inr len \<Rightarrow> Inr ([0x81] @ len @ key @ xor_mask key data))"

section \<open>Receiving\<close>

type_synonym segments = "(exn + bytes) list"

text \<open>\<open>recv(n)\<close>: at most \<open>n\<close> bytes of the next segment, the exception of a failing read, or nothing at the end.\<close>

fun sock_recv :: "nat \<Rightarrow> segments \<Rightarrow> (exn + bytes) \<times> segments" where
  "sock_recv n [] = (Inr [], [])"
| "sock_recv n (Inl e # cs) = (Inl e, cs)"
| "sock_recv n (Inr c # cs) = (Inr (take n c), if length c \<le> n then cs else Inr (drop n c) # cs)"

function ws_read :: "nat \<Rightarrow> bytes \<Rightarrow> segments \<Rightarrow> (exn + bytes) \<times> segments" where
  "ws_read n d cs =
     (if length d < n
      then (case sock_recv (n - length d) cs of
              (Inl e, cs') \<Rightarrow> (Inl e, cs')
            | (Inr c, cs') \<Rightarrow> if c = [] then (Inl (ConnectionError ''ws closed''), cs') else ws_read n (d @ c) cs')
      else (Inr d, cs))"
  by pat_completeness auto
termination
  by (relation "measure (\<lambda>(n, d, cs). n - length d)") (auto simp: less_Suc_eq_le intro!: diff_less_mono2)

declare ws_read.simps [simp del]

definition ws_length :: "byte \<Rightarrow> segments \<Rightarrow> (exn + nat) \<times> segments" where
  "ws_length b1 =
     (let ln = unat (b1 AND 0x7F)
      in if ln = 126 then andthen (ws_read 2 []) (\<lambda>d. ret (be_value d))
         else if ln = 127 then andthen (ws_read 8 []) (\<lambda>d. ret (be_value d))
         else ret ln)"

text \<open>\<open>recv\<close>: \<open>None\<close> for a control frame.\<close>

definition ws_recv :: "codec \<Rightarrow> segments \<Rightarrow> (exn + json option) \<times> segments" where
  "ws_recv K =
     andthen (ws_read 1 []) (\<lambda>b0.
     andthen (ws_read 1 []) (\<lambda>b1.
     andthen (ws_length (b1 ! 0)) (\<lambda>ln.
     andthen (ws_read ln []) (\<lambda>payload.
       if (b0 ! 0) AND 0x0F \<noteq> 1 \<and> (b0 ! 0) AND 0x0F \<noteq> 2 then ret None
       else (\<lambda>s. (map_sum id Some (loads K (decode_bytes payload)), s))))))"

section \<open>Reading is independent of the segments\<close>

text \<open>The bytes that arrive before the first failing read or the end.\<close>

definition arrives :: "bytes \<Rightarrow> segments \<Rightarrow> segments \<Rightarrow> bool" where
  "arrives data cs rest \<longleftrightarrow> (\<exists>bs. cs = map Inr bs @ rest \<and> concat bs = data \<and> [] \<notin> set bs)"

lemma ws_read_arrives:
  "length d \<le> n \<Longrightarrow> length data = n - length d \<Longrightarrow> arrives (data @ after) cs rest \<Longrightarrow>
    \<exists>cs'. ws_read n d cs = (Inr (d @ data), cs') \<and> arrives after cs' rest"
proof (induction n d cs arbitrary: data rule: ws_read.induct)
  case (1 n d cs)
  show ?case
  proof (cases "length d < n")
    case False
    with "1.prems" show ?thesis by (subst ws_read.simps) auto
  next
    case True
    then have ne: "data \<noteq> []" using "1.prems"(2) by auto
    obtain bs where bs: "cs = map Inr bs @ rest" "concat bs = data @ after" "[] \<notin> set bs"
      using "1.prems"(3) by (auto simp: arrives_def)
    obtain c bs' where c: "bs = c # bs'" using bs(2) ne by (cases bs) auto
    have cne: "c \<noteq> []" using bs(3) c by auto
    let ?m = "n - length d"
    let ?cs' = "if length c \<le> ?m then map Inr bs' @ rest else Inr (drop ?m c) # map Inr bs' @ rest"
    have recv: "sock_recv ?m cs = (Inr (take ?m c), ?cs')" by (simp add: bs(1) c)
    have tne: "take ?m c \<noteq> []" using cne True by simp
    have whole: "c @ concat bs' = data @ after" using bs(2) c by simp
    have take_data: "data = take ?m c @ drop (length c) data"
    proof (cases "length c \<le> ?m")
      case True
      have "take (length c) (data @ after) = c" using whole by (metis append_eq_conv_conj)
      then have "take (length c) data = c" using True "1.prems"(2) by simp
      then show ?thesis using append_take_drop_id [of "length c" data] True by simp
    next
      case False
      have "take ?m (c @ concat bs') = take ?m (data @ after)" using whole by simp
      with False "1.prems"(2) show ?thesis by simp
    qed
    have rest_arrives: "arrives (drop (length c) data @ after) ?cs' rest"
    proof (cases "length c \<le> ?m")
      case True
      have "concat bs' = drop (length c) (data @ after)" using whole by (metis append_eq_conv_conj)
      with True "1.prems"(2) bs(3) c show ?thesis unfolding arrives_def
        by (intro exI [of _ bs']) auto
    next
      case False
      have "drop ?m c @ concat bs' = drop ?m (data @ after)" using whole False by (metis drop_append diff_is_0_eq' drop0 nle_le)
      with False "1.prems"(2) bs(3) c show ?thesis unfolding arrives_def
        by (intro exI [of _ "drop ?m c # bs'"]) auto
    qed
    have len: "length (d @ take ?m c) \<le> n" "length (drop (length c) data) = n - length (d @ take ?m c)"
      using "1.prems" True by auto
    from "1.IH" [OF True recv [symmetric] refl tne len rest_arrives]
    obtain cs'' where "ws_read n (d @ take ?m c) ?cs' = (Inr ((d @ take ?m c) @ drop (length c) data), cs'')" "arrives after cs'' rest"
      by blast
    with True recv tne take_data show ?thesis by (subst ws_read.simps) auto
  qed
qed

section \<open>The frame format\<close>

text \<open>
  RFC 6455, section 5.2, as the peer reads and writes it: first byte, length, and the payload, which is
  masked when the mask bit is set.
\<close>

definition rfc_length :: "nat \<Rightarrow> bytes \<Rightarrow> nat \<times> bytes" where
  "rfc_length l7 r =
     (if l7 = 126 then (be_value (take 2 r), drop 2 r)
      else if l7 = 127 then (be_value (take 8 r), drop 8 r) else (l7, r))"

definition rfc_decode :: "bytes \<Rightarrow> (byte \<times> bytes) option" where
  "rfc_decode f =
     (case f of
        b0 # b1 # r \<Rightarrow>
          (let (n, r) = rfc_length (unat (b1 AND 0x7F)) r
           in Some (b0, if b1 AND 0x80 = 0x80 then xor_mask (take 4 r) (take n (drop 4 r)) else take n r))
      | _ \<Rightarrow> None)"

definition server_frame :: "byte \<Rightarrow> bytes \<Rightarrow> bytes" where
  "server_frame op payload = (0x80 OR op) # (case length_field 0 (length payload) of Inl e \<Rightarrow> [] | Inr len \<Rightarrow> len) @ payload"

lemma length_be_bytes [simp]: "length (be_bytes k n) = k"
  by (simp add: be_bytes_def)

lemma be_bytes_Suc: "be_bytes (Suc k) n = of_nat (n div 256 ^ k) # be_bytes k n"
proof -
  have "be_bytes (Suc k) n = map (\<lambda>i. of_nat (n div 256 ^ (k - i))) (0 # map Suc [0..<k])"
    by (simp only: be_bytes_def upt_conv_Cons zero_less_Suc map_Suc_upt) simp
  then show ?thesis by (simp add: be_bytes_def comp_def)
qed

lemma be_value_fold: "foldl (\<lambda>acc b. 256 * acc + unat b) a bs = a * 256 ^ length bs + be_value bs"
proof (induction bs arbitrary: a)
  case (Cons b bs)
  have "be_value (b # bs) = unat b * 256 ^ length bs + be_value bs"
    using Cons.IH [of "unat b"] by (simp add: be_value_def)
  with Cons.IH [of "256 * a + unat b"] show ?case by (simp add: algebra_simps)
qed (simp add: be_value_def)

lemma be_value_Cons: "be_value (b # bs) = unat b * 256 ^ length bs + be_value bs"
  using be_value_fold [of "unat b" bs] by (simp add: be_value_def)

lemma be_value_bytes [simp]: "be_value (be_bytes k n) = n mod 256 ^ k"
proof (induction k)
  case (Suc k)
  have "n mod (256 ^ k * 256) = 256 ^ k * (n div 256 ^ k mod 256) + n mod 256 ^ k"
    by (rule mod_mult2_eq)
  with Suc show ?case by (simp add: be_bytes_Suc be_value_Cons unsigned_of_nat take_bit_eq_mod mult.commute)
qed (simp add: be_bytes_def be_value_def)

text \<open>The two bit patterns of the length byte, for the lengths that fit it.\<close>

lemma length_byte:
  "n < 126 \<Longrightarrow> unat ((0x80 OR of_nat n :: byte) AND 0x7F) = n \<and> (0x80 OR of_nat n :: byte) AND 0x80 = 0x80 \<and>
     unat ((0 OR of_nat n :: byte) AND 0x7F) = n"
proof -
  have "list_all (\<lambda>n. unat ((0x80 OR of_nat n :: byte) AND 0x7F) = n \<and> (0x80 OR of_nat n :: byte) AND 0x80 = 0x80 \<and>
     unat ((0 OR of_nat n :: byte) AND 0x7F) = n) [0..<126]" by code_simp
  moreover assume "n < 126"
  ultimately show ?thesis by (simp only: list_all_iff set_upt atLeastLessThan_iff) simp
qed

lemma xor_mask_twice: "xor_mask key (xor_mask key data) = data"
  by (rule nth_equalityI) (simp_all add: xor_mask_def xor.assoc [symmetric] xor.assoc)

text \<open>Any peer that follows the format reads the length back, whichever of the three forms it has.\<close>

lemma length_field_cases:
  assumes "n < 2 ^ 64" "m = 0 \<or> m = 0x80"
  obtains b1 ext where "length_field m n = Inr (b1 # ext)" "\<And>r. rfc_length (unat (b1 AND 0x7F)) (ext @ r) = (n, r)"
    "b1 AND 0x80 = m" "unat (b1 AND 0x7F) = 126 \<and> length ext = 2 \<and> be_value ext = n \<or>
      unat (b1 AND 0x7F) = 127 \<and> length ext = 8 \<and> be_value ext = n \<or> unat (b1 AND 0x7F) = n \<and> n < 126 \<and> ext = []"
proof -
  have small: "(0 OR of_nat n :: byte) AND 0x80 = 0" if "n < 126"
  proof -
    have "list_all (\<lambda>n. (0 OR of_nat n :: byte) AND 0x80 = 0) [0..<126]" by code_simp
    with that show ?thesis by (simp only: list_all_iff set_upt atLeastLessThan_iff) simp
  qed
  have big: "unat ((0x80 OR 126 :: byte) AND 0x7F) = 126" "unat ((0 OR 126 :: byte) AND 0x7F) = 126"
    "unat ((0x80 OR 127 :: byte) AND 0x7F) = 127" "unat ((0 OR 127 :: byte) AND 0x7F) = 127"
    "(0x80 OR 126 :: byte) AND 0x80 = 0x80" "(0 OR 126 :: byte) AND 0x80 = 0"
    "(0x80 OR 127 :: byte) AND 0x80 = 0x80" "(0 OR 127 :: byte) AND 0x80 = 0"
    by code_simp+
  consider "n < 126" | "126 \<le> n" "n < 65536" | "65536 \<le> n" by linarith
  then show thesis
  proof cases
    case 1
    with length_byte [OF 1] small [OF 1] assms(2) show thesis
      by (intro that [of "m OR of_nat n" "[]"]) (auto simp: length_field_def rfc_length_def)
  next
    case 2
    with big assms(2) show thesis
      by (intro that [of "m OR 126" "be_bytes 2 n"]) (auto simp: length_field_def rfc_length_def)
  next
    case 3
    with big assms show thesis
      by (intro that [of "m OR 127" "be_bytes 8 n"]) (auto simp: length_field_def rfc_length_def)
  qed
qed

lemma ws_send_decodes:
  assumes "length key = 4" "length (dumps K obj) < 2 ^ 64"
  shows "\<exists>f. ws_send K key obj = Inr f \<and> (\<forall>rest. rfc_decode (f @ rest) = Some (0x81, encode (dumps K obj)))"
proof -
  let ?data = "encode (dumps K obj)"
  obtain b1 ext where len: "length_field 0x80 (length ?data) = Inr (b1 # ext)"
      "\<And>r. rfc_length (unat (b1 AND 0x7F)) (ext @ r) = (length ?data, r)" "b1 AND 0x80 = 0x80"
    using length_field_cases [of "length ?data" "0x80"] assms(2) by (metis length_encode)
  have f: "ws_send K key obj = Inr ([0x81] @ (b1 # ext) @ key @ xor_mask key ?data)"
    by (simp add: ws_send_def Let_def len(1) del: length_encode)
  have "rfc_decode (([0x81] @ (b1 # ext) @ key @ xor_mask key ?data) @ rest) = Some (0x81, ?data)" for rest
  proof -
    have "take 4 (key @ xor_mask key ?data @ rest) = key" "drop 4 (key @ xor_mask key ?data @ rest) = xor_mask key ?data @ rest"
      using assms(1) by simp_all
    moreover have "take (length ?data) (xor_mask key ?data @ rest) = xor_mask key ?data" by (simp add: xor_mask_def)
    ultimately show ?thesis by (simp add: rfc_decode_def len(2,3) xor_mask_twice del: length_encode)
  qed
  with f show ?thesis by blast
qed

text \<open>A frame of the peer is read whole, whatever segments it arrives in.\<close>

lemma read_arrives:
  "arrives (data @ after) cs rest \<Longrightarrow> length data = n \<Longrightarrow> \<exists>cs'. ws_read n [] cs = (Inr data, cs') \<and> arrives after cs' rest"
  using ws_read_arrives [of "[]" n data after cs rest] by auto

lemma length_arrives:
  assumes "arrives (ext @ after) cs rest"
    and "unat (b1 AND 0x7F) = 126 \<and> length ext = 2 \<and> be_value ext = n \<or>
      unat (b1 AND 0x7F) = 127 \<and> length ext = 8 \<and> be_value ext = n \<or> unat (b1 AND 0x7F) = n \<and> n < 126 \<and> ext = []"
  shows "\<exists>cs'. ws_length b1 cs = (Inr n, cs') \<and> arrives after cs' rest"
  using assms(2)
proof (elim disjE conjE)
  assume l: "unat (b1 AND 0x7F) = 126" "length ext = 2" "be_value ext = n"
  with read_arrives [OF assms(1) l(2)] show ?thesis by (auto simp: ws_length_def Let_def ret_def andthen_Inr)
next
  assume l: "unat (b1 AND 0x7F) = 127" "length ext = 8" "be_value ext = n"
  with read_arrives [OF assms(1) l(2)] show ?thesis by (auto simp: ws_length_def Let_def ret_def andthen_Inr)
next
  assume l: "unat (b1 AND 0x7F) = n" "n < 126" "ext = []"
  with assms(1) show ?thesis by (simp add: ws_length_def Let_def ret_def)
qed

lemma ws_recv_frame:
  assumes "arrives (server_frame op payload @ after) cs rest" "length payload < 2 ^ 64"
  shows "\<exists>cs'. arrives after cs' rest \<and> ws_recv K cs =
    ((if (0x80 OR op) AND 0x0F \<noteq> 1 \<and> (0x80 OR op) AND 0x0F \<noteq> 2 then Inr None else map_sum id Some (loads K (decode_bytes payload))), cs')"
proof -
  obtain b1 ext where len: "length_field 0 (length payload) = Inr (b1 # ext)"
    "unat (b1 AND 0x7F) = 126 \<and> length ext = 2 \<and> be_value ext = length payload \<or>
      unat (b1 AND 0x7F) = 127 \<and> length ext = 8 \<and> be_value ext = length payload \<or>
      unat (b1 AND 0x7F) = length payload \<and> length payload < 126 \<and> ext = []"
    using length_field_cases [OF assms(2), of 0] by metis
  have a: "arrives ([0x80 OR op] @ [b1] @ ext @ payload @ after) cs rest"
    using assms(1) by (simp add: server_frame_def len(1))
  obtain c1 where c1: "ws_read 1 [] cs = (Inr [0x80 OR op], c1)"
      "arrives ([b1] @ ext @ payload @ after) c1 rest"
    using read_arrives [OF a] by auto
  obtain c2 where c2: "ws_read 1 [] c1 = (Inr [b1], c2)"
      "arrives (ext @ payload @ after) c2 rest"
    using read_arrives [OF c1(2)] by auto
  obtain c3 where c3: "ws_length b1 c2 = (Inr (length payload), c3)"
      "arrives (payload @ after) c3 rest"
    using length_arrives [OF c2(2) len(2)] by blast
  obtain c4 where c4: "ws_read (length payload) [] c3 = (Inr payload, c4)"
      "arrives after c4 rest"
    using read_arrives [OF c3(2)] by auto
  have "ws_recv K cs = (if (0x80 OR op) AND 0x0F \<noteq> 1 \<and> (0x80 OR op) AND 0x0F \<noteq> 2 then ret None
       else (\<lambda>s. (map_sum id Some (loads K (decode_bytes payload)), s))) c4"
    unfolding ws_recv_def by (simp add: andthen_def c1(1) [simplified] c2(1) [simplified] c3(1) c4(1))
  with c4(2) show ?thesis by (auto simp: ret_def)
qed

section \<open>Evaluating in the page\<close>

text \<open>
  The receive loop of \<open>ev\<close>: answers to other requests, events and control frames are skipped until the
  answer with the request's number arrives. \<open>m and ...\<close> is false for the empty values.
\<close>

lemma ws_read_shrinks:
  "ws_read n d cs = (Inr x, cs') \<Longrightarrow> length x = max n (length d) \<and>
    sum_list (map (\<lambda>c. case c of Inl e \<Rightarrow> 0 | Inr b \<Rightarrow> length b) cs') + (length x - length d)
      = sum_list (map (\<lambda>c. case c of Inl e \<Rightarrow> 0 | Inr b \<Rightarrow> length b) cs)"
proof (induction n d cs rule: ws_read.induct)
  case (1 n d cs)
  show ?case
  proof (cases "length d < n")
    case False
    with "1.prems" show ?thesis by (subst (asm) ws_read.simps) auto
  next
    case True
    obtain r cs1 where recv: "sock_recv (n - length d) cs = (r, cs1)" by fastforce
    obtain c where c: "r = Inr c" "c \<noteq> []" "ws_read n (d @ c) cs1 = (Inr x, cs')"
      using "1.prems" True recv by (subst (asm) ws_read.simps) (auto split: sum.splits if_splits)
    have step: "length c \<le> n - length d \<and> sum_list (map (\<lambda>c. case c of Inl e \<Rightarrow> 0 | Inr b \<Rightarrow> length b) cs1) + length c
        = sum_list (map (\<lambda>c. case c of Inl e \<Rightarrow> 0 | Inr b \<Rightarrow> length b) cs)"
      using recv c(1,2) by (induction "n - length d" cs rule: sock_recv.induct) (auto split: if_splits)
    from "1.IH" [OF True recv [symmetric] c(1,2) c(3)] step True show ?thesis by auto
  qed
qed

definition pending :: "segments \<Rightarrow> nat" where
  "pending cs = sum_list (map (\<lambda>c. case c of Inl e \<Rightarrow> 0 | Inr b \<Rightarrow> length b) cs)"

lemma ws_recv_shrinks: "ws_recv K cs = (Inr m, cs') \<Longrightarrow> pending cs' < pending cs"
proof -
  assume r: "ws_recv K cs = (Inr m, cs')"
  have read: "pending s' + n = pending s" if "ws_read n [] s = (Inr x, s')" for n s x s'
    using ws_read_shrinks [OF that] by (simp add: pending_def)
  have len: "pending s' \<le> pending s" if "ws_length b s = (Inr n, s')" for b n s s'
    using that by (auto simp: ws_length_def Let_def andthen_def ret_def split: if_splits prod.splits sum.splits dest!: read)
  obtain b0 s1 where s1: "ws_read 1 [] cs = (Inr b0, s1)" using r by (auto simp: ws_recv_def elim!: andthen_InrE)
  with r obtain b1 s2 where s2: "ws_read 1 [] s1 = (Inr b1, s2)" by (auto simp: ws_recv_def andthen_Inr elim!: andthen_InrE)
  with r s1 obtain n s3 where s3: "ws_length (b1 ! 0) s2 = (Inr n, s3)" by (auto simp: ws_recv_def andthen_Inr elim!: andthen_InrE)
  with r s1 s2 obtain p s4 where s4: "ws_read n [] s3 = (Inr p, s4)" by (auto simp: ws_recv_def andthen_Inr elim!: andthen_InrE)
  have "cs' = s4" using r s1 s2 s3 s4 by (auto simp: ws_recv_def andthen_Inr ret_def split: if_splits)
  with read [OF s1] read [OF s2] len [OF s3] read [OF s4] show ?thesis by simp
qed

definition is_number :: "json option \<Rightarrow> int \<Rightarrow> bool" where
  "is_number j i = (case j of Some (JInt k) \<Rightarrow> k = i | Some (JNum x) \<Rightarrow> x = of_int i | Some (JBool b) \<Rightarrow> (if b then 1 else 0) = i | _ \<Rightarrow> False)"

definition get_or :: "json \<Rightarrow> string \<Rightarrow> json \<Rightarrow> exn + json" where
  "get_or j k dflt = (case json_get j k of Inl e \<Rightarrow> Inl e | Inr None \<Rightarrow> Inr dflt | Inr (Some v) \<Rightarrow> Inr v)"

text \<open>\<open>m.get("result", {}).get("result", {}).get("value")\<close>.\<close>

definition ev_value :: "json \<Rightarrow> exn + json" where
  "ev_value m =
     (case get_or m ''result'' (JObj []) of
        Inl e \<Rightarrow> Inl e
      | Inr r1 \<Rightarrow> (case get_or r1 ''result'' (JObj []) of Inl e \<Rightarrow> Inl e | Inr r2 \<Rightarrow> get_or r2 ''value'' JNull))"

function ev_loop :: "codec \<Rightarrow> int \<Rightarrow> segments \<Rightarrow> (exn + json) \<times> segments" where
  "ev_loop K mid cs =
     (case ws_recv K cs of
        (Inl e, cs') \<Rightarrow> (Inl e, cs')
      | (Inr None, cs') \<Rightarrow> ev_loop K mid cs'
      | (Inr (Some m), cs') \<Rightarrow>
          if \<not> json_truth m then ev_loop K mid cs'
          else (case json_get m ''id'' of
                  Inl e \<Rightarrow> (Inl e, cs')
                | Inr i \<Rightarrow> if is_number i mid then (ev_value m, cs') else ev_loop K mid cs'))"
  by pat_completeness auto
termination
  by (relation "measure (\<lambda>(K, mid, cs). pending cs)") (simp_all, (rule ws_recv_shrinks, rule sym, assumption)+)

declare ev_loop.simps [simp del]

definition ev_message :: "int \<Rightarrow> string \<Rightarrow> json" where
  "ev_message mid expr = JObj [(''id'', JInt mid), (''method'', JStr ''Runtime.evaluate''),
     (''params'', JObj [(''expression'', JStr expr), (''returnByValue'', JBool True)])]"

text \<open>The whole of \<open>ev\<close>: the number is drawn, the request is written, the answer awaited.\<close>

definition ws_ev :: "codec \<Rightarrow> bytes \<Rightarrow> string \<Rightarrow> int \<Rightarrow> segments \<Rightarrow> ((exn + json) \<times> segments) \<times> bytes \<times> int" where
  "ws_ev K key expr mid cs =
     (case ws_send K key (ev_message (mid + 1) expr) of
        Inl e \<Rightarrow> ((Inl e, cs), [], mid + 1)
      | Inr f \<Rightarrow> (ev_loop K (mid + 1) cs, f, mid + 1))"

text \<open>Frames the loop skips: control frames, empty values, events and answers to other requests.\<close>

definition skipped :: "codec \<Rightarrow> int \<Rightarrow> byte \<times> bytes \<Rightarrow> bool" where
  "skipped K mid f =
     (length (snd f) < 2 ^ 64 \<and>
      ((0x80 OR fst f) AND 0x0F \<noteq> 1 \<and> (0x80 OR fst f) AND 0x0F \<noteq> 2 \<or>
       (case loads K (decode_bytes (snd f)) of
          Inr m \<Rightarrow> \<not> json_truth m \<or> (\<exists>kvs. m = JObj kvs \<and> \<not> is_number (map_of kvs ''id'') mid)
        | Inl e \<Rightarrow> False)))"

lemma ev_loop_skips:
  assumes "\<forall>f \<in> set fs. skipped K mid f"
    and "arrives (concat (map (\<lambda>f. server_frame (fst f) (snd f)) fs) @ after) cs rest"
  shows "\<exists>cs'. arrives after cs' rest \<and> ev_loop K mid cs = ev_loop K mid cs'"
  using assms
proof (induction fs arbitrary: cs)
  case (Cons f fs)
  let ?after = "concat (map (\<lambda>f. server_frame (fst f) (snd f)) fs) @ after"
  have sk: "skipped K mid f" using Cons.prems(1) by simp
  have "arrives (server_frame (fst f) (snd f) @ ?after) cs rest" using Cons.prems(2) by simp
  moreover have "length (snd f) < 2 ^ 64" using sk by (simp add: skipped_def)
  ultimately obtain c1 where c1: "arrives ?after c1 rest" "ws_recv K cs =
      ((if (0x80 OR fst f) AND 0x0F \<noteq> 1 \<and> (0x80 OR fst f) AND 0x0F \<noteq> 2 then Inr None
        else map_sum id Some (loads K (decode_bytes (snd f)))), c1)"
    using ws_recv_frame [of "fst f" "snd f" ?after cs rest K] by blast
  have "ev_loop K mid cs = ev_loop K mid c1"
  proof (cases "(0x80 OR fst f) AND 0x0F \<noteq> 1 \<and> (0x80 OR fst f) AND 0x0F \<noteq> 2")
    case True
    with c1(2) show ?thesis by (subst ev_loop.simps) simp
  next
    case False
    with sk obtain m where "loads K (decode_bytes (snd f)) = Inr m"
        "\<not> json_truth m \<or> (\<exists>kvs. m = JObj kvs \<and> \<not> is_number (map_of kvs ''id'') mid)"
      unfolding skipped_def by (cases "loads K (decode_bytes (snd f))") auto
    with False c1(2) show ?thesis by (subst ev_loop.simps) (auto simp: id_def)
  qed
  moreover obtain c2 where "arrives after c2 rest" "ev_loop K mid c1 = ev_loop K mid c2"
    using Cons.IH [OF _ c1(1)] Cons.prems(1) by auto
  ultimately show ?case by auto
qed auto

text \<open>
  Evaluating in the page: \<open>ev\<close> writes one frame from which a peer that follows RFC 6455 reads the
  request, whatever the masking key; and if what arrives is any number of other frames (events, pings,
  answers to other requests) and then the text frame of the answer, cut into segments in any way,
  \<open>ev\<close> returns the value of the answer and leaves exactly what follows it to be read.
\<close>

theorem ev_exchange:
  assumes "length key = 4" "length (dumps K (ev_message (mid + 1) expr)) < 2 ^ 64"
    and "\<forall>f \<in> set fs. skipped K (mid + 1) f"
    and "arrives (concat (map (\<lambda>f. server_frame (fst f) (snd f)) fs) @ server_frame 1 (encode (dumps K answer)) @ after) cs rest"
    and "answer = JObj kvs" "is_number (map_of kvs ''id'') (mid + 1)" "codec_ok K answer" "length (dumps K answer) < 2 ^ 64"
  shows "\<exists>cs' f. ws_ev K key expr mid cs = ((ev_value answer, cs'), f, mid + 1) \<and> arrives after cs' rest \<and>
    (\<forall>more. rfc_decode (f @ more) = Some (0x81, encode (dumps K (ev_message (mid + 1) expr))))"
proof -
  obtain f where f: "ws_send K key (ev_message (mid + 1) expr) = Inr f"
      "\<forall>more. rfc_decode (f @ more) = Some (0x81, encode (dumps K (ev_message (mid + 1) expr)))"
    using ws_send_decodes [OF assms(1,2)] by blast
  obtain c1 where c1: "arrives (server_frame 1 (encode (dumps K answer)) @ after) c1 rest" "ev_loop K (mid + 1) cs = ev_loop K (mid + 1) c1"
    using ev_loop_skips [OF assms(3,4)] by blast
  have l: "length (encode (dumps K answer)) < 2 ^ 64" using assms(8) by simp
  have op: "(0x80 OR 1 :: byte) AND 0x0F = 1" by code_simp
  obtain c2 where c2: "arrives after c2 rest" "ws_recv K c1 = (Inr (Some answer), c2)"
    using ws_recv_frame [OF c1(1) l, of K] op assms(7) by (auto simp: codec_ok_def)
  have "json_truth answer" using assms(5,6) by (cases kvs) (simp_all add: json_truth_def is_number_def)
  then have "ev_loop K (mid + 1) c1 = (ev_value answer, c2)"
    using c2(2) assms(5,6) by (subst ev_loop.simps) simp
  with f c1(2) c2(1) show ?thesis by (auto simp: ws_ev_def)
qed

definition demo_answer :: json where
  "demo_answer = JObj [(''id'', JInt 1), (''result'', JObj [(''result'', JObj [(''value'', JInt 7)])])]"

definition demo_ws_codec :: codec where
  "demo_ws_codec = \<lparr>dumps = (\<lambda>j. if j = demo_answer then ''A'' else ''Q''),
     loads = (\<lambda>s. Inr (if s = ''A'' then demo_answer else JObj [(''method'', JStr s)]))\<rparr>"

theorem ev_exchange_witness:
  "\<exists>f. ws_ev demo_ws_codec [1, 2, 3, 4] ''x'' 0 [Inr [0x89], Inr [0, 0x81], Inr [1, 69, 0x81, 1], Inr [65]] = ((Inr (JInt 7), []), f, 1) \<and>
     rfc_decode f = Some (0x81, [81])"
proof -
  let ?fs = "[(9, []), (1, [69])] :: (byte \<times> bytes) list"
  let ?cs = "[Inr [0x89], Inr [0, 0x81], Inr [1, 69, 0x81, 1], Inr [65]] :: segments"
  have q: "ev_message (0 + 1) ''x'' \<noteq> demo_answer" by (simp add: ev_message_def demo_answer_def)
  have bytes: "encode ''A'' = [65]" "encode ''Q'' = [81]" "encode ''E'' = [69]"
    by (simp_all add: encode_def of_char_def)
  have e: "decode_bytes [69] = ''E''" using decode_encode [of "''E''"] unfolding bytes .
  have op: "(0x80 OR 9 :: byte) AND 0x0F = 9" "(0x80 OR 1 :: byte) AND 0x0F = 1" "(0x80 OR 9 :: byte) = 0x89" "(0x80 OR 1 :: byte) = 0x81"
    by code_simp+
  have skip: "\<forall>f \<in> set ?fs. skipped demo_ws_codec (0 + 1) f"
    using op e by (simp add: skipped_def demo_ws_codec_def is_number_def)
  have "concat (map (\<lambda>f. server_frame (fst f) (snd f)) ?fs) @ server_frame 1 (encode (dumps demo_ws_codec demo_answer)) @ []
      = concat [[0x89], [0, 0x81], [1, 69, 0x81, 1], [65]]"
    using op by (simp add: server_frame_def length_field_def demo_ws_codec_def bytes)
  then have arr: "arrives (concat (map (\<lambda>f. server_frame (fst f) (snd f)) ?fs) @ server_frame 1 (encode (dumps demo_ws_codec demo_answer)) @ []) ?cs []"
    unfolding arrives_def by (intro exI [of _ "[[0x89], [0, 0x81], [1, 69, 0x81, 1], [65]]"]) simp
  have codec: "codec_ok demo_ws_codec demo_answer" by (simp add: codec_ok_def demo_ws_codec_def)
  have four: "length [1, 2, 3, 4 :: byte] = 4" by simp
  have short: "length (dumps demo_ws_codec (ev_message (0 + 1) ''x'')) < 2 ^ 64" "length (dumps demo_ws_codec demo_answer) < 2 ^ 64"
    by (simp_all add: demo_ws_codec_def)
  have num: "is_number (map_of [(''id'', JInt 1), (''result'', JObj [(''result'', JObj [(''value'', JInt 7)])])] ''id'') (0 + 1)"
    by (simp add: is_number_def)
  obtain cs' f where r: "ws_ev demo_ws_codec [1, 2, 3, 4] ''x'' 0 ?cs = ((ev_value demo_answer, cs'), f, 0 + 1)" "arrives [] cs' []"
      "\<forall>more. rfc_decode (f @ more) = Some (0x81, encode (dumps demo_ws_codec (ev_message (0 + 1) ''x'')))"
    using ev_exchange [OF four short(1) skip arr demo_answer_def num codec short(2)] by blast
  have "cs' = []" using r(2) by (auto simp: arrives_def) (metis concat_eq_Nil_conv list.set_intros(1) neq_Nil_conv)
  moreover have "ev_value demo_answer = Inr (JInt 7)" by (simp add: ev_value_def get_or_def demo_answer_def)
  moreover have "rfc_decode f = Some (0x81, [81])"
  proof -
    have "dumps demo_ws_codec (ev_message (0 + 1) ''x'') = ''Q''" using q by (simp only: demo_ws_codec_def codec.select_convs if_False)
    with spec [OF r(3), of "[]"] show ?thesis by (simp only: append_Nil2 bytes)
  qed
  ultimately show ?thesis using r(1) by auto
qed

end
