(* ===== verification/Consoles.thy ===== *)
theory Consoles
  imports Guest_Agent
begin

text \<open>
  What the experiments read off the serial console of a VM (\<open>SAMPLE_RE\<close>, \<open>FORKED_RE\<close>, \<open>TIME_RE\<close> and the
  parse functions of \<open>spikes/harness/spike_c.py\<close>, \<open>spike_e_clock.py\<close>, \<open>spike_g_protocol.py\<close> and
  \<open>spike_i_concurrent.py\<close>), and how they look for values that two forks share (\<open>cross\<close>). The line the
  guest agent prints after a fork is read back.
\<close>

section \<open>Regular expressions\<close>

text \<open>
  The patterns are sequences of literals and greedy capturing groups over a class of bytes; \<open>Group k c\<close>
  is \<open>(c+)\<close> for \<open>k = 1\<close> and \<open>(c*)\<close> for \<open>k = 0\<close>. Matching backtracks from the longest run, as \<open>re\<close> does.
\<close>

datatype re_item = Lit bytes | Group nat "byte \<Rightarrow> bool"

primrec first_some :: "('a \<Rightarrow> 'b option) \<Rightarrow> 'a list \<Rightarrow> 'b option" where
  "first_some f [] = None"
| "first_some f (x # xs) = (case f x of Some y \<Rightarrow> Some y | None \<Rightarrow> first_some f xs)"

primrec re_match :: "re_item list \<Rightarrow> bytes \<Rightarrow> (bytes list \<times> bytes) option" where
  "re_match [] s = Some ([], s)"
| "re_match (p # ps) s =
     (case p of
        Lit l \<Rightarrow> if take (length l) s = l then re_match ps (drop (length l) s) else None
      | Group k c \<Rightarrow>
          first_some (\<lambda>n. map_option (\<lambda>(gs, r). (take n s # gs, r)) (re_match ps (drop n s)))
            (rev [k ..< Suc (length (takeWhile c s))]))"

text \<open>\<open>search\<close>: the leftmost match; \<open>finditer\<close>: all of them, each from the end of the one before.\<close>

fun re_search :: "re_item list \<Rightarrow> bytes \<Rightarrow> (bytes list \<times> bytes) option" where
  "re_search ps s =
     (case re_match ps s of
        Some m \<Rightarrow> Some m
      | None \<Rightarrow> (case s of [] \<Rightarrow> None | _ # t \<Rightarrow> re_search ps t))"

declare re_search.simps [simp del]

function re_findall :: "re_item list \<Rightarrow> bytes \<Rightarrow> bytes list list" where
  "re_findall ps s =
     (case re_search ps s of
        None \<Rightarrow> []
      | Some (gs, r) \<Rightarrow> gs # (if length r < length s then re_findall ps r else []))"
  by pat_completeness auto
termination
  by (relation "measure (\<lambda>(ps, s). length s)") auto

declare re_findall.simps [simp del]

lemma first_some_SomeD: "first_some f xs = Some y \<Longrightarrow> \<exists>x \<in> set xs. f x = Some y"
  by (induction xs) (auto split: option.splits)

lemma first_some_hd: "xs \<noteq> [] \<Longrightarrow> f (hd xs) = Some y \<Longrightarrow> first_some f xs = Some y"
  by (cases xs) auto

text \<open>A group takes a whole run when what follows the run continues the match.\<close>

lemma re_match_Lit: "re_match (Lit l # ps) (l @ s) = re_match ps s"
  by simp

lemma re_match_Group:
  assumes "\<forall>b \<in> set g. c b" "k \<le> length g" "s = [] \<or> \<not> c (hd s)" "re_match ps s = Some (gs, r)"
  shows "re_match (Group k c # ps) (g @ s) = Some (g # gs, r)"
proof -
  have run: "takeWhile c (g @ s) = g"
    using assms(1,3) by (cases s) (simp_all add: takeWhile_append)
  have "hd (rev [k ..< Suc (length g)]) = length g" "rev [k ..< Suc (length g)] \<noteq> []"
    using assms(2) by (simp_all add: hd_rev)
  then show ?thesis using assms(4) run by (simp add: first_some_hd del: upt_Suc)
qed

text \<open>What a match consumed: the subject is the groups and literals in order, then the rest.\<close>

fun re_fits :: "re_item list \<Rightarrow> bytes list \<Rightarrow> bytes \<Rightarrow> bool" where
  "re_fits [] gs m \<longleftrightarrow> gs = [] \<and> m = []"
| "re_fits (Lit l # ps) gs m \<longleftrightarrow> (\<exists>m'. m = l @ m' \<and> re_fits ps gs m')"
| "re_fits (Group k c # ps) gs m \<longleftrightarrow>
     (\<exists>g gs' m'. gs = g # gs' \<and> m = g @ m' \<and> k \<le> length g \<and> (\<forall>b \<in> set g. c b) \<and> re_fits ps gs' m')"

lemma re_match_sound: "re_match ps s = Some (gs, r) \<Longrightarrow> \<exists>m. s = m @ r \<and> re_fits ps gs m"
proof (induction ps arbitrary: s gs)
  case (Cons p ps)
  show ?case
  proof (cases p)
    case (Lit l)
    with Cons.prems have t: "take (length l) s = l" and m: "re_match ps (drop (length l) s) = Some (gs, r)"
      by (simp_all split: if_splits)
    from Cons.IH [OF m] obtain m' where "drop (length l) s = m' @ r" "re_fits ps gs m'" by blast
    with t Lit show ?thesis by (intro exI [of _ "l @ m'"]) (metis append.assoc append_take_drop_id re_fits.simps(2))
  next
    case (Group k c)
    with Cons.prems obtain n gs' where n: "k \<le> n" "n \<le> length (takeWhile c s)"
        and m: "re_match ps (drop n s) = Some (gs', r)" and gs: "gs = take n s # gs'"
      by (auto simp del: upt_Suc dest!: first_some_SomeD)
    from Cons.IH [OF m] obtain m' where m': "drop n s = m' @ r" "re_fits ps gs' m'" by blast
    have run: "take n s = take n (takeWhile c s)"
      using n(2) by (metis takeWhile_eq_take min.absorb1 take_take)
    then have "\<forall>b \<in> set (take n s). c b" by (metis in_set_takeD set_takeWhileD)
    moreover have "length (take n s) = n" using run n(2) by simp
    ultimately show ?thesis using Group n(1) gs m'
      by (intro exI [of _ "take n s @ m'"]) (auto, metis append_take_drop_id)
  qed
qed simp

text \<open>Scanning over text in which no match starts.\<close>

lemma re_search_skip:
  "\<forall>i < length noise. re_match ps (drop i noise @ s) = None \<Longrightarrow> re_search ps (noise @ s) = re_search ps s"
proof (induction noise)
  case (Cons b noise)
  have "re_match ps ((b # noise) @ s) = None" using Cons.prems by fastforce
  moreover have "\<forall>i < length noise. re_match ps (drop i noise @ s) = None" using Cons.prems by fastforce
  ultimately show ?case using Cons.IH by (subst re_search.simps) simp
qed simp

lemma re_search_match: "re_match ps s = Some m \<Longrightarrow> re_search ps s = Some m"
  by (subst re_search.simps) simp


section \<open>The lines of the consoles\<close>

definition is_digit :: "byte \<Rightarrow> bool" where
  "is_digit b \<longleftrightarrow> 48 \<le> b \<and> b \<le> 57"

definition is_hex :: "byte \<Rightarrow> bool" where
  "is_hex b \<longleftrightarrow> is_digit b \<or> (97 \<le> b \<and> b \<le> 102)"

text \<open>\<open>\S\<close> and \<open>.\<close> of a pattern of bytes.\<close>

definition not_space :: "byte \<Rightarrow> bool" where
  "not_space b \<longleftrightarrow> b \<notin> set [32, 9, 10, 11, 12, 13]"

definition not_newline :: "byte \<Rightarrow> bool" where
  "not_newline b \<longleftrightarrow> b \<noteq> 10"

definition clock_byte :: "byte \<Rightarrow> bool" where
  "clock_byte b \<longleftrightarrow> is_digit b \<or> b = 46 \<or> b = 45"

definition sample_re :: "re_item list" where
  "sample_re = [Lit (encode ''SAMPLE ''), Group 1 is_digit, Lit (encode '' MT=''), Group 1 is_hex,
     Lit (encode '' O=''), Group 1 is_hex, Lit (encode '' K=''), Group 1 is_hex]"

definition forked_re :: "re_item list" where
  "forked_re = [Lit (encode ''KLADOS_FORKED index=''), Group 1 not_space, Lit (encode '' gen=''), Group 1 not_space,
     Lit (encode '' clock=''), Group 1 clock_byte, Lit (encode '' context=''), Group 0 not_newline]"

definition time_re :: "re_item list" where
  "time_re = [Lit (encode ''TIME wall=''), Group 1 (\<lambda>b. is_digit b \<or> b = 46), Lit (encode '' mono=''),
     Group 1 (\<lambda>b. is_digit b \<or> b = 46)]"

text \<open>\<open>float\<close> of text made of digits, points and minus signs.\<close>

definition is_digit_char :: "char \<Rightarrow> bool" where
  "is_digit_char c \<longleftrightarrow> 48 \<le> (of_char c :: nat) \<and> (of_char c :: nat) \<le> 57"

fun parse_unsigned :: "string \<Rightarrow> rat option" where
  "parse_unsigned s =
     (let ip = takeWhile is_digit_char s
      in case dropWhile is_digit_char s of
           [] \<Rightarrow> if ip = [] then None else Some (of_nat (read_nat ip))
         | c # fs \<Rightarrow>
             if c = CHR ''.'' \<and> list_all is_digit_char fs \<and> (ip \<noteq> [] \<or> fs \<noteq> [])
             then Some (of_nat (read_nat ip) + of_nat (read_nat fs) / 10 ^ length fs) else None)"

declare parse_unsigned.simps [simp del]

definition py_float :: "string \<Rightarrow> exn + rat" where
  "py_float s =
     (case (case s of [] \<Rightarrow> None | c # t \<Rightarrow> if c = CHR ''-'' then map_option uminus (parse_unsigned t) else parse_unsigned s) of
        None \<Rightarrow> Inl (ValueError (''could not convert string to float: '' @ py_repr s))
      | Some x \<Rightarrow> Inr x)"

text \<open>\<open>parse_samples\<close> (Spikes G and I): the Mersenne Twister and OpenSSL values of a console, as sets.\<close>

definition parse_samples :: "bytes option \<Rightarrow> bytes set \<times> bytes set" where
  "parse_samples console =
     (case console of
        None \<Rightarrow> ({}, {})
      | Some d \<Rightarrow> (set (map (\<lambda>m. m ! 1) (re_findall sample_re d)), set (map (\<lambda>m. m ! 2) (re_findall sample_re d))))"

text \<open>\<open>parse_console\<close> (Spike C): every sample, in order.\<close>

definition parse_console :: "bytes option \<Rightarrow> (nat \<times> string \<times> string \<times> string) list" where
  "parse_console console =
     (case console of
        None \<Rightarrow> []
      | Some d \<Rightarrow> map (\<lambda>m. (read_nat (decode_bytes (m ! 0)), decode_bytes (m ! 1), decode_bytes (m ! 2), decode_bytes (m ! 3)))
                    (re_findall sample_re d))"

text \<open>\<open>parse_forked\<close>: the first fork line of a console.\<close>

record fork_note =
  fn_index :: string
  fn_clock :: rat
  fn_context :: string

definition parse_forked :: "bytes option \<Rightarrow> exn + fork_note option" where
  "parse_forked console =
     (case console of
        None \<Rightarrow> Inr None
      | Some d \<Rightarrow>
          (case re_search forked_re d of
             None \<Rightarrow> Inr None
           | Some (m, _) \<Rightarrow>
               (case py_float (decode_bytes (m ! 2)) of
                  Inl e \<Rightarrow> Inl e
                | Inr x \<Rightarrow> Inr (Some \<lparr>fn_index = decode_bytes (m ! 0), fn_clock = x, fn_context = strip (decode_bytes (m ! 3))\<rparr>))))"

text \<open>\<open>parse\<close> (Spike E): the clock lines, wall and monotonic.\<close>

fun all_floats :: "(string \<times> string) list \<Rightarrow> exn + (rat \<times> rat) list" where
  "all_floats [] = Inr []"
| "all_floats ((w, m) # rest) =
     (case py_float w of
        Inl e \<Rightarrow> Inl e
      | Inr x \<Rightarrow> (case py_float m of
                    Inl e \<Rightarrow> Inl e
                  | Inr y \<Rightarrow> (case all_floats rest of Inl e \<Rightarrow> Inl e | Inr xs \<Rightarrow> Inr ((x, y) # xs))))"

definition parse_times :: "bytes option \<Rightarrow> exn + (rat \<times> rat) list" where
  "parse_times console =
     (case console of
        None \<Rightarrow> Inr []
      | Some d \<Rightarrow> all_floats (map (\<lambda>m. (decode_bytes (m ! 0), decode_bytes (m ! 1))) (re_findall time_re d)))"

section \<open>What the agent prints\<close>

text \<open>\<open>"%.3f" % x\<close>: sign, integer part, point, three digits.\<close>

definition fmt_fixed :: "nat \<Rightarrow> rat \<Rightarrow> string" where
  "fmt_fixed n x =
     (let m = nat \<bar>round_half_even (x * 10 ^ n)\<bar>
      in (if x < 0 then ''-'' else []) @ show_nat (m div 10 ^ n) @ ''.'' @ pad_nat n (m mod 10 ^ n))"

text \<open>\<open>clock_set or -1\<close>\<close>

definition clock_or :: "fork_locals \<Rightarrow> rat" where
  "clock_or l = (case l_clock l of None \<Rightarrow> - 1 | Some t \<Rightarrow> if t = 0 then - 1 else t)"

text \<open>The line \<open>handle\<close> writes for a \<open>FORKED\<close> request, without its line end.\<close>

definition forked_line :: "guest_env \<Rightarrow> json \<Rightarrow> fork_locals \<Rightarrow> string" where
  "forked_line E msg l =
     ''KLADOS_FORKED index='' @ text_of E (json_field msg ''index'') @ '' gen='' @ show_int (l_gen l) @
     '' clock='' @ fmt_fixed 3 (clock_or l) @ '' context='' @ text_of E (json_field msg ''branch_context'')"

section \<open>Numbers printed and read back\<close>

lemma is_digit_show_nat: "list_all is_digit_char (show_nat n)"
  using show_nat_range by (auto simp: list_all_iff is_digit_char_def)

lemma length_show_nat: "0 < n \<Longrightarrow> b < 10 ^ n \<Longrightarrow> length (show_nat b) \<le> n"
proof (induction n arbitrary: b)
  case (Suc n)
  show ?case
  proof (cases "b < 10")
    case True
    then show ?thesis by (subst show_nat.simps) simp
  next
    case False
    then have n: "0 < n" using Suc.prems by (cases n) auto
    have "b div 10 < 10 ^ n" using Suc.prems(2) by (simp add: less_mult_imp_div_less mult.commute)
    from Suc.IH [OF n this] False show ?thesis by (subst show_nat.simps) simp
  qed
qed simp

lemma read_nat_zeros: "read_nat (replicate k (CHR ''0'') @ s) = read_nat s"
  by (induction k) (simp_all add: read_nat_def)

lemma pad_nat_props:
  assumes "0 < n" "b < 10 ^ n"
  shows "length (pad_nat n b) = n" "list_all is_digit_char (pad_nat n b)" "read_nat (pad_nat n b) = b"
proof -
  show "length (pad_nat n b) = n" using length_show_nat [OF assms] by (simp add: pad_nat_def)
  show "list_all is_digit_char (pad_nat n b)" using is_digit_show_nat by (auto simp: pad_nat_def list_all_iff is_digit_char_def)
  show "read_nat (pad_nat n b) = b" by (simp add: pad_nat_def read_nat_zeros)
qed

lemma takeWhile_all: "list_all p xs \<Longrightarrow> \<not> p y \<Longrightarrow> takeWhile p (xs @ y # ys) = xs \<and> dropWhile p (xs @ y # ys) = y # ys"
  by (induction xs) auto

lemma parse_unsigned_fixed:
  assumes "0 < n" "b < 10 ^ n"
  shows "parse_unsigned (show_nat a @ CHR ''.'' # pad_nat n b) = Some (of_nat a + of_nat b / 10 ^ n)"
proof -
  have "\<not> is_digit_char (CHR ''.'')" by (simp add: is_digit_char_def)
  from takeWhile_all [OF is_digit_show_nat this] pad_nat_props [OF assms]
  show ?thesis by (simp add: parse_unsigned.simps Let_def)
qed

lemma round_half_even_sign: "x < 0 \<Longrightarrow> round_half_even x \<le> 0" "0 \<le> x \<Longrightarrow> 0 \<le> round_half_even x"
  using round_half_even_mono [of x 0] round_half_even_mono [of 0 x] round_half_even_int [of 0] by simp_all

theorem py_float_fmt_fixed:
  assumes "0 < n"
  shows "py_float (fmt_fixed n x) = Inr (py_round x n)"
proof -
  define m where "m = nat \<bar>round_half_even (x * 10 ^ n)\<bar>"
  have s: "fmt_fixed n x = (if x < 0 then ''-'' else []) @ show_nat (m div 10 ^ n) @ CHR ''.'' # pad_nat n (m mod 10 ^ n)"
    by (simp add: fmt_fixed_def m_def Let_def)
  have split: "of_nat (m div 10 ^ n) + of_nat (m mod 10 ^ n) / 10 ^ n = (of_nat m / 10 ^ n :: rat)"
  proof -
    have "of_nat m = (of_nat (m div 10 ^ n) * 10 ^ n + of_nat (m mod 10 ^ n) :: rat)"
      using arg_cong [OF div_mult_mod_eq [of m "10 ^ n"], of "of_nat :: nat \<Rightarrow> rat"]
      unfolding of_nat_add of_nat_mult of_nat_power of_nat_numeral by (rule sym)
    then show ?thesis by (simp add: add_divide_distrib)
  qed
  have p: "parse_unsigned (show_nat (m div 10 ^ n) @ CHR ''.'' # pad_nat n (m mod 10 ^ n)) = Some (of_nat m / 10 ^ n)"
    using parse_unsigned_fixed [OF assms, of "m mod 10 ^ n" "m div 10 ^ n"] split by simp
  show ?thesis
  proof (cases "x < 0")
    case True
    then have "x * 10 ^ n < 0" by (simp add: mult_neg_pos)
    then have "round_half_even (x * 10 ^ n) \<le> 0" by (rule round_half_even_sign)
    then have "(of_nat m :: rat) = - of_int (round_half_even (x * 10 ^ n))" by (simp add: m_def)
    with True s p show ?thesis by (simp add: py_float_def py_round_def)
  next
    case False
    then have "0 \<le> x * 10 ^ n" by simp
    then have "0 \<le> round_half_even (x * 10 ^ n)" by (rule round_half_even_sign)
    then have v: "(of_nat m :: rat) = of_int (round_half_even (x * 10 ^ n))" by (simp add: m_def)
    obtain c cs where c: "show_nat (m div 10 ^ n) = c # cs" by (cases "show_nat (m div 10 ^ n)") auto
    then have "is_digit_char c" using is_digit_show_nat [of "m div 10 ^ n"] by simp
    then have "c \<noteq> CHR ''-''" by (auto simp: is_digit_char_def)
    with False s p v c show ?thesis by (simp add: py_float_def py_round_def)
  qed
qed

lemma fmt_fixed_bytes: "b \<in> set (encode (fmt_fixed n x)) \<Longrightarrow> clock_byte b"
proof -
  have d: "clock_byte (of_char c)" if "is_digit_char c" for c
  proof -
    define k where "k = (of_char c :: nat)"
    have "of_char c = (of_nat k :: byte)" by (simp add: k_def of_nat_of_char)
    moreover have "k \<in> set [48..<58]" unfolding set_upt using that by (simp add: k_def is_digit_char_def)
    moreover have "list_all (\<lambda>k. clock_byte (of_nat k)) [48..<58]" by code_simp
    ultimately show ?thesis unfolding list_all_iff by (metis (no_types))
  qed
  assume "b \<in> set (encode (fmt_fixed n x))"
  then obtain c where c: "b = of_char c" "c \<in> set (fmt_fixed n x)" by (auto simp: encode_def)
  then have "is_digit_char c \<or> c = CHR ''-'' \<or> c = CHR ''.''"
    using is_digit_show_nat by (auto simp: fmt_fixed_def Let_def pad_nat_def list_all_iff is_digit_char_def split: if_splits)
  with c d show ?thesis by (auto simp: clock_byte_def)
qed

section \<open>The fork line on the console\<close>

lemma byte_of_char_eq: "(of_char c :: byte) = of_char d \<longleftrightarrow> c = d"
  by (metis char_of_byte)

lemma not_space_of_char: "not_space (of_char c) \<longleftrightarrow> c \<notin> set [CHR '' '', CHR 0x09, CHR 0x0A, CHR 0x0B, CHR 0x0C, CHR 0x0D]"
proof -
  have "map (of_char :: char \<Rightarrow> byte) [CHR '' '', CHR 0x09, CHR 0x0A, CHR 0x0B, CHR 0x0C, CHR 0x0D] = [32, 9, 10, 11, 12, 13]"
    by (simp add: of_char_def)
  then have eq: "set [32, 9, 10, 11, 12, 13] = (of_char :: char \<Rightarrow> byte) ` set [CHR '' '', CHR 0x09, CHR 0x0A, CHR 0x0B, CHR 0x0C, CHR 0x0D]"
    by (metis set_map)
  have "(of_char c :: byte) \<in> of_char ` S \<longleftrightarrow> c \<in> S" for S by (auto simp: byte_of_char_eq)
  then show ?thesis unfolding not_space_def eq by (simp only:)
qed

lemma not_newline_of_char: "not_newline (of_char c) \<longleftrightarrow> c \<noteq> CHR 0x0A"
  using byte_of_char_eq [of c "CHR 0x0A"] by (simp add: not_newline_def of_char_def)

definition is_space :: "char \<Rightarrow> bool" where
  "is_space c \<longleftrightarrow> c \<in> set [CHR '' '', CHR 0x09, CHR 0x0A, CHR 0x0B, CHR 0x0C, CHR 0x0D]"

lemma strip_snoc: "is_space c \<Longrightarrow> strip (s @ [c]) = strip s"
proof -
  assume c: "is_space c"
  have st: "strip t = rev (dropWhile is_space (rev (dropWhile is_space t)))" for t
    unfolding strip_def is_space_def Let_def by (rule refl)
  show ?thesis
  proof (cases "\<forall>x \<in> set s. is_space x")
    case True
    then have "dropWhile is_space (s @ [c]) = []" "dropWhile is_space s = []" using c by (simp_all add: dropWhile_eq_Nil_conv)
    then show ?thesis unfolding st by (simp only:)
  next
    case False
    then have "dropWhile is_space (s @ [c]) = dropWhile is_space s @ [c]" by (auto simp: dropWhile_append)
    with c show ?thesis by (simp add: st)
  qed
qed

lemma parse_forked_line:
  assumes "exec_fork_ops E (fork_ops E msg) (g, \<lparr>l_clock = None, l_gen = 0\<rparr>) = (Inr (), g', l)"
    and "idx = text_of E (json_field msg ''index'')" "idx \<noteq> []" "\<forall>c \<in> set idx. \<not> is_space c"
    and "ctx = text_of E (json_field msg ''branch_context'')" "CHR 0x0A \<notin> set ctx"
    and "eol = [10] \<or> eol = [13, 10]"
    and "\<forall>i < length noise. re_match forked_re (drop i noise @ encode (forked_line E msg l) @ eol @ rest) = None"
  shows "\<exists>t. parse_forked (Some (noise @ encode (forked_line E msg l) @ eol @ rest)) =
      Inr (Some \<lparr>fn_index = idx, fn_clock = t, fn_context = strip ctx\<rparr>) \<and> \<bar>t - clock_or l\<bar> \<le> 1 / 2000"
proof -
  let ?clk = "fmt_fixed 3 (clock_or l)" and ?gen = "show_int (l_gen l)"
  have blank: "\<not> not_space 32" "\<not> clock_byte 32" "\<not> not_newline 10" "not_newline 13"
    by (simp_all add: not_space_def clock_byte_def is_digit_def not_newline_def)
  obtain cr where eol: "eol = cr @ [10]" "cr = [] \<or> cr = [13]" using assms(7) by auto
  have gen: "\<forall>b \<in> set (encode ?gen). not_space b"
  proof -
    have "c \<notin> set [CHR '' '', CHR 0x09, CHR 0x0A, CHR 0x0B, CHR 0x0C, CHR 0x0D]" if "c \<in> set ?gen" for c
    proof -
      have "c = CHR ''-'' \<or> 48 \<le> (of_char c :: nat)"
        using that show_nat_range [of c] by (auto simp: show_int_def split: if_splits)
      then show ?thesis by auto
    qed
    then show ?thesis by (auto simp: encode_def not_space_of_char)
  qed
  have ix: "\<forall>b \<in> set (encode idx). not_space b"
    using assms(4) by (auto simp: encode_def not_space_of_char is_space_def)
  have cx: "\<forall>b \<in> set (encode ctx @ cr). not_newline b"
    using assms(6) eol(2) blank by (auto simp: encode_def not_newline_of_char)
  let ?m4 = "[Group 0 not_newline]"
  let ?m3 = "Group 1 clock_byte # Lit (encode '' context='') # ?m4"
  let ?m2 = "Group 1 not_space # Lit (encode '' clock='') # ?m3"
  let ?m1 = "Group 1 not_space # Lit (encode '' gen='') # ?m2"
  let ?s4 = "(encode ctx @ cr) @ 10 # rest"
  let ?s3 = "encode ?clk @ encode '' context='' @ ?s4"
  let ?s2 = "encode ?gen @ encode '' clock='' @ ?s3"
  let ?s1 = "encode idx @ encode '' gen='' @ ?s2"
  have sep: "encode '' gen='' @ t = [] \<or> \<not> not_space (hd (encode '' gen='' @ t))"
      "encode '' clock='' @ t = [] \<or> \<not> not_space (hd (encode '' clock='' @ t))"
      "encode '' context='' @ t = [] \<or> \<not> clock_byte (hd (encode '' context='' @ t))"
      "10 # t = [] \<or> \<not> not_newline (hd (10 # t))" for t
    using blank by (simp_all add: encode_def of_char_def)
  have some: "1 \<le> length (encode idx)" "1 \<le> length (encode ?gen)" "1 \<le> length (encode ?clk)"
    using assms(3) by (simp_all add: Suc_le_eq fmt_fixed_def Let_def)
  have ck: "\<forall>b \<in> set (encode ?clk). clock_byte b" using fmt_fixed_bytes by blast
  have nil: "re_match [] t = Some ([], t)" for t by simp
  have r4: "re_match ?m4 ?s4 = Some ([encode ctx @ cr], 10 # rest)"
    by (rule re_match_Group [OF cx le0 sep(4) nil])
  have r3: "re_match ?m3 ?s3 = Some ([encode ?clk, encode ctx @ cr], 10 # rest)"
    by (rule re_match_Group [OF ck some(3) sep(3)]) (simp only: re_match_Lit r4)
  have r2: "re_match ?m2 ?s2 = Some ([encode ?gen, encode ?clk, encode ctx @ cr], 10 # rest)"
    by (rule re_match_Group [OF gen some(2) sep(2)]) (simp only: re_match_Lit r3)
  have r1: "re_match ?m1 ?s1 = Some ([encode idx, encode ?gen, encode ?clk, encode ctx @ cr], 10 # rest)"
    by (rule re_match_Group [OF ix some(1) sep(1)]) (simp only: re_match_Lit r2)
  have ten: "[10] @ rest = 10 # rest" by simp
  have line: "encode (forked_line E msg l) @ eol @ rest = encode ''KLADOS_FORKED index='' @ ?s1"
    unfolding forked_line_def assms(2,5) eol(1) encode_append append_assoc ten by (rule refl)
  have found: "re_search forked_re (noise @ encode (forked_line E msg l) @ eol @ rest) =
      Some ([encode idx, encode ?gen, encode ?clk, encode ctx @ cr], 10 # rest)"
    unfolding re_search_skip [OF assms(8)] unfolding line
    by (rule re_search_match) (simp only: forked_re_def re_match_Lit r1)
  have "strip (decode_bytes (encode ctx @ cr)) = strip ctx"
  proof -
    have "decode_bytes (encode ctx @ cr) = ctx @ decode_bytes cr" using decode_encode [of ctx] by (simp add: decode_bytes_def)
    moreover have "decode_bytes [13] = [CHR 0x0D]" by (simp add: decode_bytes_def char_of_def bit_Suc_0_iff)
    ultimately show ?thesis using eol(2) strip_snoc [of "CHR 0x0D" ctx] by (auto simp: decode_bytes_def is_space_def)
  qed
  moreover have "\<bar>py_round (clock_or l) 3 - clock_or l\<bar> \<le> 1 / 2000"
    using py_round_error [of "clock_or l" 3] by simp
  ultimately show ?thesis by (simp add: parse_forked_def found py_float_fmt_fixed)
qed

text \<open>
  C29. The console is evidence of the fork: when the agent has carried out a \<open>FORKED\<close> request whose
  index is a word and whose branch context is one line, and the line it prints reaches the console
  after output in which no fork line starts (whatever follows it, and whether the terminal ends
  lines with a carriage return or not), then \<open>parse_forked\<close> finds exactly that index, the branch
  context without surrounding blanks, and the time the clock was set to, to the millisecond.
\<close>

theorem fork_line_read_back:
  assumes "exec_fork_ops E (fork_ops E msg) (g, \<lparr>l_clock = None, l_gen = 0\<rparr>) = (Inr (), g', l)"
    and "idx = text_of E (json_field msg ''index'')" "idx \<noteq> []" "\<forall>c \<in> set idx. \<not> is_space c"
    and "ctx = text_of E (json_field msg ''branch_context'')" "CHR 0x0A \<notin> set ctx"
    and "eol = [10] \<or> eol = [13, 10]"
    and "\<forall>i < length noise. re_match forked_re (drop i noise @ encode (forked_line E msg l) @ eol @ rest) = None"
  shows "\<exists>t. parse_forked (Some (noise @ encode (forked_line E msg l) @ eol @ rest)) =
      Inr (Some \<lparr>fn_index = idx, fn_clock = t, fn_context = strip ctx\<rparr>) \<and> \<bar>t - clock_or l\<bar> \<le> 1 / 2000"
  using assms by (rule parse_forked_line)

definition demo_console_env :: guest_env where
  "demo_console_env = demo_guest_env\<lparr>str_of := (\<lambda>j. case j of JInt i \<Rightarrow> show_int i | _ \<Rightarrow> [])\<rparr>"

lemma no_K_no_fork_line: "75 \<notin> set noise \<Longrightarrow> i < length noise \<Longrightarrow> re_match forked_re (drop i noise @ s) = None"
proof -
  assume a: "75 \<notin> set noise" "i < length noise"
  then have d: "drop i noise = noise ! i # drop (Suc i) noise" by (simp add: Cons_nth_drop_Suc)
  have "noise ! i \<noteq> 75" using a by (metis nth_mem)
  then show ?thesis unfolding d by (simp add: forked_re_def encode_def of_char_def)
qed

theorem fork_line_read_back_witness:
  "\<exists>t. parse_forked (Some (encode ''ready'' @ [13, 10] @
        encode (forked_line demo_console_env demo_forked \<lparr>l_clock = Some (5 / 2), l_gen = 1\<rparr>) @ [13, 10] @ encode ''SAMPLE'')) =
      Inr (Some \<lparr>fn_index = ''1'', fn_clock = t, fn_context = ''branch 1 of 2''\<rparr>) \<and> \<bar>t - 5 / 2\<bar> \<le> 1 / 2000"
proof -
  let ?l = "\<lparr>l_clock = Some (5 / 2), l_gen = 1\<rparr> :: fork_locals"
  have "\<lfloor>5 / 2 :: rat\<rfloor> = 2" by (rule floor_unique) simp_all
  then have rt: "realtime_of (5 / 2) = 5 / 2" by (simp add: realtime_of_def trunc_rat_def)
  have run: "\<exists>g'. exec_fork_ops demo_console_env (fork_ops demo_console_env demo_forked) (demo_guest, \<lparr>l_clock = None, l_gen = 0\<rparr>) = (Inr (), g', ?l)"
    using demo_gen
    by (simp add: fork_ops_def demo_forked_def demo_console_env_def demo_guest_env_def demo_guest_def Let_def set_realtime_def rt
        andthen_def ret_def bump_gen_cases current_gen_def)
  then obtain g' where g': "exec_fork_ops demo_console_env (fork_ops demo_console_env demo_forked) (demo_guest, \<lparr>l_clock = None, l_gen = 0\<rparr>) = (Inr (), g', ?l)"
    by blast
  have one: "show_int 1 = ''1''" by (simp add: show_int_def show_nat.simps digit_char_def char_of_def bit_Suc_0_iff)
  have ix: "''1'' = text_of demo_console_env (json_field demo_forked ''index'')"
    by (simp add: demo_forked_def demo_console_env_def one)
  have cx: "''branch 1 of 2'' = text_of demo_console_env (json_field demo_forked ''branch_context'')"
    by (simp add: demo_forked_def)
  have noise: "75 \<notin> set (encode ''ready'' @ [13, 10])" by (simp add: encode_def of_char_def)
  have strip: "strip ''branch 1 of 2'' = ''branch 1 of 2''" by (simp add: strip_def)
  have "\<exists>t. parse_forked (Some ((encode ''ready'' @ [13, 10]) @ encode (forked_line demo_console_env demo_forked ?l) @ [13, 10] @ encode ''SAMPLE'')) =
      Inr (Some \<lparr>fn_index = ''1'', fn_clock = t, fn_context = strip ''branch 1 of 2''\<rparr>) \<and> \<bar>t - clock_or ?l\<bar> \<le> 1 / 2000"
    by (rule fork_line_read_back [OF g' ix _ _ cx]) (use no_K_no_fork_line [OF noise] in \<open>auto simp: is_space_def\<close>)
  then show ?thesis by (simp add: strip clock_or_def)
qed

section \<open>Values that forks share\<close>

text \<open>
  \<open>cross\<close> (\<open>cross_child_collisions\<close> in Spike C): for every value the children it was seen in, and of
  these the values with two children or more. A dictionary from children to sets is a list of pairs
  with distinct keys; the result is the set of its items.
\<close>

primrec seen :: "(nat \<times> 'v set) list \<Rightarrow> 'v \<Rightarrow> nat set" where
  "seen [] v = {}"
| "seen (x # xs) v = (if v \<in> snd x then insert (fst x) (seen xs v) else seen xs v)"

definition cross :: "(nat \<times> 'v set) list \<Rightarrow> ('v \<times> nat set) set" where
  "cross vals = (\<lambda>v. (v, seen vals v)) ` {v \<in> \<Union> (snd ` set vals). 2 \<le> card (seen vals v)}"

lemma seen_iff: "k \<in> seen vals v \<longleftrightarrow> (\<exists>s. (k, s) \<in> set vals \<and> v \<in> s)"
  by (induction vals) auto

lemma finite_seen [simp]: "finite (seen vals v)"
  by (induction vals) auto

lemma two_le_card_iff: "finite A \<Longrightarrow> 2 \<le> card A \<longleftrightarrow> (\<exists>a \<in> A. \<exists>b \<in> A. a \<noteq> b)"
proof -
  assume "finite A"
  from card_le_Suc0_iff_eq [OF this] have "\<not> card A \<le> Suc 0 \<longleftrightarrow> (\<exists>a \<in> A. \<exists>b \<in> A. a \<noteq> b)" by blast
  moreover have "2 \<le> n \<longleftrightarrow> \<not> n \<le> Suc 0" for n :: nat by linarith
  ultimately show ?thesis by (rule trans [rotated])
qed

lemma cross_member: "(v, ks) \<in> cross vals \<longleftrightarrow> ks = seen vals v \<and> (\<exists>a \<in> ks. \<exists>b \<in> ks. a \<noteq> b)"
proof
  assume "(v, ks) \<in> cross vals"
  then show "ks = seen vals v \<and> (\<exists>a \<in> ks. \<exists>b \<in> ks. a \<noteq> b)" by (auto simp: cross_def two_le_card_iff)
next
  assume r: "ks = seen vals v \<and> (\<exists>a \<in> ks. \<exists>b \<in> ks. a \<noteq> b)"
  then obtain a where "a \<in> seen vals v" by blast
  then have "v \<in> \<Union> (snd ` set vals)" by (force simp: seen_iff)
  with r show "(v, ks) \<in> cross vals" by (auto simp: cross_def two_le_card_iff)
qed

lemma cross_empty: "cross vals = {} \<longleftrightarrow> (\<forall>(a, s) \<in> set vals. \<forall>(b, t) \<in> set vals. a \<noteq> b \<longrightarrow> s \<inter> t = {})"
proof -
  have "cross vals = {} \<longleftrightarrow> (\<forall>v ks. (v, ks) \<notin> cross vals)" by auto
  also have "\<dots> \<longleftrightarrow> (\<forall>v a b. a \<in> seen vals v \<longrightarrow> b \<in> seen vals v \<longrightarrow> a = b)" unfolding cross_member by blast
  also have "\<dots> \<longleftrightarrow> (\<forall>a s b t. (a, s) \<in> set vals \<longrightarrow> (b, t) \<in> set vals \<longrightarrow> a \<noteq> b \<longrightarrow> s \<inter> t = {})"
    unfolding seen_iff by blast
  finally show ?thesis by (simp add: Ball_def)
qed

lemma finite_cross:
  assumes "\<forall>x \<in> set vals. finite (snd x)"
  shows "finite (cross vals)"
proof -
  have "finite (\<Union> (snd ` set vals))" using assms by simp
  then show ?thesis unfolding cross_def by simp
qed

text \<open>
  The collision check: a value is reported exactly when two different children have it, together
  with all the children that do; so nothing is reported exactly when the value sets of different
  children are disjoint.
\<close>

theorem cross_reports_shared_values:
  "((v, ks) \<in> cross vals \<longleftrightarrow> ks = {k. \<exists>s. (k, s) \<in> set vals \<and> v \<in> s} \<and> (\<exists>a \<in> ks. \<exists>b \<in> ks. a \<noteq> b)) \<and>
   (cross vals = {} \<longleftrightarrow> (\<forall>(a, s) \<in> set vals. \<forall>(b, t) \<in> set vals. a \<noteq> b \<longrightarrow> s \<inter> t = {}))"
proof -
  have "{k. \<exists>s. (k, s) \<in> set vals \<and> v \<in> s} = seen vals v" by (auto simp: seen_iff)
  with cross_member [of v ks vals] cross_empty [of vals] show ?thesis by simp
qed

theorem cross_reports_shared_values_witness:
  "(2, {0, 1}) \<in> cross [(0, {1::nat, 2}), (1, {2, 3})] \<and> cross [(0, {1::nat}), (1, {3})] = {}"
proof
  have "{k. \<exists>s. (k, s) \<in> set [(0, {1::nat, 2}), (1, {2, 3})] \<and> 2 \<in> s} = {0::nat, 1}" by auto
  then show "(2, {0, 1}) \<in> cross [(0, {1::nat, 2}), (1, {2, 3})]"
    using cross_reports_shared_values [THEN conjunct1, of 2 "{0, 1}" "[(0, {1::nat, 2}), (1, {2, 3})]"] by simp
  show "cross [(0, {1::nat}), (1, {3})] = {}"
    using cross_reports_shared_values [THEN conjunct2, of "[(0, {1::nat}), (1, {3})]"] by simp
qed

end
