(* ===== verification/Harness.thy ===== *)
theory Harness
  imports Firecracker Consoles Metrics
begin

text \<open>
  The common ground of the experiments under \<open>spikes/harness\<close>: the \<open>with\<close> block of a VM, sealing a base
  VM into a snapshot, forking children from it and killing them again. The experiments that measure
  memory sharing and entropy are here (\<open>spike_b.py\<close>, \<open>spike_c.py\<close>). What they print is the report
  they return; the directory made by \<open>tempfile.mkdtemp\<close> is an argument, and \<open>time.perf_counter\<close> is
  the host's clock.
\<close>

section \<open>Scopes and small operations\<close>

text \<open>\<open>try: m finally: c\<close>\<close>

definition protect :: "('s \<Rightarrow> (exn + 'a) \<times> 's) \<Rightarrow> ('s \<Rightarrow> (exn + unit) \<times> 's) \<Rightarrow> 's \<Rightarrow> (exn + 'a) \<times> 's" where
  "protect m c =
     andthen (attempt (andthen m (\<lambda>x. ret (Inr x))) (\<lambda>e. ret (Inl e))) (\<lambda>outcome.
     andthen c (\<lambda>_. lift_sum outcome))"

text \<open>\<open>with fc.Microvm(...) as vm: body\<close>\<close>

definition with_vm :: "'v platform \<Rightarrow> microvm \<Rightarrow> (microvm \<Rightarrow> ('v, 'a) hostm) \<Rightarrow> ('v, 'a) hostm" where
  "with_vm P vm body = andthen (spawn P vm) (\<lambda>vm'. protect (body vm') (kill P vm'))"

definition sleep_for :: "'v platform \<Rightarrow> rat \<Rightarrow> ('v, unit) hostm" where
  "sleep_for P d h = (Inr (), py_sleep P d h)"

text \<open>\<open>try: os.unlink(p) except FileNotFoundError: pass\<close>\<close>

definition unlink_quietly :: "string \<Rightarrow> ('v, unit) hostm" where
  "unlink_quietly p =
     attempt (remove_file p) (\<lambda>e. case e of FileNotFoundError _ \<Rightarrow> ret () | _ \<Rightarrow> throw e)"

definition in_work :: "string \<Rightarrow> string \<Rightarrow> nat \<Rightarrow> string \<Rightarrow> string" where
  "in_work work prefix i suffix = path_join work (prefix @ show_nat i @ suffix)"

section \<open>Base and children\<close>

text \<open>
  The base VM: boot, warm up, measure or talk to the guest, pause, full snapshot; the VM is killed at
  the end of its scope.
\<close>

definition seal_base ::
  "'v platform \<Rightarrow> microvm \<Rightarrow> rat \<Rightarrow> string \<Rightarrow> string \<Rightarrow> (microvm \<Rightarrow> ('v, 'a) hostm) \<Rightarrow> ('v, 'a) hostm" where
  "seal_base P vm warm snap mem probe =
     with_vm P vm (\<lambda>b.
       andthen (configure_and_start P b) (\<lambda>_.
       andthen (sleep_for P warm) (\<lambda>_.
       andthen (probe b) (\<lambda>x.
       andthen (pause P b) (\<lambda>_.
       andthen (vm_snapshot P b snap mem False) (\<lambda>_. ret x))))))"

definition fork_vm :: "'v platform \<Rightarrow> microvm \<Rightarrow> string \<Rightarrow> string \<Rightarrow> string \<Rightarrow> ('v, microvm) hostm" where
  "fork_vm P vm snap mem backend =
     andthen (spawn P vm) (\<lambda>c. andthen (load P c snap mem backend True False None) (\<lambda>_. ret c))"

fun fork_vms :: "'v platform \<Rightarrow> (nat \<Rightarrow> microvm) \<Rightarrow> string \<Rightarrow> string \<Rightarrow> nat list \<Rightarrow> ('v, microvm list) hostm" where
  "fork_vms P mk snap mem [] = ret []"
| "fork_vms P mk snap mem (i # is) =
     andthen (fork_vm P (mk i) snap mem ''File'') (\<lambda>c.
     andthen (fork_vms P mk snap mem is) (\<lambda>cs. ret (c # cs)))"

fun kill_all :: "'v platform \<Rightarrow> microvm list \<Rightarrow> ('v, unit) hostm" where
  "kill_all P [] = ret ()"
| "kill_all P (c # cs) = andthen (kill P c) (\<lambda>_. kill_all P cs)"

section \<open>Spike C: entropy across forks\<close>

datatype c_mode = Vanilla | Mitigated | Transparent

fun c_init :: "c_mode \<Rightarrow> string" where
  "c_init Vanilla = ''/entropy''"
| "c_init Mitigated = ''/entropy_mitigated''"
| "c_init Transparent = ''/entropy_transparent''"

definition init_args :: "string \<Rightarrow> string" where
  "init_args init = ''console=ttyS0 reboot=k panic=1 pci=off init='' @ init"

definition c_spec :: "string \<Rightarrow> string \<Rightarrow> nat \<Rightarrow> c_mode \<Rightarrow> vm_spec" where
  "c_spec kern rootfs mem_mib mode =
     \<lparr>vs_kernel = kern, vs_rootfs = rootfs, vs_mem_mib = mem_mib, vs_vcpus = 1, vs_track_dirty = True,
      vs_rootfs_ro = True, vs_scratch = None, vs_vsock_uds = None, vs_vsock_cid = 3, vs_boot_args = init_args (c_init mode)\<rparr>"

definition child_console :: "string \<Rightarrow> nat \<Rightarrow> string" where
  "child_console work i = in_work work ''child_'' i ''.console''"

definition console_child :: "vm_spec \<Rightarrow> string \<Rightarrow> nat \<Rightarrow> microvm" where
  "console_child spec work i =
     microvm_init spec work (''child_'' @ show_nat i) (Some (child_console work i)) None"

definition console_base :: "vm_spec \<Rightarrow> string \<Rightarrow> microvm" where
  "console_base spec work = microvm_init spec work ''base'' (Some (path_join work ''base.console'')) None"

record stream_row =
  st_total :: nat
  st_collisions :: nat

record c_report =
  cr_counts :: "nat list"
  cr_mt :: stream_row
  cr_o :: stream_row
  cr_k :: stream_row

definition stream_of :: "(nat \<times> string \<times> string \<times> string \<Rightarrow> string) \<Rightarrow> bytes option list \<Rightarrow> (nat \<times> string set) list" where
  "stream_of sel consoles = enumerate 0 (map (\<lambda>c. set (map sel (parse_console c))) consoles)"

definition stream_report :: "(nat \<times> string set) list \<Rightarrow> stream_row" where
  "stream_report vals = \<lparr>st_total = sum_list (map (\<lambda>(i, s). card s) vals), st_collisions = card (cross vals)\<rparr>"

definition c_evaluate :: "bytes option list \<Rightarrow> c_report" where
  "c_evaluate consoles =
     \<lparr>cr_counts = map (\<lambda>c. length (parse_console c)) consoles,
      cr_mt = stream_report (stream_of (\<lambda>(n, mt, x, k). mt) consoles),
      cr_o = stream_report (stream_of (\<lambda>(n, mt, x, k). x) consoles),
      cr_k = stream_report (stream_of (\<lambda>(n, mt, x, k). k) consoles)\<rparr>"

definition read_consoles :: "string list \<Rightarrow> ('v, bytes option list) hostm" where
  "read_consoles paths h = (Inr (map (h_files h) paths), h)"

definition spike_c ::
  "'v platform \<Rightarrow> string \<Rightarrow> string \<Rightarrow> nat \<Rightarrow> c_mode \<Rightarrow> string \<Rightarrow> nat \<Rightarrow> rat \<Rightarrow> rat \<Rightarrow> ('v, c_report) hostm" where
  "spike_c P kern rootfs mem_mib mode work forks warm observe =
     andthen (\<lambda>h. if exists_file rootfs h then (Inr (), h) else (Inl (SystemExit (''missing '' @ rootfs)), h)) (\<lambda>_.
     let spec = c_spec kern rootfs mem_mib mode;
         snap = path_join work ''base.snapshot''; mem = path_join work ''base.mem''
     in andthen (seal_base P (console_base spec work) warm snap mem (\<lambda>_. ret ())) (\<lambda>_.
        andthen (fork_vms P (console_child spec work) snap mem [0..<forks]) (\<lambda>children.
        andthen (protect (sleep_for P observe) (kill_all P children)) (\<lambda>_.
        andthen (read_consoles (map (child_console work) [0..<forks])) (\<lambda>consoles.
        ret (c_evaluate consoles))))))"

text \<open>What is printed at the end, per mode.\<close>

datatype c_conclusion = TlsCollided nat | TlsSelfHeals | MtCollided nat | FixWorks | FixIncomplete nat nat

fun c_conclude :: "c_mode \<Rightarrow> nat \<Rightarrow> nat \<Rightarrow> c_conclusion list" where
  "c_conclude Vanilla mt x = (if 0 < x then [TlsCollided x] else [TlsSelfHeals]) @ (if 0 < mt then [MtCollided mt] else [])"
| "c_conclude _ mt x = (if mt = 0 \<and> x = 0 then [FixWorks] else [FixIncomplete mt x])"

section \<open>Spike B: memory of forks\<close>

text \<open>The proportional set size of a VM; \<open>procfs\<close> is what reading a file of \<open>/proc\<close> yields.\<close>

definition vm_pss :: "('v host \<Rightarrow> string \<Rightarrow> exn + string list) \<Rightarrow> microvm \<Rightarrow> ('v, int) hostm" where
  "vm_pss procfs vm h = (case mv_proc vm of Some pid \<Rightarrow> (pss_kib (procfs h) pid, h) | None \<Rightarrow> (Inr 0, h))"

fun all_pss :: "('v host \<Rightarrow> string \<Rightarrow> exn + string list) \<Rightarrow> microvm list \<Rightarrow> ('v, int list) hostm" where
  "all_pss procfs [] = ret []"
| "all_pss procfs (c # cs) = andthen (vm_pss procfs c) (\<lambda>x. andthen (all_pss procfs cs) (\<lambda>xs. ret (x # xs)))"

text \<open>\<open>fork_file_cow\<close>: the children and the milliseconds it took.\<close>

definition plain_child :: "vm_spec \<Rightarrow> string \<Rightarrow> nat \<Rightarrow> microvm" where
  "plain_child spec work i = microvm_init spec work (''child_'' @ show_nat i) None None"

definition fork_file_cow ::
  "'v platform \<Rightarrow> vm_spec \<Rightarrow> string \<Rightarrow> string \<Rightarrow> string \<Rightarrow> nat \<Rightarrow> ('v, microvm list \<times> rat) hostm" where
  "fork_file_cow P spec work snap mem n =
     andthen time_now (\<lambda>t0.
     andthen (fork_vms P (plain_child spec work) snap mem [0..<n]) (\<lambda>cs.
     andthen time_now (\<lambda>t1. ret (cs, (t1 - t0) * 1000))))"

text \<open>\<open>fork_uffd\<close>: a page-fault handler per child, given a second to bind its socket.\<close>

fun wait_file :: "'v platform \<Rightarrow> nat \<Rightarrow> string \<Rightarrow> ('v, unit) hostm" where
  "wait_file P 0 p h = (Inr (), h)"
| "wait_file P (Suc n) p h = (if exists_file p h then (Inr (), h) else wait_file P n p (py_sleep P (5 / 1000) h))"

fun fork_uffd_loop ::
  "'v platform \<Rightarrow> string \<Rightarrow> vm_spec \<Rightarrow> string \<Rightarrow> string \<Rightarrow> string \<Rightarrow> nat list \<Rightarrow> ('v, microvm list \<times> nat list) hostm" where
  "fork_uffd_loop P bin spec work snap mem [] = ret ([], [])"
| "fork_uffd_loop P bin spec work snap mem (i # is) =
     (let uds = in_work work ''uffd_'' i ''.sock''
      in andthen (timed (pf_popen P [bin, ''--socket'', uds, ''--mem'', mem])) (\<lambda>pid.
         andthen (wait_file P 200 uds) (\<lambda>_.
         andthen (fork_vm P (plain_child spec work i) snap uds ''Uffd'') (\<lambda>c.
         andthen (fork_uffd_loop P bin spec work snap mem is) (\<lambda>(cs, hs). ret (c # cs, pid # hs))))))"

definition fork_uffd ::
  "'v platform \<Rightarrow> string \<Rightarrow> vm_spec \<Rightarrow> string \<Rightarrow> string \<Rightarrow> string \<Rightarrow> nat \<Rightarrow> ('v, microvm list \<times> rat \<times> nat list) hostm" where
  "fork_uffd P bin spec work snap mem n =
     andthen (\<lambda>h. if exists_file bin h then (Inr (), h) else (Inl (SystemExit (''uffd handler not built: '' @ bin)), h)) (\<lambda>_.
     andthen time_now (\<lambda>t0.
     andthen (fork_uffd_loop P bin spec work snap mem [0..<n]) (\<lambda>(cs, hs).
     andthen time_now (\<lambda>t1. ret (cs, (t1 - t0) * 1000, hs)))))"

text \<open>\<open>for h in handlers: if h.poll() is None: h.kill()\<close>\<close>

fun kill_handlers :: "'v platform \<Rightarrow> nat list \<Rightarrow> ('v, unit) hostm" where
  "kill_handlers P [] h = (Inr (), h)"
| "kill_handlers P (pid # ps) h =
     kill_handlers P ps (if pf_alive P pid h then forward h (pf_sigkill P pid h) else h)"

datatype mechanism = FileCow | Uffd

record b_report =
  br_base_pss :: int
  br_wall_ms :: rat
  br_sum_pss :: int
  br_naive :: int
  br_ratio :: "rat option"        \<comment> \<open>\<open>None\<close> is \<open>nan\<close>\<close>
  br_fast :: bool
  br_shares :: bool

definition b_evaluate :: "nat \<Rightarrow> int \<Rightarrow> rat \<Rightarrow> int list \<Rightarrow> b_report" where
  "b_evaluate forks base_pss wall child_pss =
     (let naive = int forks * base_pss;
          ratio = (if naive \<noteq> 0 then Some (of_int (sum_list child_pss) / of_int naive) else None)
      in \<lparr>br_base_pss = base_pss, br_wall_ms = py_round wall 2, br_sum_pss = sum_list child_pss, br_naive = naive,
          br_ratio = map_option (\<lambda>r. py_round r 3) ratio, br_fast = (wall < 2000),
          br_shares = (case ratio of None \<Rightarrow> False | Some r \<Rightarrow> r < 1 / 2)\<rparr>)"

text \<open>The block that lets the children run, samples them, and kills everything it was given.\<close>

definition observe_forks ::
  "'v platform \<Rightarrow> ('v host \<Rightarrow> string \<Rightarrow> exn + string list) \<Rightarrow> rat \<Rightarrow> microvm list \<Rightarrow> nat list \<Rightarrow> ('v, int list) hostm" where
  "observe_forks P procfs observe children handlers =
     protect (andthen (sleep_for P observe) (\<lambda>_. all_pss procfs children))
       (andthen (kill_all P children) (\<lambda>_. kill_handlers P handlers))"

fun require_files :: "string list \<Rightarrow> ('v, unit) hostm" where
  "require_files [] h = (Inr (), h)"
| "require_files (p # ps) h =
     (if exists_file p h then require_files ps h else (Inl (SystemExit (''missing asset: '' @ p)), h))"

definition spike_b ::
  "'v platform \<Rightarrow> ('v host \<Rightarrow> string \<Rightarrow> exn + string list) \<Rightarrow> mechanism \<Rightarrow> string \<Rightarrow> vm_spec \<Rightarrow> string \<Rightarrow> nat \<Rightarrow> rat \<Rightarrow> rat
     \<Rightarrow> ('v, b_report) hostm" where
  "spike_b P procfs mech bin spec work forks settle observe =
     andthen (require_files [vs_kernel spec, vs_rootfs spec]) (\<lambda>_.
     let snap = path_join work ''base.snapshot''; mem = path_join work ''base.mem''
     in andthen (seal_base P (microvm_init spec work ''base'' None None) settle snap mem (vm_pss procfs)) (\<lambda>base_pss.
        andthen (case mech of
                   FileCow \<Rightarrow> andthen (fork_file_cow P spec work snap mem forks) (\<lambda>(cs, wall). ret (cs, wall, []))
                 | Uffd \<Rightarrow> fork_uffd P bin spec work snap mem forks) (\<lambda>(children, wall, handlers).
        andthen (observe_forks P procfs observe children handlers) (\<lambda>child_pss.
        ret (b_evaluate forks base_pss wall child_pss)))))"

section \<open>Nothing is left running\<close>

text \<open>
  Documented of processes: one killed and waited for is no longer alive, killing it starts no other,
  and whether a process is alive does not depend on files or the clock.
\<close>

definition sigkill_ok :: "'v platform \<Rightarrow> bool" where
  "sigkill_ok P \<longleftrightarrow>
     (\<forall>pid h. \<not> pf_alive P pid (pf_sigkill P pid h)) \<and>
     (\<forall>pid q h. \<not> pf_alive P q h \<longrightarrow> \<not> pf_alive P q (pf_sigkill P pid h)) \<and>
     (\<forall>pid h h'. h_mach h = h_mach h' \<longrightarrow> pf_alive P pid h = pf_alive P pid h')"

definition dead :: "'v platform \<Rightarrow> nat \<Rightarrow> 'v host \<Rightarrow> bool" where
  "dead P pid h \<longleftrightarrow> \<not> pf_alive P pid h"

lemma sigkill_okD:
  assumes "sigkill_ok P"
  shows "\<not> pf_alive P pid (pf_sigkill P pid h)"
    and "\<not> pf_alive P q h \<Longrightarrow> \<not> pf_alive P q (pf_sigkill P pid h)"
    and "h_mach h = h_mach h' \<Longrightarrow> pf_alive P pid h = pf_alive P pid h'"
  using assms unfolding sigkill_ok_def by blast+

lemma dead_mach: "sigkill_ok P \<Longrightarrow> h_mach h = h_mach h' \<Longrightarrow> dead P pid h \<Longrightarrow> dead P pid h'"
  unfolding dead_def using sigkill_okD(3) [of P h h' pid] by blast

lemma sigkill_dead:
  assumes "sigkill_ok P"
  shows "dead P pid (forward h (pf_sigkill P pid h))" "dead P q h \<Longrightarrow> dead P q (forward h (pf_sigkill P pid h))"
proof -
  have m: "h_mach (pf_sigkill P pid h) = h_mach (forward h (pf_sigkill P pid h))" by simp
  have "dead P pid (pf_sigkill P pid h)" using sigkill_okD(1) [OF assms] by (simp add: dead_def)
  then show "dead P pid (forward h (pf_sigkill P pid h))" by (rule dead_mach [OF assms m])
  assume "dead P q h"
  then have "dead P q (pf_sigkill P pid h)" using sigkill_okD(2) [OF assms] by (simp add: dead_def)
  then show "dead P q (forward h (pf_sigkill P pid h))" by (rule dead_mach [OF assms m])
qed

lemma kill_dead:
  assumes "sigkill_ok P" "kill P vm h = (r, h')"
  shows "r = Inr ()" "dead P q h \<Longrightarrow> dead P q h'" "mv_proc vm = Some pid \<Longrightarrow> dead P pid h'"
    "h_files h' (mv_sock vm) = None"
proof -
  define h1 where "h1 = (case mv_proc vm of
      Some pid \<Rightarrow> if pf_alive P pid h then forward h (pf_sigkill P pid h) else h | None \<Rightarrow> h)"
  have k: "r = Inr ()" "h' = h1\<lparr>h_files := (h_files h1)(mv_sock vm := None)\<rparr>"
    using assms(2) by (auto simp: kill_def h1_def Let_def)
  then have m: "h_mach h1 = h_mach h'" by simp
  show "r = Inr ()" "h_files h' (mv_sock vm) = None" using k by simp_all
  show "dead P q h \<Longrightarrow> dead P q h'"
    using sigkill_dead(2) [OF assms(1)] dead_mach [OF assms(1) m] by (auto simp: h1_def split: option.splits if_splits)
  show "mv_proc vm = Some pid \<Longrightarrow> dead P pid h'"
    using sigkill_dead(1) [OF assms(1)] dead_mach [OF assms(1) m] by (auto simp: h1_def dead_def split: if_splits)
qed

lemma kill_all_dead:
  "sigkill_ok P \<Longrightarrow> kill_all P cs h = (r, h') \<Longrightarrow>
    r = Inr () \<and> (\<forall>q. dead P q h \<longrightarrow> dead P q h') \<and> (\<forall>c \<in> set cs. \<forall>pid. mv_proc c = Some pid \<longrightarrow> dead P pid h')"
proof (induction cs arbitrary: h)
  case (Cons c cs)
  obtain r1 h1 where one: "kill P c h = (r1, h1)" by fastforce
  note k = kill_dead [OF Cons.prems(1) one]
  have "kill_all P cs h1 = (r, h')" using Cons.prems(2) one k(1) by (simp add: andthen_def)
  from Cons.IH [OF Cons.prems(1) this] k show ?case by auto
qed (simp add: ret_def)

lemma kill_handlers_dead:
  "sigkill_ok P \<Longrightarrow> kill_handlers P ps h = (r, h') \<Longrightarrow>
    r = Inr () \<and> (\<forall>q. dead P q h \<longrightarrow> dead P q h') \<and> (\<forall>pid \<in> set ps. dead P pid h')"
proof (induction ps arbitrary: h)
  case (Cons pid ps)
  let ?h1 = "if pf_alive P pid h then forward h (pf_sigkill P pid h) else h"
  have d: "dead P pid ?h1" "\<And>q. dead P q h \<Longrightarrow> dead P q ?h1"
    using sigkill_dead [OF Cons.prems(1)] by (auto simp: dead_def)
  have "kill_handlers P ps ?h1 = (r, h')" using Cons.prems(2) by simp
  from Cons.IH [OF Cons.prems(1) this] d show ?case by auto
qed simp

lemma protect_cleanup:
  assumes "m h = (r, h1)" "c h1 = (Inr (), h2)"
  shows "protect m c h = (r, h2)"
  using assms by (cases r) (simp_all add: protect_def andthen_def attempt_def ret_def lift_sum_def)

text \<open>
  However sampling the forks ends, normally or with an exception, afterwards none of the children
  it was given and none of their page-fault handlers is alive, and an exception is not swallowed.
\<close>

theorem observed_forks_are_killed:
  assumes "sigkill_ok P"
    and "andthen (sleep_for P observe) (\<lambda>_. all_pss procfs children) h = (outcome, h1)"
  shows "\<exists>h'. observe_forks P procfs observe children handlers h = (outcome, h') \<and>
    (\<forall>c \<in> set children. \<forall>pid. mv_proc c = Some pid \<longrightarrow> \<not> pf_alive P pid h') \<and> (\<forall>pid \<in> set handlers. \<not> pf_alive P pid h')"
proof -
  obtain r2 h2 where two: "kill_all P children h1 = (r2, h2)" by fastforce
  obtain r3 h3 where three: "kill_handlers P handlers h2 = (r3, h3)" by fastforce
  note k = kill_all_dead [OF assms(1) two] and l = kill_handlers_dead [OF assms(1) three]
  have "andthen (kill_all P children) (\<lambda>_. kill_handlers P handlers) h1 = (Inr (), h3)"
    using two three k l by (simp add: andthen_def)
  then have "observe_forks P procfs observe children handlers h = (outcome, h3)"
    unfolding observe_forks_def
    by (rule protect_cleanup [where m = "andthen (sleep_for P observe) (\<lambda>_. all_pss procfs children)", OF assms(2)])
  with k l show ?thesis by (auto simp: dead_def)
qed

text \<open>A toy machine: the processes that are alive, by number.\<close>

definition demo_processes :: "nat list platform" where
  "demo_processes = \<lparr>pf_codec = number_codec, pf_http = (\<lambda>sock meth path body h. (Inr (204, []), h)),
     pf_popen = (\<lambda>_ h. (Inr (length (h_mach h)), h\<lparr>h_mach := length (h_mach h) # h_mach h\<rparr>)),
     pf_alive = (\<lambda>pid h. pid \<in> set (h_mach h)), pf_sigkill = (\<lambda>pid h. h\<lparr>h_mach := removeAll pid (h_mach h)\<rparr>),
     pf_connect = (\<lambda>_ _ h. (Inr [], h)), pf_send = (\<lambda>_ _ h. (Inr [], h)), pf_run = (\<lambda>_ h. (Inr (), h)), pf_idle = (\<lambda>_ h. h)\<rparr>"

definition demo_child :: "nat \<Rightarrow> microvm" where
  "demo_child pid = (plain_child (c_spec ''k'' ''r'' 512 Vanilla) ''w'' pid)\<lparr>mv_proc := Some pid\<rparr>"

lemma demo_sigkill: "sigkill_ok demo_processes"
  by (auto simp: sigkill_ok_def demo_processes_def)

theorem observed_forks_are_killed_witness:
  "\<exists>h'. observe_forks demo_processes (\<lambda>_ _. Inl (PermissionError ''smaps'')) 1 [demo_child 0, demo_child 1] [2]
       \<lparr>h_files = (\<lambda>_. None), h_clock = 0, h_mach = [2, 1, 0]\<rparr> = (Inl (PermissionError ''smaps''), h') \<and>
     \<not> pf_alive demo_processes 0 h' \<and> \<not> pf_alive demo_processes 1 h' \<and> \<not> pf_alive demo_processes 2 h'"
proof -
  let ?h = "\<lparr>h_files = (\<lambda>_. None), h_clock = 0, h_mach = [2, 1, 0]\<rparr> :: nat list host"
  have "andthen (sleep_for demo_processes 1) (\<lambda>_. all_pss (\<lambda>_ _. Inl (PermissionError ''smaps'')) [demo_child 0, demo_child 1]) ?h
      = (Inl (PermissionError ''smaps''), ?h\<lparr>h_clock := 1\<rparr>)"
    by (simp add: andthen_def sleep_for_def py_sleep_def demo_processes_def vm_pss_def demo_child_def pss_kib_cases(3) Let_def)
  from observed_forks_are_killed [OF demo_sigkill this, of "[2]"] show ?thesis
    by (auto simp: demo_child_def)
qed

section \<open>The API calls of an experiment\<close>

text \<open>
  The calls to one path in the log of a recording Firecracker. \<open>quiet\<close>: starting and killing processes
  and sleeping makes no API call.
\<close>

definition calls :: "('v \<Rightarrow> api_entry list) \<Rightarrow> string \<Rightarrow> 'v host \<Rightarrow> api_entry list" where
  "calls lg path h = filter (\<lambda>(meth, p, body, okay). p = path) (lg (h_mach h))"

definition quiet :: "('v \<Rightarrow> api_entry list) \<Rightarrow> 'v platform \<Rightarrow> bool" where
  "quiet lg P \<longleftrightarrow>
     (\<forall>cmd h. lg (h_mach (snd (pf_popen P cmd h))) = lg (h_mach h)) \<and>
     (\<forall>pid h. lg (h_mach (pf_sigkill P pid h)) = lg (h_mach h)) \<and>
     (\<forall>d h. lg (h_mach (pf_idle P d h)) = lg (h_mach h))"

definition same_calls :: "('v \<Rightarrow> api_entry list) \<Rightarrow> string \<Rightarrow> 'v host \<Rightarrow> 'v host \<Rightarrow> bool" where
  "same_calls lg path h h' \<longleftrightarrow> calls lg path h' = calls lg path h"

interpretation call_frame: state_order "same_calls lg path" for lg :: "'v \<Rightarrow> api_entry list" and path
  by unfold_locales (simp_all add: same_calls_def)

lemma fc_req_calls: "records lg P \<Longrightarrow> p \<noteq> path \<Longrightarrow> same_calls lg path h (snd (fc_req P sock meth p body h))"
proof -
  assume r: "records lg P" "p \<noteq> path"
  obtain r1 h1 where one: "pf_http P sock meth p (map_option (dumps (pf_codec P)) body) h = (r1, h1)" by fastforce
  then have l: "lg (h_mach h1) = lg (h_mach h) @ [(meth, p, map_option (dumps (pf_codec P)) body, accepted r1)]"
    using r(1) by (auto simp: records_def)
  have "h_mach (snd (fc_req P sock meth p body h)) = h_mach h1"
    using one by (auto simp: fc_req_def timed_def andthen_def throw_def ret_def lift_sum_def split: sum.splits prod.splits)
  with l r(2) show ?thesis by (simp add: same_calls_def calls_def)
qed

lemma run_requests_calls:
  "records lg P \<Longrightarrow> \<forall>q \<in> set rs. fst (snd q) \<noteq> path \<Longrightarrow> keeps (same_calls lg path) (run_requests P sock rs)"
proof (induction rs)
  case Nil
  show ?case unfolding run_requests.simps by (rule call_frame.keeps_ret)
next
  case (Cons q rs)
  obtain meth p body where q: "q = (meth, p, body)" by (cases q)
  have "keeps (same_calls lg path) (fc_req P sock meth p (Some body))"
    using fc_req_calls [OF Cons.prems(1)] Cons.prems(2) q by (intro keepsI) simp
  then show ?case unfolding q run_requests.simps using Cons by (intro call_frame.keeps_andthen) simp_all
qed

lemma sleep_calls: "quiet lg P \<Longrightarrow> same_calls lg path h (py_sleep P d h)"
  by (simp add: quiet_def same_calls_def calls_def py_sleep_def Let_def)

lemma await_sock_calls:
  "records lg P \<Longrightarrow> quiet lg P \<Longrightarrow> path \<noteq> ''/'' \<Longrightarrow> same_calls lg path h (snd (await_sock P vm deadline h))"
proof (induction P vm deadline h rule: await_sock.induct)
  case (1 P vm deadline h)
  obtain up h1 where t: "try_api P vm h = (up, h1)" by fastforce
  have s1: "same_calls lg path h h1"
    using t fc_req_calls [OF "1.prems"(1), of "''/''" path h "mv_sock vm" "''GET''" None] "1.prems"(3)
    by (auto simp: try_api_def call_frame.R_refl split: if_splits prod.splits sum.splits)
  show ?case
  proof (cases "h_clock h < deadline \<and> \<not> up")
    case True
    have "same_calls lg path (py_sleep P (1 / 100) h1) (snd (await_sock P vm deadline (py_sleep P (1 / 100) h1)))"
      using "1.IH" [OF _ t [symmetric] refl] True "1.prems" by simp
    then have "same_calls lg path h (snd (await_sock P vm deadline (py_sleep P (1 / 100) h1)))"
      using s1 sleep_calls [OF "1.prems"(2), of path h1 "1 / 100"] call_frame.R_trans by blast
    with True t show ?thesis by (subst await_sock.simps) simp
  next
    case False
    then show ?thesis using s1 t by (subst await_sock.simps) (auto simp: call_frame.R_refl)
  qed
qed

lemma file_calls: "h_mach h' = h_mach h \<Longrightarrow> same_calls lg path h h'"
  by (simp add: same_calls_def calls_def)

lemma spawn_calls:
  assumes "records lg P" "quiet lg P" "path \<noteq> ''/''"
  shows "keeps (same_calls lg path) (spawn P vm)"
proof -
  have "keeps (same_calls lg path) (timed (pf_popen P cmd))" for cmd
    using assms(2) by (intro keepsI) (simp add: timed_def split_beta quiet_def same_calls_def calls_def)
  moreover have "keeps (same_calls lg path) (await_sock P vm' d)" for vm' d
    by (rule keepsI) (rule await_sock_calls [OF assms])
  moreover have "keeps (same_calls lg path) (\<lambda>h. if exists_file p h then remove_file p h else (Inr (), h))" for p
    by (rule keepsI) (simp add: remove_file_def file_calls)
  moreover have "keeps (same_calls lg path) (case c of Some p \<Rightarrow> if p \<noteq> [] then write_file p [] else ret () | None \<Rightarrow> ret ())" for c
    by (rule keepsI) (simp add: write_file_def ret_def file_calls split: option.splits)
  moreover have "keeps (same_calls lg path) time_now" by (rule keepsI) (simp add: time_now_def file_calls)
  ultimately show ?thesis
    unfolding spawn_def Let_def by (intro call_frame.keeps_andthen call_frame.keeps_ret) simp_all
qed

lemma kill_calls: "quiet lg P \<Longrightarrow> keeps (same_calls lg path) (kill P vm)"
  by (rule keepsI) (simp add: kill_def Let_def quiet_def same_calls_def calls_def split: option.splits)

text \<open>A run of requests that succeeds leaves all of them in the log, accepted.\<close>

lemma run_requests_ok_log:
  assumes "records lg P" "run_requests P sock rs h = (Inr (), h')"
  shows "lg (h_mach h') = lg (h_mach h) @ map (\<lambda>q. entry (pf_codec P) q True) rs"
proof -
  obtain oks where oks: "lg (h_mach h') = lg (h_mach h) @ map2 (entry (pf_codec P)) (take (length oks) rs) oks"
      "length oks = length rs" "\<forall>x \<in> set oks. x"
    using run_requests_log [OF assms] by auto
  have "oks = replicate (length rs) True" using oks(2,3) by (metis replicate_length_same)
  then have "map2 (entry (pf_codec P)) rs oks = map (\<lambda>q. entry (pf_codec P) q True) rs"
    by (simp add: zip_replicate2)
  with oks show ?thesis by simp
qed

section \<open>A toy Firecracker that boots\<close>

text \<open>As \<open>demo_fc\<close>, but starting a process creates the API socket, the last word of its command.\<close>

definition demo_boots :: "api_entry list platform" where
  "demo_boots = demo_fc\<lparr>pf_popen := (\<lambda>cmd h. (Inr 1, h\<lparr>h_files := (h_files h)(last cmd := Some [])\<rparr>))\<rparr>"

definition goes :: "('s \<Rightarrow> (exn + 'a) \<times> 's) \<Rightarrow> bool" where
  "goes m \<longleftrightarrow> (\<forall>s. \<exists>x t. m s = (Inr x, t))"

lemma goes_ret: "goes (ret x)"
  by (simp add: goes_def ret_def)

lemma goes_run: "goes m \<Longrightarrow> \<exists>x t. m s = (Inr x, t)"
  by (simp add: goes_def)

lemma goes_andthen:
  assumes "goes m" "\<And>x. goes (f x)"
  shows "goes (andthen m f)"
  unfolding goes_def
proof
  fix s
  obtain x t where "m s = (Inr x, t)" using goes_run [OF assms(1)] by blast
  then show "\<exists>y u. andthen m f s = (Inr y, u)" using goes_run [OF assms(2)] by (simp add: andthen_def)
qed

lemma goes_attempt:
  assumes "goes m"
  shows "goes (attempt m h)"
  unfolding goes_def
proof
  fix s
  obtain x t where "m s = (Inr x, t)" using goes_run [OF assms] by blast
  then show "\<exists>y u. attempt m h s = (Inr y, u)" by (simp add: attempt_def)
qed

lemma goes_protect:
  assumes "goes m" "goes c"
  shows "goes (protect m c)"
  unfolding goes_def
proof
  fix s
  obtain x t where "m s = (Inr x, t)" using goes_run [OF assms(1)] by blast
  moreover obtain u t' where "c t = (Inr u, t')" using goes_run [OF assms(2)] by blast
  ultimately show "\<exists>y u. protect m c s = (Inr y, u)"
    by (simp add: protect_def andthen_def attempt_def ret_def lift_sum_def)
qed

lemma goes_time_now: "goes time_now"
  by (simp add: goes_def time_now_def)

lemma goes_unlink: "goes (unlink_quietly p)"
  by (simp add: goes_def unlink_quietly_def attempt_def remove_file_def no_such_file_def ret_def)

lemma goes_kill: "goes (kill P vm)"
  by (simp add: goes_def kill_def Let_def)

text \<open>A platform on which every request is accepted and a started process has its socket at once.\<close>

definition boots :: "'v platform \<Rightarrow> bool" where
  "boots P \<longleftrightarrow> (\<forall>sock meth path body h. \<exists>h'. pf_http P sock meth path body h = (Inr (204, []), h')) \<and>
     (\<forall>cmd h. \<exists>pid h'. pf_popen P cmd h = (Inr pid, h') \<and> h_files h' (last cmd) \<noteq> None)"

lemma demo_boots_boots: "boots demo_boots"
  by (simp add: boots_def demo_boots_def demo_fc_def)

lemma goes_fc_req:
  assumes "boots P"
  shows "goes (fc_req P sock meth path body)"
  unfolding goes_def
proof
  fix h
  obtain h' where "pf_http P sock meth path (map_option (dumps (pf_codec P)) body) h = (Inr (204, []), h')"
    using assms by (metis boots_def)
  then show "\<exists>x t. fc_req P sock meth path body h = (Inr x, t)"
    by (simp add: fc_req_def timed_def andthen_def ret_def Let_def)
qed

lemma goes_requests: "boots P \<Longrightarrow> goes (run_requests P sock rs)"
proof (induction rs)
  case (Cons q rs)
  then show ?case by (cases q) (auto intro: goes_andthen goes_fc_req)
qed (simp add: goes_ret)

lemma goes_spawn:
  assumes "boots P" "mv_remap vm = None"
  shows "goes (spawn P vm)"
  unfolding goes_def
proof
  fix h :: "'a host"
  define h1 where "h1 = (if exists_file (mv_sock vm) h then snd (remove_file (mv_sock vm) h) else h)"
  define h2 where "h2 = snd ((case mv_console vm of Some c \<Rightarrow> if c \<noteq> [] then write_file c [] else ret () | None \<Rightarrow> ret ()) h1)"
  obtain pid h2' where popen: "pf_popen P (spawn_command vm) h2 = (Inr pid, h2')" "h_files h2' (last (spawn_command vm)) \<noteq> None"
    using assms(1) by (meson boots_def)
  define h3 where "h3 = forward h2 h2'"
  let ?vm = "vm\<lparr>mv_proc := Some pid\<rparr>"
  have sock: "exists_file (mv_sock ?vm) h3"
    using assms(2) popen(2) by (simp add: h3_def spawn_command_def exists_file_def)
  obtain j h4 where get: "fc_req P (mv_sock ?vm) ''GET'' ''/'' None h3 = (Inr j, h4)"
    using goes_fc_req [OF assms(1)] unfolding goes_def by blast
  have "try_api P ?vm h3 = (True, h4)" using sock get by (simp add: try_api_def)
  then have "await_sock P ?vm (h_clock h3 + 5) h3 = (Inr (), h4)"
    by (subst await_sock.simps) simp
  moreover have "(if exists_file (mv_sock vm) h then remove_file (mv_sock vm) h else (Inr (), h)) = (Inr (), h1)"
    by (simp add: h1_def remove_file_def)
  moreover have "(case mv_console vm of Some c \<Rightarrow> if c \<noteq> [] then write_file c [] else ret () | None \<Rightarrow> ret ()) h1 = (Inr (), h2)"
    by (simp add: h2_def write_file_def ret_def split: option.splits)
  moreover have "timed (pf_popen P (spawn_command vm)) h2 = (Inr pid, h3)"
    by (simp add: h3_def timed_def popen(1))
  ultimately have "spawn P vm h = (Inr ?vm, h4)"
    unfolding spawn_def andthen_def Let_def time_now_def ret_def by simp
  then show "\<exists>x t. spawn P vm h = (Inr x, t)" by blast
qed

lemma goes_with_vm: "boots P \<Longrightarrow> mv_remap vm = None \<Longrightarrow> (\<And>vm'. goes (body vm')) \<Longrightarrow> goes (with_vm P vm body)"
  unfolding with_vm_def by (intro goes_andthen goes_spawn goes_protect goes_kill)

lemma goes_sleep: "goes (sleep_for P d)"
  by (simp add: goes_def sleep_for_def)

lemma goes_seal_base:
  assumes "boots P" "mv_remap vm = None" "\<And>b. goes (probe b)"
  shows "goes (seal_base P vm warm snap mem probe)"
  unfolding seal_base_def configure_and_start_def pause_def vm_snapshot_def
  by (intro goes_with_vm goes_andthen goes_requests goes_sleep goes_ret assms)

lemma goes_fork_vm: "boots P \<Longrightarrow> mv_remap vm = None \<Longrightarrow> goes (fork_vm P vm snap mem backend)"
  unfolding fork_vm_def load_def by (intro goes_andthen goes_spawn goes_requests goes_ret)

lemma goes_fork_vms: "boots P \<Longrightarrow> (\<And>i. mv_remap (mk i) = None) \<Longrightarrow> goes (fork_vms P mk snap mem is)"
  by (induction "is") (auto intro: goes_andthen goes_fork_vm goes_ret)

lemma demo_boots_log: "records (\<lambda>m. m) demo_boots" "quiet (\<lambda>m. m) demo_boots"
  by (auto simp: records_def quiet_def demo_boots_def demo_fc_def accepted_def)

end
