(* ===== verification/Fork_Experiments.thy ===== *)
theory Fork_Experiments
  imports Harness
begin

text \<open>
  The experiments on the fork protocol: one child after the other on the socket baked into the
  snapshot (\<open>spikes/harness/spike_g_protocol.py\<close>), all children at once with remapped sockets
  (\<open>spike_i_concurrent.py\<close>), and a database written to while the snapshot is taken
  (\<open>spike_h_fidelity.py\<close>). Command lines and printing are left out; a report holds the printed values.
\<close>

section \<open>Driving a fork\<close>

definition branch_text :: "nat \<Rightarrow> nat \<Rightarrow> string" where
  "branch_text i n = ''you are branch '' @ show_nat i @ '' of '' @ show_nat n"

definition forked_message :: "nat \<Rightarrow> nat \<Rightarrow> rat \<Rightarrow> json" where
  "forked_message i n t =
     JObj [(''type'', JStr ''FORKED''), (''index'', JInt (int i)), (''n'', JInt (int n)),
           (''true_time'', JNum t), (''branch_context'', JStr (branch_text i n))]"

text \<open>\<open>r["_host_true"] = t\<close>\<close>

fun tag_host_true :: "rat \<Rightarrow> json \<Rightarrow> exn + json" where
  "tag_host_true t (JObj kvs) = Inr (JObj (AList.update ''_host_true'' (JNum t) kvs))"
| "tag_host_true t _ = Inl (TypeError ''object does not support item assignment'')"

text \<open>The handshake: whatever goes wrong becomes an \<open>ERR\<close> entry.\<close>

definition drive_fork :: "'v platform \<Rightarrow> string \<Rightarrow> nat \<Rightarrow> nat \<Rightarrow> ('v, json) hostm" where
  "drive_fork P uds i n =
     andthen time_now (\<lambda>t.
       attempt (andthen (vsock_request P uds 5000 (forked_message i n t)) (\<lambda>r. lift_sum (tag_host_true t r)))
         (\<lambda>e. ret (JObj [(''status'', JStr ''ERR''), (''msg'', JStr (exn_str e)), (''_host_true'', JNum t)])))"

definition simple_message :: "string \<Rightarrow> json" where
  "simple_message typ = JObj [(''type'', JStr typ)]"

definition protocol_spec :: "string \<Rightarrow> string \<Rightarrow> nat \<Rightarrow> nat \<Rightarrow> string \<Rightarrow> string \<Rightarrow> vm_spec" where
  "protocol_spec kern rootfs mem_mib vcpus init uds =
     \<lparr>vs_kernel = kern, vs_rootfs = rootfs, vs_mem_mib = mem_mib, vs_vcpus = vcpus, vs_track_dirty = True,
      vs_rootfs_ro = True, vs_scratch = None, vs_vsock_uds = Some uds, vs_vsock_cid = 3, vs_boot_args = init_args init\<rparr>"

section \<open>The evaluation\<close>

record protocol_report =
  pr_ready :: nat
  pr_mt :: nat
  pr_o :: nat
  pr_contexts :: nat
  pr_skews :: "rat list"

definition said_ready :: "json \<Rightarrow> bool" where
  "said_ready r \<longleftrightarrow> json_field r ''status'' = JStr ''READY''"

fun all_forked :: "bytes option list \<Rightarrow> exn + fork_note option list" where
  "all_forked [] = Inr []"
| "all_forked (c # cs) =
     (case parse_forked c of
        Inl e \<Rightarrow> Inl e
      | Inr x \<Rightarrow> (case all_forked cs of Inl e \<Rightarrow> Inl e | Inr xs \<Rightarrow> Inr (x # xs)))"

text \<open>\<open>r["_host_true"] - fk["clock"]\<close>, for the children whose fork line has a clock.\<close>

definition host_true_of :: "json \<Rightarrow> rat" where
  "host_true_of r = (case json_field r ''_host_true'' of JNum t \<Rightarrow> t | _ \<Rightarrow> 0)"

definition skew_of :: "json \<Rightarrow> fork_note option \<Rightarrow> rat list" where
  "skew_of r note = (case note of None \<Rightarrow> [] | Some f \<Rightarrow> if 0 < fn_clock f then [host_true_of r - fn_clock f] else [])"

definition context_ok :: "nat \<Rightarrow> nat \<times> fork_note option \<Rightarrow> bool" where
  "context_ok n x \<longleftrightarrow> map_option fn_context (snd x) = Some (branch_text (fst x) n)"

definition collisions_of :: "(bytes set \<times> bytes set \<Rightarrow> bytes set) \<Rightarrow> bytes option list \<Rightarrow> nat" where
  "collisions_of sel consoles = card (cross (enumerate 0 (map (\<lambda>c. sel (parse_samples c)) consoles)))"

definition protocol_evaluate :: "nat \<Rightarrow> json list \<Rightarrow> bytes option list \<Rightarrow> exn + protocol_report" where
  "protocol_evaluate n readys consoles =
     (case all_forked consoles of
        Inl e \<Rightarrow> Inl e
      | Inr found \<Rightarrow> Inr
          \<lparr>pr_ready = length (filter said_ready readys),
           pr_mt = collisions_of fst consoles, pr_o = collisions_of snd consoles,
           pr_contexts = length (filter (context_ok n) (enumerate 0 found)),
           pr_skews = concat (map2 skew_of readys found)\<rparr>)"

text \<open>The verdict of Spike G, and of Spike I, which also wants all children alive before and after.\<close>

definition protocol_works :: "nat \<Rightarrow> protocol_report \<Rightarrow> bool" where
  "protocol_works n r \<longleftrightarrow> pr_ready r = n \<and> (pr_mt r = 0 \<and> pr_o r = 0) \<and> pr_contexts r = n"

definition concurrent_works :: "nat \<Rightarrow> nat \<Rightarrow> nat \<Rightarrow> protocol_report \<Rightarrow> bool" where
  "concurrent_works n before after r \<longleftrightarrow>
     (before = n \<and> after = n) \<and> pr_ready r = n \<and> pr_mt r = 0 \<and> pr_o r = 0 \<and> pr_contexts r = n"

section \<open>Spike G: one child after the other\<close>

definition g_probe :: "'v platform \<Rightarrow> string \<Rightarrow> ('v, unit) hostm" where
  "g_probe P uds =
     andthen (attempt (andthen (vsock_request P uds 5000 (simple_message ''PING'')) (\<lambda>_. ret ()))
       (\<lambda>e. throw (SystemExit (''vsock pipeline failed on base VM: '' @ exn_str e)))) (\<lambda>_.
     andthen (vsock_request P uds 5000 (simple_message ''QUIESCE'')) (\<lambda>_.
     sleep_for P (1 / 5)))"

definition g_child ::
  "'v platform \<Rightarrow> vm_spec \<Rightarrow> string \<Rightarrow> string \<Rightarrow> string \<Rightarrow> string \<Rightarrow> nat \<Rightarrow> nat \<Rightarrow> ('v, json) hostm" where
  "g_child P spec work uds snap mem n i =
     andthen (unlink_quietly uds) (\<lambda>_.
     andthen (fork_vm P (console_child spec work i) snap mem ''File'') (\<lambda>c.
     andthen (drive_fork P uds i n) (\<lambda>r.
     andthen (sleep_for P 2) (\<lambda>_.
     andthen (kill P c) (\<lambda>_. ret r)))))"

fun in_turn :: "(nat \<Rightarrow> ('v, 'a) hostm) \<Rightarrow> nat list \<Rightarrow> ('v, 'a list) hostm" where
  "in_turn f [] = ret []"
| "in_turn f (i # is) = andthen (f i) (\<lambda>x. andthen (in_turn f is) (\<lambda>xs. ret (x # xs)))"

definition spike_g :: "'v platform \<Rightarrow> string \<Rightarrow> string \<Rightarrow> nat \<Rightarrow> string \<Rightarrow> nat \<Rightarrow> ('v, protocol_report \<times> bool) hostm" where
  "spike_g P kern rootfs mem_mib work n =
     (let uds = path_join work ''base.vsock''; spec = protocol_spec kern rootfs mem_mib 1 ''/init_protocol'' uds;
          snap = path_join work ''base.snapshot''; mem = path_join work ''base.mem''
      in andthen (seal_base P (console_base spec work) 3 snap mem (\<lambda>_. g_probe P uds)) (\<lambda>_.
         andthen (in_turn (g_child P spec work uds snap mem n) [0..<n]) (\<lambda>readys.
         andthen (read_consoles (map (child_console work) [0..<n])) (\<lambda>consoles.
         andthen (lift_sum (protocol_evaluate n readys consoles)) (\<lambda>r. ret (r, protocol_works n r))))))"

section \<open>Spike I: all children at once\<close>

definition i_baked :: string where
  "i_baked = ''/klados-vsock''"

definition i_probe :: "'v platform \<Rightarrow> string \<Rightarrow> ('v, unit) hostm" where
  "i_probe P uds =
     andthen (vsock_request P uds 5000 (simple_message ''PING'')) (\<lambda>_.
     andthen (vsock_request P uds 5000 (simple_message ''QUIESCE'')) (\<lambda>_. sleep_for P (1 / 5)))"

definition fork_dir :: "string \<Rightarrow> nat \<Rightarrow> string" where
  "fork_dir work i = in_work work ''fork_'' i []"

definition remapped_child :: "vm_spec \<Rightarrow> string \<Rightarrow> nat \<Rightarrow> microvm" where
  "remapped_child spec work i =
     microvm_init spec work (''child_'' @ show_nat i) (Some (child_console work i)) (Some (i_baked, fork_dir work i))"

definition fork_uds :: "string \<Rightarrow> nat \<Rightarrow> string" where
  "fork_uds work i = path_join (fork_dir work i) ''vm.vsock''"

text \<open>\<open>sum(1 for c in children if c.proc.poll() is None)\<close>\<close>

definition count_alive :: "'v platform \<Rightarrow> microvm list \<Rightarrow> ('v, nat) hostm" where
  "count_alive P cs h =
     (Inr (length (filter (\<lambda>c. case mv_proc c of Some pid \<Rightarrow> pf_alive P pid h | None \<Rightarrow> False) cs)), h)"

text \<open>\<open>shutil.rmtree(work, ignore_errors=True)\<close>\<close>

definition remove_tree :: "string \<Rightarrow> ('v, unit) hostm" where
  "remove_tree dir h =
     (Inr (), h\<lparr>h_files := (\<lambda>p. if take (length (path_join dir [])) p = path_join dir [] then None else h_files h p)\<rparr>)"

definition spike_i ::
  "'v platform \<Rightarrow> string \<Rightarrow> string \<Rightarrow> nat \<Rightarrow> string \<Rightarrow> nat \<Rightarrow> ('v, rat \<times> nat \<times> nat \<times> protocol_report \<times> bool) hostm" where
  "spike_i P kern rootfs mem_mib work n =
     (let uds = path_join i_baked ''vm.vsock''; spec = protocol_spec kern rootfs mem_mib 1 ''/init_protocol'' uds;
          snap = path_join work ''base.snapshot''; mem = path_join work ''base.mem''
      in andthen (unlink_quietly uds) (\<lambda>_.
         andthen (seal_base P (console_base spec work) 3 snap mem (\<lambda>_. i_probe P uds)) (\<lambda>_.
         andthen time_now (\<lambda>t0.
         andthen (fork_vms P (remapped_child spec work) snap mem [0..<n]) (\<lambda>children.
         andthen time_now (\<lambda>t1.
         andthen (count_alive P children) (\<lambda>before.
         andthen (in_turn (\<lambda>i. drive_fork P (fork_uds work i) i n) [0..<n]) (\<lambda>readys.
         andthen (sleep_for P 3) (\<lambda>_.
         andthen (count_alive P children) (\<lambda>after.
         andthen (kill_all P children) (\<lambda>_.
         andthen (read_consoles (map (child_console work) [0..<n])) (\<lambda>consoles.
         andthen (lift_sum (protocol_evaluate n readys consoles)) (\<lambda>r.
         andthen (remove_tree work) (\<lambda>_.
         ret ((t1 - t0) * 1000, before, after, r, concurrent_works n before after r)))))))))))))))"

section \<open>Spike H: a database under the snapshot\<close>

text \<open>\<open>{k: int(v) for k, v in (c.get("per_worker") or {}).items()}\<close>\<close>

fun to_int :: "json \<Rightarrow> exn + int" where
  "to_int (JInt i) = Inr i"
| "to_int (JBool b) = Inr (if b then 1 else 0)"
| "to_int (JNum x) = Inr (trunc_rat x)"
| "to_int (JStr s) = (case parse_int (strip s) of Some i \<Rightarrow> Inr i | None \<Rightarrow> Inl (ValueError (''invalid literal for int() with base 10: '' @ py_repr s)))"
| "to_int _ = Inl (TypeError ''int() argument must be a string, a bytes-like object or a real number'')"

fun ints_of :: "(string \<times> json) list \<Rightarrow> exn + (string \<times> int) list" where
  "ints_of [] = Inr []"
| "ints_of ((k, v) # kvs) =
     (case to_int v of
        Inl e \<Rightarrow> Inl e
      | Inr i \<Rightarrow> (case ints_of kvs of Inl e \<Rightarrow> Inl e | Inr xs \<Rightarrow> Inr ((k, i) # xs)))"

definition falsy :: "json \<Rightarrow> bool" where
  "falsy j \<longleftrightarrow> j \<in> {JNull, JBool False, JInt 0, JNum 0, JStr [], JList [], JObj []}"

definition per_worker :: "json \<Rightarrow> exn + (string \<times> int) list" where
  "per_worker c =
     (case json_get c ''per_worker'' of
        Inl e \<Rightarrow> Inl e
      | Inr None \<Rightarrow> Inr []
      | Inr (Some j) \<Rightarrow> if falsy j then Inr []
          else (case j of JObj kvs \<Rightarrow> ints_of kvs | _ \<Rightarrow> Inl (TypeError ''object has no attribute items'')))"

record h_row =
  hr_integrity :: json
  hr_resumed :: bool
  hr_grew :: bool
  hr_session :: bool

definition row_pass :: "h_row \<Rightarrow> bool" where
  "row_pass r \<longleftrightarrow> hr_integrity r = JStr ''ok'' \<and> hr_resumed r \<and> hr_grew r \<and> hr_session r"

definition count_of :: "(string \<times> int) list \<Rightarrow> string \<Rightarrow> int" where
  "count_of pw w = (case map_of pw w of Some i \<Rightarrow> i | None \<Rightarrow> 0)"

definition h_row_of :: "(string \<times> int) list \<Rightarrow> json \<Rightarrow> json \<Rightarrow> exn + h_row" where
  "h_row_of base_pw base_session chk =
     (case per_worker chk of
        Inl e \<Rightarrow> Inl e
      | Inr pw \<Rightarrow> Inr
          \<lparr>hr_integrity = json_field chk ''integrity'',
           hr_resumed = (list_all (\<lambda>(w, c). count_of base_pw w \<le> count_of pw w) base_pw \<and> length base_pw \<le> length pw),
           hr_grew = (sum_list (map snd base_pw) < sum_list (map snd pw)),
           hr_session = (json_field chk ''session'' = base_session)\<rparr>)"

fun h_rows :: "(string \<times> int) list \<Rightarrow> json \<Rightarrow> json list \<Rightarrow> exn + h_row list" where
  "h_rows pw s [] = Inr []"
| "h_rows pw s (c # cs) =
     (case h_row_of pw s c of
        Inl e \<Rightarrow> Inl e
      | Inr r \<Rightarrow> (case h_rows pw s cs of Inl e \<Rightarrow> Inl e | Inr rs \<Rightarrow> Inr (r # rs)))"

definition h_evaluate :: "json \<Rightarrow> json list \<Rightarrow> exn + h_row list \<times> bool" where
  "h_evaluate base_check results =
     (case per_worker base_check of
        Inl e \<Rightarrow> Inl e
      | Inr pw \<Rightarrow> (case h_rows pw (json_field base_check ''session'') results of
                     Inl e \<Rightarrow> Inl e
                   | Inr rows \<Rightarrow> Inr (rows, list_all row_pass rows)))"

definition h_child ::
  "'v platform \<Rightarrow> vm_spec \<Rightarrow> string \<Rightarrow> string \<Rightarrow> string \<Rightarrow> string \<Rightarrow> nat \<Rightarrow> ('v, json) hostm" where
  "h_child P spec work uds snap mem i =
     andthen (unlink_quietly uds) (\<lambda>_.
     andthen (fork_vm P (console_child spec work i) snap mem ''File'') (\<lambda>c.
     andthen (sleep_for P (3 / 2)) (\<lambda>_.
     andthen (vsock_request P uds 5000 (simple_message ''CHECK'')) (\<lambda>chk.
     andthen (kill P c) (\<lambda>_. ret chk)))))"

definition spike_h ::
  "'v platform \<Rightarrow> string \<Rightarrow> string \<Rightarrow> nat \<Rightarrow> string \<Rightarrow> nat \<Rightarrow> rat \<Rightarrow> ('v, h_row list \<times> bool) hostm" where
  "spike_h P kern rootfs mem_mib work n load_s =
     (let uds = path_join work ''base.vsock''; spec = protocol_spec kern rootfs mem_mib 2 ''/init_fidelity'' uds;
          snap = path_join work ''base.snapshot''; mem = path_join work ''base.mem'';
          probe = andthen (vsock_request P uds 5000 (simple_message ''CHECK'')) (\<lambda>c.
            andthen (lift_sum (json_get c ''session'')) (\<lambda>_. ret c))
      in andthen (seal_base P (console_base spec work) load_s snap mem (\<lambda>_. probe)) (\<lambda>base_check.
         andthen (in_turn (h_child P spec work uds snap mem) [0..<n]) (\<lambda>results.
         lift_sum (h_evaluate base_check results))))"

section \<open>What the verdict means\<close>

lemma all_forked_nth:
  "all_forked cs = Inr found \<Longrightarrow> length found = length cs \<and> (\<forall>i < length cs. parse_forked (cs ! i) = Inr (found ! i))"
proof (induction cs arbitrary: found)
  case (Cons c cs)
  from Cons.prems obtain x xs where x: "parse_forked c = Inr x" "all_forked cs = Inr xs" "found = x # xs"
    by (auto split: sum.splits)
  from Cons.IH [OF x(2)] x(1,3) show ?case by (auto simp: less_Suc_eq_0_disj)
qed simp

lemma all_forked_ok:
  "\<forall>i < length cs. parse_forked (cs ! i) = Inr (f i) \<Longrightarrow> all_forked cs = Inr (map f [0..<length cs])"
proof (induction cs arbitrary: f)
  case (Cons c cs)
  have "parse_forked c = Inr (f 0)" using Cons.prems by fastforce
  moreover have "\<forall>i < length cs. parse_forked (cs ! i) = Inr (f (Suc i))" using Cons.prems by fastforce
  from Cons.IH [OF this] have "all_forked cs = Inr (map (\<lambda>i. f (Suc i)) [0..<length cs])" .
  moreover have "map f [0..<length (c # cs)] = f 0 # map (\<lambda>i. f (Suc i)) [0..<length cs]"
    by (simp add: map_upt_Suc del: upt_Suc)
  ultimately show ?case by (simp del: upt_Suc)
qed simp

lemma length_filter_all: "length (filter p xs) = length xs \<longleftrightarrow> (\<forall>i < length xs. p (xs ! i))"
proof -
  have "length (filter p xs) = length xs \<longleftrightarrow> (\<forall>x \<in> set xs. p x)"
    by (metis filter_True length_filter_less nat_neq_iff)
  then show ?thesis by (simp add: all_set_conv_all_nth)
qed

lemma finite_parse_samples: "finite (fst (parse_samples c))" "finite (snd (parse_samples c))"
  by (simp_all add: parse_samples_def split: option.splits)

lemma cross_enumerate:
  "cross (enumerate 0 ss) = {} \<longleftrightarrow> (\<forall>i < length ss. \<forall>j < length ss. i \<noteq> j \<longrightarrow> ss ! i \<inter> ss ! j = {})"
proof -
  have mem: "(a, s) \<in> set (enumerate 0 ss) \<longleftrightarrow> a < length ss \<and> s = ss ! a" for a s
    by (auto simp: in_set_conv_nth nth_enumerate_eq)
  show ?thesis unfolding cross_empty by (auto simp: mem Ball_def)
qed

lemma no_collisions:
  assumes "sel = fst \<or> sel = snd"
  shows "collisions_of sel cs = 0 \<longleftrightarrow>
    (\<forall>i < length cs. \<forall>j < length cs. i \<noteq> j \<longrightarrow> sel (parse_samples (cs ! i)) \<inter> sel (parse_samples (cs ! j)) = {})"
proof -
  let ?ss = "map (\<lambda>c. sel (parse_samples c)) cs"
  have "\<forall>x \<in> set (enumerate 0 ?ss). finite (snd x)"
    using assms finite_parse_samples by (auto simp: enumerate_eq_zip dest!: set_zip_rightD)
  then have "card (cross (enumerate 0 ?ss)) = 0 \<longleftrightarrow> cross (enumerate 0 ?ss) = {}"
    by (simp add: finite_cross)
  then show ?thesis by (simp add: collisions_of_def cross_enumerate)
qed

lemma contexts_all:
  "length (filter (context_ok n) (enumerate 0 found)) = length found \<longleftrightarrow>
    (\<forall>i < length found. map_option fn_context (found ! i) = Some (branch_text i n))"
proof -
  have "length (filter (context_ok n) (enumerate 0 found)) = length (enumerate 0 found) \<longleftrightarrow>
      (\<forall>i < length (enumerate 0 found). context_ok n (enumerate 0 found ! i))"
    by (rule length_filter_all)
  then show ?thesis by (simp add: context_ok_def nth_enumerate_eq)
qed

text \<open>No sample value of one child is a sample value of another.\<close>

definition samples_disjoint :: "bytes option list \<Rightarrow> bool" where
  "samples_disjoint cs \<longleftrightarrow> (\<forall>i < length cs. \<forall>j < length cs. i \<noteq> j \<longrightarrow>
     fst (parse_samples (cs ! i)) \<inter> fst (parse_samples (cs ! j)) = {} \<and>
     snd (parse_samples (cs ! i)) \<inter> snd (parse_samples (cs ! j)) = {})"

lemma works_iff:
  assumes "protocol_evaluate n readys consoles = Inr r" "length readys = n" "length consoles = n"
  shows "protocol_works n r \<longleftrightarrow> (\<forall>i < n. said_ready (readys ! i)) \<and> samples_disjoint consoles \<and>
    (\<forall>i < n. \<exists>f. parse_forked (consoles ! i) = Inr (Some f) \<and> fn_context f = branch_text i n)"
proof -
  obtain found where found: "all_forked consoles = Inr found"
      and r: "pr_ready r = length (filter said_ready readys)" "pr_mt r = collisions_of fst consoles"
        "pr_o r = collisions_of snd consoles" "pr_contexts r = length (filter (context_ok n) (enumerate 0 found))"
    using assms(1) by (auto simp: protocol_evaluate_def split: sum.splits)
  note nth = all_forked_nth [OF found]
  have "pr_ready r = n \<longleftrightarrow> (\<forall>i < n. said_ready (readys ! i))"
    using length_filter_all [of said_ready readys] r(1) assms(2) by simp
  moreover have "pr_mt r = 0 \<and> pr_o r = 0 \<longleftrightarrow> samples_disjoint consoles"
    unfolding r no_collisions [of fst, simplified] no_collisions [of snd, simplified] samples_disjoint_def by blast
  moreover have "pr_contexts r = n \<longleftrightarrow> (\<forall>i < n. map_option fn_context (found ! i) = Some (branch_text i n))"
    using contexts_all [of n found] r(4) nth assms(3) by simp
  moreover have "map_option fn_context (found ! i) = Some (branch_text i n) \<longleftrightarrow>
      (\<exists>f. parse_forked (consoles ! i) = Inr (Some f) \<and> fn_context f = branch_text i n)" if "i < n" for i
    using nth that assms(3) by auto
  ultimately show ?thesis unfolding protocol_works_def by metis
qed

text \<open>
  C36. The verdict of the protocol experiment: over one answer and one console per child, it reports
  success exactly when every child answered \<open>READY\<close>, no Mersenne Twister and no OpenSSL value appears
  on two consoles, and the first fork line of every console carries that child's own branch context.
  (Consoles without any sample are disjoint: that values were drawn at all is not part of it.)
\<close>

theorem protocol_verdict:
  assumes "protocol_evaluate n readys consoles = Inr r" "length readys = n" "length consoles = n"
  shows "protocol_works n r \<longleftrightarrow> (\<forall>i < n. said_ready (readys ! i)) \<and> samples_disjoint consoles \<and>
    (\<forall>i < n. \<exists>f. parse_forked (consoles ! i) = Inr (Some f) \<and> fn_context f = branch_text i n)"
  by (rule works_iff [OF assms])

theorem protocol_verdict_witness:
  "\<exists>r. protocol_evaluate 1 [JObj [(''status'', JStr ''READY'')]] [None] = Inr r \<and> \<not> protocol_works 1 r"
proof -
  have "all_forked [None] = Inr [None]" by (simp add: parse_forked_def)
  then obtain r where r: "protocol_evaluate 1 [JObj [(''status'', JStr ''READY'')]] [None] = Inr r"
    by (simp add: protocol_evaluate_def)
  with protocol_verdict [OF r] show ?thesis by (auto simp: parse_forked_def)
qed

section \<open>A run of the protocol passes\<close>

lemma strip_ends:
  assumes "s \<noteq> []" "\<not> is_space (hd s)" "\<not> is_space (last s)"
  shows "strip s = s"
proof -
  have st: "strip s = rev (dropWhile is_space (rev (dropWhile is_space s)))"
    unfolding strip_def is_space_def Let_def by (rule refl)
  have d: "dropWhile is_space s = s" using assms(1,2) by (cases s) auto
  have "dropWhile is_space (rev s) = rev s"
    using assms(1,3) by (cases s rule: rev_cases) auto
  with st d show ?thesis by simp
qed

lemma digit_no_space: "c \<in> set (show_nat n) \<Longrightarrow> \<not> is_space c"
  using show_nat_range [of c n] by (auto simp: is_space_def)

lemma branch_text_facts: "strip (branch_text i n) = branch_text i n" "CHR 0x0A \<notin> set (branch_text i n)"
proof -
  have "last (branch_text i n) = last (show_nat n)" by (simp add: branch_text_def)
  moreover have "last (show_nat n) \<in> set (show_nat n)" by simp
  ultimately have "\<not> is_space (last (branch_text i n))" using digit_no_space by metis
  then show "strip (branch_text i n) = branch_text i n"
    by (intro strip_ends) (simp_all add: branch_text_def is_space_def)
  have "CHR 0x0A \<notin> set (show_nat m)" for m using digit_no_space [of "CHR 0x0A" m] by (auto simp: is_space_def)
  then show "CHR 0x0A \<notin> set (branch_text i n)" by (simp add: branch_text_def)
qed

text \<open>
  Child \<open>i\<close> of \<open>n\<close> did its part: its guest, whose clock can be set, carried out the request, the entry
  is the answer of its agent with the host's time added, and its console shows the line the agent
  printed, after output in which no fork line starts.
\<close>

definition child_run :: "nat \<Rightarrow> nat \<Rightarrow> json \<Rightarrow> bytes option \<Rightarrow> bool" where
  "child_run i n ready console \<longleftrightarrow>
     (\<exists>E t g g' l resp noise eol rest.
        clock_settable E \<and> 0 \<le> t \<and> text_of E (JInt (int i)) = show_nat i \<and>
        exec_fork_ops E (fork_ops E (forked_message i n t)) (g, \<lparr>l_clock = None, l_gen = 0\<rparr>) = (Inr (), g', l) \<and>
        handle E (forked_message i n t) g = (Inr resp, g') \<and> tag_host_true t resp = Inr ready \<and>
        (eol = [10] \<or> eol = [13, 10]) \<and>
        (\<forall>k < length noise. re_match forked_re
           (drop k noise @ encode (forked_line E (forked_message i n t) l) @ eol @ rest) = None) \<and>
        console = Some (noise @ encode (forked_line E (forked_message i n t) l) @ eol @ rest))"

lemma forked_locals_clock:
  assumes "clock_settable E" "exec_fork_ops E (fork_ops E (forked_message i n t)) (g, l0) = (Inr (), g', l)"
  shows "l_clock l = Some (realtime_of t)"
  using assms by (auto simp: fork_ops_def forked_message_def Let_def andthen_def set_realtime_def bump_gen_cases sig_cont_def ret_def
      split: if_splits)

lemma forked_answer:
  assumes "handle E (forked_message i n t) g = (Inr resp, g')" "tag_host_true t resp = Inr ready"
  shows "said_ready ready \<and> host_true_of ready = t"
proof -
  have "handle_forked E (forked_message i n t) g = (Inr resp, g')"
    using assms(1) by (simp add: handle_def forked_message_def)
  then obtain kvs where "resp = JObj ((''status'', JStr ''READY'') # kvs)"
    by (auto simp: handle_forked_def split: prod.splits sum.splits)
  with assms(2) show ?thesis by (auto simp: said_ready_def host_true_of_def)
qed

lemma child_run_facts:
  assumes "child_run i n ready console"
  shows "said_ready ready \<and> (\<exists>f. parse_forked console = Inr (Some f) \<and> fn_context f = branch_text i n \<and>
    (\<forall>s \<in> set (skew_of ready (Some f)). \<bar>s\<bar> \<le> 1 / 1000))"
proof -
  obtain E t g g' l resp noise eol rest where c: "clock_settable E" "0 \<le> t" "text_of E (JInt (int i)) = show_nat i"
      "exec_fork_ops E (fork_ops E (forked_message i n t)) (g, \<lparr>l_clock = None, l_gen = 0\<rparr>) = (Inr (), g', l)"
      "handle E (forked_message i n t) g = (Inr resp, g')" "tag_host_true t resp = Inr ready" "eol = [10] \<or> eol = [13, 10]"
      "\<forall>k < length noise. re_match forked_re
         (drop k noise @ encode (forked_line E (forked_message i n t) l) @ eol @ rest) = None"
      and console: "console = Some (noise @ encode (forked_line E (forked_message i n t) l) @ eol @ rest)"
    using assms unfolding child_run_def by blast
  have idx: "show_nat i = text_of E (json_field (forked_message i n t) ''index'')"
    and ctx: "branch_text i n = text_of E (json_field (forked_message i n t) ''branch_context'')"
    using c(3) by (simp_all add: forked_message_def)
  obtain x where x: "parse_forked console = Inr (Some \<lparr>fn_index = show_nat i, fn_clock = x, fn_context = branch_text i n\<rparr>)"
      "\<bar>x - clock_or l\<bar> \<le> 1 / 2000"
    using parse_forked_line [OF c(4) idx show_nat_nonempty _ ctx branch_text_facts(2) c(7,8)]
      digit_no_space branch_text_facts(1) console by metis
  have clk: "clock_or l = (if realtime_of t = 0 then - 1 else realtime_of t)"
    using forked_locals_clock [OF c(1,4)] by (simp add: clock_or_def)
  have near: "realtime_of t \<le> t" "t < realtime_of t + 1 / 2000"
    using realtime_close [OF c(2)] by simp_all
  have "\<bar>t - x\<bar> \<le> 1 / 1000" if "0 < x"
  proof (cases "realtime_of t = 0")
    case True
    then have "\<bar>x + 1\<bar> \<le> 1 / 2000" using x(2) clk by simp
    with that show ?thesis by linarith
  next
    case False
    then have "\<bar>x - realtime_of t\<bar> \<le> 1 / 2000" using x(2) clk by simp
    with near show ?thesis by linarith
  qed
  with x(1) forked_answer [OF c(5,6)] show ?thesis by (auto simp: skew_of_def)
qed


definition demo_line :: "nat \<Rightarrow> bytes" where
  "demo_line i = encode (''KLADOS_FORKED index='' @ show_nat i @ '' gen=1 clock=2.500 context=you are branch '' @ show_nat i @ '' of 2'')"

lemma demo_digits: "show_nat 0 = ''0''" "show_nat (Suc 0) = ''1''" "show_nat 2 = ''2''" "show_nat 500 = ''500''"
  by (simp_all add: show_nat.simps digit_char_def char_of_def bit_Suc_0_iff)

lemma demo_forked_line:
  "encode (forked_line demo_console_env (forked_message i 2 (5 / 2)) \<lparr>l_clock = Some (5 / 2), l_gen = 1\<rparr>) = demo_line i"
proof -
  have "round_half_even 2500 = 2500" using round_half_even_int [of 2500] by simp
  then have "fmt_fixed 3 (5 / 2) = ''2.500''" by (simp add: fmt_fixed_def pad_nat_def demo_digits)
  moreover have "show_int 1 = ''1''" by (simp add: show_int_def demo_digits)
  ultimately show ?thesis
    by (simp add: forked_line_def demo_line_def clock_or_def forked_message_def branch_text_def demo_console_env_def show_int_def demo_digits)
qed

lemma demo_no_samples: "parse_samples (Some (demo_line 0 @ [13, 10])) = ({}, {})" "parse_samples (Some (demo_line 1 @ [13, 10])) = ({}, {})"
  unfolding demo_line_def demo_digits by code_simp+

definition demo_ready :: "nat \<Rightarrow> json" where
  "demo_ready i = JObj [(''status'', JStr ''READY''), (''index'', JInt (int i)), (''gen'', JInt 1), (''clock'', JNum (5 / 2)),
     (''_host_true'', JNum (5 / 2))]"

lemma demo_child_run: "child_run i 2 (demo_ready i) (Some (demo_line i @ [13, 10]))"
proof -
  let ?E = demo_console_env and ?m = "forked_message i 2 (5 / 2)"
  let ?l = "\<lparr>l_clock = Some (5 / 2), l_gen = 1\<rparr> :: fork_locals"
  have "\<lfloor>5 / 2 :: rat\<rfloor> = 2" by (rule floor_unique) simp_all
  then have rt: "realtime_of (5 / 2) = 5 / 2" by (simp add: realtime_of_def trunc_rat_def)
  note run_simps = fork_ops_def forked_message_def demo_console_env_def demo_guest_env_def demo_guest_def Let_def set_realtime_def rt
    andthen_def ret_def bump_gen_cases current_gen_def
  have "\<exists>g'. exec_fork_ops ?E (fork_ops ?E ?m) (demo_guest, \<lparr>l_clock = None, l_gen = 0\<rparr>) = (Inr (), g', ?l)"
    using demo_gen by (simp add: run_simps)
  then obtain g' where run: "exec_fork_ops ?E (fork_ops ?E ?m) (demo_guest, \<lparr>l_clock = None, l_gen = 0\<rparr>) = (Inr (), g', ?l)"
    by blast
  let ?resp = "JObj [(''status'', JStr ''READY''), (''index'', JInt (int i)), (''gen'', JInt 1), (''clock'', JNum (5 / 2))]"
  have fields: "json_get ?m ''type'' = Inr (Some (JStr ''FORKED''))" "json_field ?m ''index'' = JInt (int i)"
    by (simp_all add: forked_message_def)
  have "handle_forked ?E ?m demo_guest = (Inr ?resp, g')"
    unfolding handle_forked_def run by (simp add: fields)
  then have "handle ?E ?m demo_guest = (Inr ?resp, g')" unfolding handle_def fields by simp
  moreover have "tag_host_true (5 / 2) ?resp = Inr (demo_ready i)" by (simp add: demo_ready_def)
  moreover have "clock_settable ?E" "text_of ?E (JInt (int i)) = show_nat i"
    by (simp_all add: demo_console_env_def demo_guest_env_def show_int_def)
  moreover have "Some (demo_line i @ [13, 10]) = Some ([] @ encode (forked_line ?E ?m ?l) @ [13, 10] @ [])"
    by (simp add: demo_forked_line)
  ultimately show ?thesis unfolding child_run_def
    by (intro exI [of _ ?E] exI [of _ "5 / 2"] exI [of _ demo_guest] exI [of _ g'] exI [of _ ?l] exI [of _ ?resp]
        exI [of _ "[]"] exI [of _ "[13, 10]"]) (auto simp: run)
qed


end
