(* ===== verification/Browser_Session.thy ===== *)
theory Browser_Session
  imports Web_Socket Fork_Experiments
begin

text \<open>
  A live browser across forks. In the guest (\<open>spikes/guest/browser_workload.py\<close>): the WebSocket
  handshake of \<open>WS.__init__\<close>, choosing the page, setting the session token, and the reports \<open>main\<close>
  writes round after round. On the host (\<open>spikes/harness/spike_j_browser.py\<close>): asking the agent for
  the report, waiting for the agent and the browser, and the verdict. Launching Chrome and the server
  of the page are left out.
\<close>

section \<open>The handshake\<close>

fun contains :: "'a list \<Rightarrow> 'a list \<Rightarrow> bool" where
  "contains p s \<longleftrightarrow> take (length p) s = p \<or> (case s of [] \<Rightarrow> False | _ # t \<Rightarrow> contains p t)"

declare contains.simps [simp del]

definition crlf :: string where
  "crlf = [CHR 0x0D, CHR 0x0A]"

definition handshake_request :: "string \<Rightarrow> string \<Rightarrow> bytes" where
  "handshake_request path key =
     encode (''GET '' @ path @ '' HTTP/1.1'' @ crlf @ ''Host: 127.0.0.1:9222'' @ crlf @
             ''Upgrade: websocket'' @ crlf @ ''Connection: Upgrade'' @ crlf @
             ''Sec-WebSocket-Key: '' @ key @ crlf @ ''Sec-WebSocket-Version: 13'' @ crlf @ crlf)"

definition header_end :: bytes where
  "header_end = [13, 10, 13, 10]"

text \<open>
  \<open>while b"\r\n\r\n" not in buf: buf += self.s.recv(4096)\<close>. A closed socket yields empty reads for
  ever, and the loop does not look at that: \<open>None\<close> is not returning.
\<close>

partial_function (option) read_header :: "bytes \<Rightarrow> segments \<Rightarrow> ((exn + bytes) \<times> segments) option" where
  "read_header buf cs =
     (if contains header_end buf then Some (Inr buf, cs)
      else (case sock_recv 4096 cs of
              (Inl e, cs') \<Rightarrow> Some (Inl e, cs')
            | (Inr c, cs') \<Rightarrow> read_header (buf @ c) cs'))"

lemma contains_Cons: "contains p s \<Longrightarrow> contains p (x # s)"
  by (subst contains.simps) simp

lemma contains_append: "contains p s \<Longrightarrow> contains p (s @ t)"
proof (induction s)
  case Nil
  then have "p = []" by (subst (asm) contains.simps) simp
  then show ?case by (subst contains.simps) simp
next
  case (Cons x s)
  show ?case
  proof (cases "take (length p) (x # s) = p")
    case True
    then have "take (length p) ((x # s) @ t) = p" by (metis append_eq_conv_conj append_take_drop_id append.assoc)
    then show ?thesis by (subst contains.simps) simp
  next
    case False
    then have "contains p s" using Cons.prems by (subst (asm) contains.simps) simp
    then show ?thesis using Cons.IH contains_Cons by simp
  qed
qed

text \<open>What is left of a stream of successful reads after one \<open>recv\<close>.\<close>

lemma sock_recv_stream:
  "\<exists>c bs'. sock_recv 4096 (map Inr bs) = (Inr c, map Inr bs') \<and> c @ concat bs' = concat bs \<and>
     (bs \<noteq> [] \<longrightarrow> length (concat bs') + length bs' < length (concat bs) + length bs)"
proof (cases bs)
  case (Cons b bs')
  show ?thesis
  proof (cases "length b \<le> 4096")
    case True
    then show ?thesis using Cons by (intro exI [of _ b] exI [of _ bs']) simp
  next
    case False
    then show ?thesis using Cons by (intro exI [of _ "take 4096 b"] exI [of _ "drop 4096 b # bs'"]) simp
  qed
qed simp

lemma read_header_needs_end:
  assumes "read_header buf cs = Some r"
  shows "\<forall>bs. cs = map Inr bs \<longrightarrow> contains header_end (buf @ concat bs)"
proof (rule read_header.raw_induct
    [where P = "\<lambda>buf cs r. \<forall>bs. cs = map Inr bs \<longrightarrow> contains header_end (buf @ concat bs)", OF _ assms],
    intro allI impI)
  fix rh buf cs r bs
  assume IH: "\<And>buf cs r. rh buf cs = Some r \<Longrightarrow> \<forall>bs. cs = map Inr bs \<longrightarrow> contains header_end (buf @ concat bs)"
    and step: "(if contains header_end buf then Some (Inr buf, cs)
      else (case sock_recv 4096 cs of (Inl e, cs') \<Rightarrow> Some (Inl e, cs') | (Inr c, cs') \<Rightarrow> rh (buf @ c) cs')) = Some r"
    and cs: "cs = map Inr bs"
  show "contains header_end (buf @ concat bs)"
  proof (cases "contains header_end buf")
    case True
    then show ?thesis by (rule contains_append)
  next
    case False
    obtain c bs' where c: "sock_recv 4096 cs = (Inr c, map Inr bs')" "c @ concat bs' = concat bs"
      using sock_recv_stream [of bs] cs by blast
    have "rh (buf @ c) (map Inr bs') = Some r" using step False c(1) by simp
    from IH [OF this] c(2) show ?thesis by auto
  qed
qed

lemma read_header_returns:
  "contains header_end (buf @ concat bs) \<Longrightarrow> \<exists>got bs'. read_header buf (map Inr bs) = Some (Inr got, map Inr bs')"
proof (induction "length (concat bs) + length bs" arbitrary: buf bs rule: less_induct)
  case less
  show ?case
  proof (cases "contains header_end buf")
    case True
    then show ?thesis by (subst read_header.simps) auto
  next
    case False
    with less.prems have "bs \<noteq> []" by auto
    then obtain c bs' where c: "sock_recv 4096 (map Inr bs) = (Inr c, map Inr bs')" "c @ concat bs' = concat bs"
        "length (concat bs') + length bs' < length (concat bs) + length bs"
      using sock_recv_stream [of bs] by blast
    have "contains header_end ((buf @ c) @ concat bs')" using less.prems c(2) by simp
    from less.hyps [OF c(3) this] False c(1) show ?thesis by (subst read_header.simps) simp
  qed
qed

text \<open>
  C35. The handshake loop: as long as reading does not fail, it returns exactly when the end of the
  response header arrives in the stream (however it is cut), and never otherwise: a peer that closes
  the connection before that leaves the client looping on empty reads.
\<close>

theorem handshake_returns_iff:
  "(\<exists>r. read_header [] (map Inr bs) = Some r) \<longleftrightarrow> contains header_end (concat bs)"
  using read_header_needs_end [of "[]" "map Inr bs"] read_header_returns [of "[]" bs] by auto

section \<open>The session in the guest\<close>

text \<open>
  The page behind the socket: what is still to arrive, what was sent, and the last message number.
  \<open>keys\<close> is the masking key drawn for a message; \<open>rp\<close> is \<open>repr\<close> of an exception.
\<close>

record page =
  pg_in :: segments
  pg_out :: bytes
  pg_mid :: int

definition page_ev :: "codec \<Rightarrow> (int \<Rightarrow> bytes) \<Rightarrow> string \<Rightarrow> page \<Rightarrow> (exn + json) \<times> page" where
  "page_ev K keys expr p =
     (case ws_ev K (keys (pg_mid p)) expr (pg_mid p) (pg_in p) of
        ((r, cs), f, mid) \<Rightarrow> (r, \<lparr>pg_in = cs, pg_out = pg_out p @ f, pg_mid = mid\<rparr>))"

text \<open>\<open>page_ws\<close>: the first page that can be debugged, else a new one; errors mean none.\<close>

fun find_target :: "json list \<Rightarrow> exn + json option" where
  "find_target [] = Inr None"
| "find_target (t # ts) =
     (case json_get t ''type'' of
        Inl e \<Rightarrow> Inl e
      | Inr ty \<Rightarrow>
          if (ty = Some (JStr ''page'') \<or> ty = Some (JStr ''tab'')) \<and> json_truth (json_field t ''webSocketDebuggerUrl'')
          then Inr (Some (json_field t ''webSocketDebuggerUrl'')) else find_target ts)"

text \<open>
  \<open>targets\<close> is what iterating over the answer to \<open>/json\<close> yields, \<open>fresh\<close> the answer to \<open>/json/new\<close>;
  the second result is \<open>diag\<close>, the \<open>repr\<close> of what went wrong.
\<close>

definition page_ws :: "(exn \<Rightarrow> string) \<Rightarrow> exn + json list \<Rightarrow> exn + json \<Rightarrow> json \<times> (string \<times> string) list" where
  "page_ws rp targets fresh =
     (case (case targets of Inl e \<Rightarrow> Inl e | Inr ts \<Rightarrow> find_target ts) of
        Inr (Some u) \<Rightarrow> (u, [])
      | found \<Rightarrow>
          (let diag = (case found of Inl e \<Rightarrow> [(''json'', rp e)] | Inr _ \<Rightarrow> [])
           in case (case fresh of Inl e \<Rightarrow> Inl e | Inr t \<Rightarrow> json_get t ''webSocketDebuggerUrl'') of
                Inl e \<Rightarrow> (JNull, diag @ [(''new'', rp e)])
              | Inr None \<Rightarrow> (JNull, diag)
              | Inr (Some u) \<Rightarrow> (u, diag)))"

text \<open>Waiting for the answer to a message without looking at its result.\<close>

function await_id :: "codec \<Rightarrow> int \<Rightarrow> segments \<Rightarrow> (exn + unit) \<times> segments" where
  "await_id K mid cs =
     (case ws_recv K cs of
        (Inl e, cs') \<Rightarrow> (Inl e, cs')
      | (Inr None, cs') \<Rightarrow> await_id K mid cs'
      | (Inr (Some m), cs') \<Rightarrow>
          if \<not> json_truth m then await_id K mid cs'
          else (case json_get m ''id'' of
                  Inl e \<Rightarrow> (Inl e, cs')
                | Inr i \<Rightarrow> if is_number i mid then (Inr (), cs') else await_id K mid cs'))"
  by pat_completeness auto
termination
  by (relation "measure (\<lambda>(K, mid, cs). pending cs)") (simp_all, (rule ws_recv_shrinks, rule sym, assumption)+)

definition navigate_message :: "int \<Rightarrow> json" where
  "navigate_message mid = JObj [(''id'', JInt mid), (''method'', JStr ''Page.navigate''),
     (''params'', JObj [(''url'', JStr ''http://127.0.0.1:8123/'')])]"

definition page_navigate :: "codec \<Rightarrow> (int \<Rightarrow> bytes) \<Rightarrow> page \<Rightarrow> (exn + unit) \<times> page" where
  "page_navigate K keys p =
     (let mid = pg_mid p + 1
      in case ws_send K (keys (pg_mid p)) (navigate_message mid) of
           Inl e \<Rightarrow> (Inl e, p\<lparr>pg_mid := mid\<rparr>)
         | Inr f \<Rightarrow> (case await_id K mid (pg_in p) of
                       (r, cs) \<Rightarrow> (r, \<lparr>pg_in = cs, pg_out = pg_out p @ f, pg_mid = mid\<rparr>)))"

fun until_complete :: "codec \<Rightarrow> (int \<Rightarrow> bytes) \<Rightarrow> nat \<Rightarrow> page \<Rightarrow> (exn + unit) \<times> page" where
  "until_complete K keys 0 = ret ()"
| "until_complete K keys (Suc n) =
     andthen (page_ev K keys ''document.readyState'') (\<lambda>v.
       if v = JStr ''complete'' then ret () else until_complete K keys n)"

definition session_script :: "string \<Rightarrow> string" where
  "session_script token =
     ''window.__session='' @ py_repr token @ ''; localStorage.setItem('' @ py_repr ''sess'' @ '','' @ py_repr token @
     ''); document.title='' @ py_repr token @ ''; window.__beat=0; '' @ py_repr ''ok''"

definition say :: "string \<Rightarrow> string \<Rightarrow> guest \<Rightarrow> guest" where
  "say name txt g = g\<lparr>g_texts := (g_texts g)(name \<mapsto> txt)\<rparr>"

definition newline :: string where
  "newline = [CHR 0x0A]"

section \<open>Connecting\<close>

text \<open>\<open>url.split("9222", 1)[1]\<close>\<close>

fun after_port :: "string \<Rightarrow> string option" where
  "after_port s =
     (if take 4 s = ''9222'' then Some (drop 4 s) else (case s of [] \<Rightarrow> None | _ # t \<Rightarrow> after_port t))"

declare after_port.simps [simp del]

text \<open>
  \<open>WS(url)\<close>: the connection is what its reads will yield; what a read delivers beyond the header is
  dropped with the buffer. \<open>None\<close> is a handshake that does not return.
\<close>

definition ws_open :: "json \<Rightarrow> string \<Rightarrow> exn + segments \<Rightarrow> (exn + page) option" where
  "ws_open url key conn =
     (case url of
        JStr u \<Rightarrow>
          (case after_port u of
             None \<Rightarrow> Some (Inl (IndexError ''list index out of range''))
           | Some path \<Rightarrow>
               (case conn of
                  Inl e \<Rightarrow> Some (Inl e)
                | Inr cs \<Rightarrow>
                    (case read_header [] cs of
                       None \<Rightarrow> None
                     | Some (Inl e, _) \<Rightarrow> Some (Inl e)
                     | Some (Inr _, cs') \<Rightarrow> Some (Inr \<lparr>pg_in = cs', pg_out = handshake_request path key, pg_mid = 0\<rparr>))))
      | _ \<Rightarrow> Some (Inl (TypeError ''object has no attribute split'')))"

text \<open>What one attempt meets: the two answers of Chrome, the random key and the connection.\<close>

type_synonym attempt_world = "(exn + json list) \<times> (exn + json) \<times> string \<times> (exn + segments)"

fun comma_join :: "string list \<Rightarrow> string" where
  "comma_join [] = []"
| "comma_join [s] = s"
| "comma_join (s # t # ss) = s @ '', '' @ comma_join (t # ss)"

definition diag_text :: "(string \<times> string) list \<Rightarrow> string" where
  "diag_text d = ''{'' @ comma_join (map (\<lambda>(k, v). py_repr k @ '': '' @ py_repr v) d) @ ''}''"

definition connect_once :: "(exn \<Rightarrow> string) \<Rightarrow> attempt_world \<Rightarrow> (page option \<times> (string \<times> string) list) option" where
  "connect_once rp x =
     (case x of (targets, fresh, key, conn) \<Rightarrow>
       (case page_ws rp targets fresh of
          (url, diag) \<Rightarrow>
            if json_truth url then
              (case ws_open url key conn of
                 None \<Rightarrow> None
               | Some (Inl e) \<Rightarrow> Some (None, diag @ [(''ws'', rp e)])
               | Some (Inr p) \<Rightarrow> Some (Some p, diag))
            else Some (None, diag)))"

text \<open>The attempts; every eighth failure is reported.\<close>

fun connect_loop :: "(exn \<Rightarrow> string) \<Rightarrow> (nat \<Rightarrow> attempt_world) \<Rightarrow> nat list \<Rightarrow> guest \<Rightarrow> (page option \<times> guest) option" where
  "connect_loop rp tries [] g = Some (None, g)"
| "connect_loop rp tries (i # is) g =
     (case connect_once rp (tries i) of
        None \<Rightarrow> None
      | Some (Some p, _) \<Rightarrow> Some (Some p, g)
      | Some (None, diag) \<Rightarrow>
          connect_loop rp tries is
            (if i mod 8 = 0
             then say ''browser_state'' (''stage=connecting i='' @ show_nat i @ '' diag='' @ diag_text diag @ newline) g
             else g))"

section \<open>Running\<close>

text \<open>Setting the token; \<open>False\<close> is the early return. \<open>token\<close> is the result of \<open>secrets.token_hex(12)\<close>.\<close>

definition establish ::
  "codec \<Rightarrow> (int \<Rightarrow> bytes) \<Rightarrow> (exn \<Rightarrow> string) \<Rightarrow> string \<Rightarrow> page \<times> guest \<Rightarrow> bool \<times> page \<times> guest" where
  "establish K keys rp token s =
     (case s of (p, g) \<Rightarrow>
       (case andthen (page_navigate K keys) (\<lambda>_. andthen (until_complete K keys 50) (\<lambda>_.
               page_ev K keys (session_script token))) p of
          (Inl e, p') \<Rightarrow> (False, p', say ''browser_state'' (''stage=eval-failed err='' @ rp e @ newline) g)
        | (Inr _, p') \<Rightarrow>
            (True, p', say ''browser_state'' (''stage=token-set token='' @ token @ '' beat=0 ls='' @ token @ newline)
              (say ''browser_token'' token g))))"

text \<open>One round of the endless loop: three evaluations, then the report replaces the old one.\<close>

definition report_line :: "guest_env \<Rightarrow> json \<Rightarrow> json \<Rightarrow> json \<Rightarrow> string" where
  "report_line E beat sess ls =
     ''token='' @ text_of E sess @ '' beat='' @ text_of E beat @ '' ls='' @ text_of E ls @ newline"

definition report_round ::
  "codec \<Rightarrow> (int \<Rightarrow> bytes) \<Rightarrow> guest_env \<Rightarrow> (exn \<Rightarrow> string) \<Rightarrow> page \<times> guest \<Rightarrow> page \<times> guest" where
  "report_round K keys E rp s =
     (case s of (p, g) \<Rightarrow>
       (case andthen (page_ev K keys ''window.__beat=(window.__beat||0)+1; window.__beat'') (\<lambda>beat.
             andthen (page_ev K keys ''window.__session'') (\<lambda>sess.
             andthen (page_ev K keys (''localStorage.getItem('' @ py_repr ''sess'' @ '')'')) (\<lambda>ls.
             ret (beat, sess, ls)))) p of
          (Inl e, p') \<Rightarrow> (p', say ''browser_state'' (''stage=loop-failed err='' @ rp e @ newline) g)
        | (Inr (beat, sess, ls), p') \<Rightarrow> (p', say ''browser_state'' (report_line E beat sess ls) g)))"

fun report_rounds ::
  "codec \<Rightarrow> (int \<Rightarrow> bytes) \<Rightarrow> guest_env \<Rightarrow> (exn \<Rightarrow> string) \<Rightarrow> nat \<Rightarrow> page \<times> guest \<Rightarrow> page \<times> guest" where
  "report_rounds K keys E rp 0 s = s"
| "report_rounds K keys E rp (Suc n) s = report_rounds K keys E rp n (report_round K keys E rp s)"

text \<open>
  \<open>main\<close> up to \<open>n\<close> rounds of its last loop; \<open>None\<close> is a handshake that hangs. \<open>chrome_log\<close> is what reading
  Chrome's log yields.
\<close>

definition no_cdp :: "exn + string \<Rightarrow> string" where
  "no_cdp chrome_log = ''error=no-cdp'' @ newline @
     (case chrome_log of
        Inl e \<Rightarrow> ''(no chrome.log)''
      | Inr lg \<Rightarrow> ''HEAD:'' @ newline @ take 1500 lg @ newline @ ''...TAIL:'' @ newline @ drop (length lg - 2000) lg)"

definition browser_main ::
  "codec \<Rightarrow> (int \<Rightarrow> bytes) \<Rightarrow> guest_env \<Rightarrow> (exn \<Rightarrow> string) \<Rightarrow> string \<Rightarrow> exn + string \<Rightarrow> (nat \<Rightarrow> attempt_world) \<Rightarrow> nat \<Rightarrow> guest \<Rightarrow> guest option" where
  "browser_main K keys E rp token chrome_log tries n g =
     (case connect_loop rp tries [0..<200] (say ''browser_state'' (''stage=chrome-launched'' @ newline) g) of
        None \<Rightarrow> None
      | Some (None, g1) \<Rightarrow> Some (say ''browser_state'' (no_cdp chrome_log) g1)
      | Some (Some p, g1) \<Rightarrow>
          (case establish K keys rp token (p, say ''browser_state'' (''stage=ws-connected'' @ newline) g1) of
             (ok, p2, g2) \<Rightarrow> Some (if ok then snd (report_rounds K keys E rp n (p2, g2)) else g2)))"

section \<open>The experiment on the host\<close>

text \<open>\<open>\S\<close> of a text pattern.\<close>

definition word_byte :: "byte \<Rightarrow> bool" where
  "word_byte b \<longleftrightarrow> b \<notin> set [9, 10, 11, 12, 13, 28, 29, 30, 31, 32, 133, 160]"

definition state_re :: "re_item list" where
  "state_re = [Lit (encode ''token=''), Group 1 word_byte, Lit (encode '' beat=''), Group 1 word_byte,
     Lit (encode '' ls=''), Group 1 word_byte]"

datatype browser_note = BState string string string | BRaw string | BError string

definition parse_state :: "string \<Rightarrow> browser_note" where
  "parse_state st =
     (case re_search state_re (encode st) of
        Some (m, _) \<Rightarrow> BState (decode_bytes (m ! 0)) (decode_bytes (m ! 1)) (decode_bytes (m ! 2))
      | None \<Rightarrow> BRaw st)"

definition parse_check :: "json \<Rightarrow> exn + json \<times> browser_note" where
  "parse_check r =
     (case json_get r ''state'' of
        Inl e \<Rightarrow> Inl e
      | Inr j \<Rightarrow>
          (case (case j of None \<Rightarrow> JStr [] | Some v \<Rightarrow> if json_truth v then v else JStr []) of
             JStr st \<Rightarrow> Inr (json_field r ''token'', parse_state st)
           | _ \<Rightarrow> Inl (TypeError ''expected string or bytes-like object'')))"

definition bstate :: "'v platform \<Rightarrow> string \<Rightarrow> ('v, json \<times> browser_note) hostm" where
  "bstate P uds h =
     (case vsock_request P uds 5000 (simple_message ''BROWSER_CHECK'') h of
        (Inl e, h') \<Rightarrow> (Inr (JNull, BError (exn_str e)), h')
      | (Inr r, h') \<Rightarrow> (parse_check r, h'))"

text \<open>Trying again every \<open>gap\<close> seconds until a deadline.\<close>

lemma poll_shrinks:
  assumes "(x, h1) = timed step h" "h_clock h < deadline" "0 < gap"
  shows "nat \<lceil>(deadline - h_clock (py_sleep P gap h1)) / gap\<rceil> < nat \<lceil>(deadline - h_clock h) / gap\<rceil>"
proof -
  have "h_clock h \<le> h_clock h1" using timed_clock [of h step] assms(1) by (metis snd_conv)
  with py_sleep_clock [of h1 gap P] have "h_clock h + gap \<le> h_clock (py_sleep P gap h1)" by simp
  from deadline_measure [OF assms(2) this assms(3)] show ?thesis .
qed

function poll :: "'v platform \<Rightarrow> rat \<Rightarrow> ('v host \<Rightarrow> (exn + 'a option) \<times> 'v host) \<Rightarrow> rat \<Rightarrow> ('v, 'a option) hostm" where
  "poll P gap step deadline h =
     (if h_clock h < deadline \<and> 0 < gap
      then (case timed step h of
              (Inl e, h1) \<Rightarrow> (Inl e, h1)
            | (Inr (Some x), h1) \<Rightarrow> (Inr (Some x), h1)
            | (Inr None, h1) \<Rightarrow> poll P gap step deadline (py_sleep P gap h1))
      else (Inr None, h))"
  by pat_completeness auto
termination
proof (relation "measure (\<lambda>(P, gap, step, deadline, h). nat \<lceil>(deadline - h_clock h) / gap\<rceil>)", goal_cases)
  case (2 P gap step deadline h x y b)
  show ?case using poll_shrinks [OF 2(2)] 2(1) by simp
qed simp

declare poll.simps [simp del]

text \<open>The answer \<open>PONG\<close>; whatever goes wrong counts as no answer.\<close>

definition ping_step :: "'v platform \<Rightarrow> string \<Rightarrow> ('v, unit option) hostm" where
  "ping_step P uds =
     attempt (andthen (vsock_request P uds 5000 (simple_message ''PING'')) (\<lambda>r.
              andthen (lift_sum (json_get r ''status'')) (\<lambda>st. ret (if st = Some (JStr ''PONG'') then Some () else None))))
       (\<lambda>e. ret None)"

definition wait_pong :: "'v platform \<Rightarrow> string \<Rightarrow> rat \<Rightarrow> ('v, bool) hostm" where
  "wait_pong P uds timeout =
     andthen time_now (\<lambda>t.
     andthen (poll P (3 / 10) (ping_step P uds) (t + timeout)) (\<lambda>r. ret (r \<noteq> None)))"

definition token_step :: "'v platform \<Rightarrow> string \<Rightarrow> ('v, json option) hostm" where
  "token_step P uds = andthen (bstate P uds) (\<lambda>(tok, st). ret (if json_truth tok then Some tok else None))"

definition wait_browser :: "'v platform \<Rightarrow> string \<Rightarrow> rat \<Rightarrow> ('v, json option) hostm" where
  "wait_browser P uds timeout =
     andthen time_now (\<lambda>t. poll P 4 (token_step P uds) (t + timeout))"

fun note_text :: "browser_note \<Rightarrow> string" where
  "note_text (BState t b l) = ''{'' @ py_repr ''token'' @ '': '' @ py_repr t @ '', '' @ py_repr ''beat'' @ '': '' @ py_repr b @
     '', '' @ py_repr ''ls'' @ '': '' @ py_repr l @ ''}''"
| "note_text (BRaw s) = ''{'' @ py_repr ''raw'' @ '': '' @ py_repr s @ ''}''"
| "note_text (BError e) = ''{'' @ py_repr ''error'' @ '': '' @ py_repr e @ ''}''"

text \<open>
  The base VM has no \<open>with\<close> block: it is killed when Chrome never answers and after the snapshot, and
  left running when the agent never answers or a step raises.
\<close>

definition browser_base ::
  "'v platform \<Rightarrow> vm_spec \<Rightarrow> string \<Rightarrow> string \<Rightarrow> string \<Rightarrow> ('v, json) hostm" where
  "browser_base P spec work snap mem =
     (let dir = path_join work ''base''; uds = path_join dir ''vm.vsock'';
          vm = microvm_init spec work ''base'' (Some (path_join work ''base.console'')) (Some (i_baked, dir))
      in andthen (spawn P vm) (\<lambda>b.
         andthen (configure_and_start P b) (\<lambda>_.
         andthen (wait_pong P uds 30) (\<lambda>up.
         if \<not> up then throw (SystemExit ''agent never came up'')
         else andthen (wait_browser P uds 150) (\<lambda>tok.
           case tok of
             None \<Rightarrow> andthen (bstate P uds) (\<lambda>(_, dbg). andthen (kill P b) (\<lambda>_.
                       throw (SystemExit (''Chrome never published a token: '' @ note_text dbg))))
           | Some t \<Rightarrow> andthen (bstate P uds) (\<lambda>_.
                       andthen (pause P b) (\<lambda>_.
                       andthen (vm_snapshot P b snap mem False) (\<lambda>_.
                       andthen (kill P b) (\<lambda>_. ret t)))))))))"

text \<open>The three tests of a child; \<open>isdigit\<close> is that of ASCII text.\<close>

record child_row =
  fr_heap :: bool
  fr_alive :: bool
  fr_ls :: bool

fun beat_of :: "browser_note \<Rightarrow> string option" where
  "beat_of (BState t b l) = Some b"
| "beat_of _ = None"

fun ls_of :: "browser_note \<Rightarrow> json" where
  "ls_of (BState t b l) = JStr l"
| "ls_of _ = JNull"

definition isdigit :: "string \<Rightarrow> bool" where
  "isdigit s \<longleftrightarrow> s \<noteq> [] \<and> list_all is_digit_char s"

definition judge_fork :: "json \<Rightarrow> json \<Rightarrow> browser_note \<Rightarrow> browser_note \<Rightarrow> child_row" where
  "judge_fork base_token tok1 s1 s2 =
     \<lparr>fr_heap = (tok1 = base_token),
      fr_alive = (case (beat_of s1, beat_of s2) of
                    (Some b1, Some b2) \<Rightarrow> isdigit b2 \<and> isdigit b1 \<and> read_nat b1 < read_nat b2
                  | _ \<Rightarrow> False),
      fr_ls = (ls_of s2 = base_token)\<rparr>"

definition child_ok :: "child_row \<Rightarrow> bool" where
  "child_ok r \<longleftrightarrow> fr_heap r \<and> fr_alive r \<and> fr_ls r"

definition check_fork :: "'v platform \<Rightarrow> string \<Rightarrow> json \<Rightarrow> ('v, child_row) hostm" where
  "check_fork P uds base_token =
     andthen (wait_pong P uds 20) (\<lambda>_.
     andthen (bstate P uds) (\<lambda>(tok1, s1).
     andthen (sleep_for P 1) (\<lambda>_.
     andthen (bstate P uds) (\<lambda>(_, s2). ret (judge_fork base_token tok1 s1 s2)))))"

definition spike_j ::
  "'v platform \<Rightarrow> string \<Rightarrow> string \<Rightarrow> nat \<Rightarrow> string \<Rightarrow> nat \<Rightarrow> ('v, json \<times> child_row list \<times> bool) hostm" where
  "spike_j P kern rootfs mem_mib work n =
     (let spec = protocol_spec kern rootfs mem_mib 2 ''/init_browser'' (path_join i_baked ''vm.vsock'');
          snap = path_join work ''base.snapshot''; mem = path_join work ''base.mem''
      in andthen (browser_base P spec work snap mem) (\<lambda>token.
         andthen (fork_vms P (remapped_child spec work) snap mem [0..<n]) (\<lambda>children.
         andthen (in_turn (\<lambda>i. check_fork P (fork_uds work i) token) [0..<n]) (\<lambda>rows.
         andthen (kill_all P children) (\<lambda>_.
         ret (token, rows, list_all child_ok rows))))))"

section \<open>Reading a report back\<close>

text \<open>Text that is one word: not empty and without white space.\<close>

definition word :: "string \<Rightarrow> bool" where
  "word s \<longleftrightarrow> s \<noteq> [] \<and> list_all (\<lambda>c. word_byte (of_char c)) s"

lemma wordD:
  assumes "word s"
  shows "1 \<le> length (encode s)" "\<forall>b \<in> set (encode s). word_byte b" "s \<noteq> []" "\<forall>c \<in> set s. \<not> is_space c"
proof -
  show "1 \<le> length (encode s)" "\<forall>b \<in> set (encode s). word_byte b" "s \<noteq> []"
    using assms by (auto simp: word_def encode_def list_all_iff Suc_le_eq)
  have "\<not> word_byte (of_char c)" if "is_space c" for c using that by (auto simp: is_space_def word_byte_def of_char_def)
  then show "\<forall>c \<in> set s. \<not> is_space c" using assms by (auto simp: word_def list_all_iff)
qed

definition state_text :: "string \<Rightarrow> string \<Rightarrow> string \<Rightarrow> string" where
  "state_text x y z = ''token='' @ x @ '' beat='' @ y @ '' ls='' @ z"

lemma report_line_text: "report_line E beat sess ls = state_text (text_of E sess) (text_of E beat) (text_of E ls) @ [CHR 0x0A]"
  by (simp add: report_line_def state_text_def newline_def)

lemma strip_state_text:
  assumes "word z"
  shows "strip (state_text x y z @ [CHR 0x0A]) = state_text x y z"
proof -
  have "last (state_text x y z) = last z" using wordD(3) [OF assms] by (simp add: state_text_def)
  then have "\<not> is_space (last (state_text x y z))" using wordD(3,4) [OF assms] by simp
  then have "strip (state_text x y z) = state_text x y z" by (intro strip_ends) (simp_all add: state_text_def is_space_def)
  then show ?thesis by (simp add: strip_snoc is_space_def)
qed

lemma parse_state_text:
  assumes "word x" "word y" "word z"
  shows "parse_state (state_text x y z) = BState x y z"
proof -
  have sep: "encode '' beat='' @ t = [] \<or> \<not> word_byte (hd (encode '' beat='' @ t))"
      "encode '' ls='' @ t = [] \<or> \<not> word_byte (hd (encode '' ls='' @ t))" for t
    by (simp_all add: encode_def of_char_def word_byte_def)
  have nil: "re_match [] [] = Some ([], [])" by simp
  have r3: "re_match [Group 1 word_byte] (encode z @ []) = Some ([encode z], [])"
    by (rule re_match_Group [OF wordD(2) [OF assms(3)] wordD(1) [OF assms(3)] _ nil]) simp
  have r2: "re_match [Group 1 word_byte, Lit (encode '' ls=''), Group 1 word_byte]
      (encode y @ encode '' ls='' @ encode z @ []) = Some ([encode y, encode z], [])"
    by (rule re_match_Group [OF wordD(2) [OF assms(2)] wordD(1) [OF assms(2)] sep(2)]) (simp only: re_match_Lit r3)
  have r1: "re_match [Group 1 word_byte, Lit (encode '' beat=''), Group 1 word_byte, Lit (encode '' ls=''), Group 1 word_byte]
      (encode x @ encode '' beat='' @ encode y @ encode '' ls='' @ encode z @ []) = Some ([encode x, encode y, encode z], [])"
    by (rule re_match_Group [OF wordD(2) [OF assms(1)] wordD(1) [OF assms(1)] sep(1)]) (simp only: re_match_Lit r2)
  have e: "encode (state_text x y z) = encode ''token='' @ encode x @ encode '' beat='' @ encode y @ encode '' ls='' @ encode z @ []"
    unfolding state_text_def encode_append append_Nil2 by (rule refl)
  have "re_match state_re (encode (state_text x y z)) = Some ([encode x, encode y, encode z], [])"
    unfolding e state_re_def re_match_Lit by (rule r1)
  from re_search_match [OF this] show ?thesis by (simp add: parse_state_def)
qed

text \<open>What the agent of a guest answers, read by the host.\<close>

definition asked :: "guest_env \<Rightarrow> guest \<Rightarrow> exn + json \<times> browser_note" where
  "asked E g = (case fst (handle E (simple_message ''BROWSER_CHECK'') g) of Inl e \<Rightarrow> Inl e | Inr r \<Rightarrow> parse_check r)"

lemma asked_report:
  assumes "g_texts g ''browser_state'' = Some (state_text x y z @ [CHR 0x0A])" "word x" "word y" "word z"
  shows "asked E g = Inr (opt_text (g_texts g ''browser_token''), BState x y z)"
proof -
  have ne: "state_text x y z \<noteq> []" by (simp add: state_text_def)
  have "fst (handle E (simple_message ''BROWSER_CHECK'') g) = Inr (JObj [(''status'', JStr ''BROWSER''),
      (''token'', opt_text (g_texts g ''browser_token'')), (''state'', JStr (state_text x y z))])"
    using assms(1) strip_state_text [OF assms(4)] by (simp add: handle_def simple_message_def opt_text_def)
  then show ?thesis
    using parse_state_text [OF assms(2-4)] ne by (simp add: asked_def parse_check_def json_truth_def)
qed

text \<open>
  C30. The report of a live page reaches the experiment: when the three evaluations of a round succeed
  with values whose text is one word each, then after the round the agent's answer to
  \<open>BROWSER_CHECK\<close>, as \<open>bstate\<close> parses it, is the content of the token file and exactly the session,
  heartbeat and \<open>localStorage\<close> values of that round, whatever was reported before.
\<close>

theorem browser_state_read_back:
  assumes "page_ev K keys ''window.__beat=(window.__beat||0)+1; window.__beat'' p = (Inr beat, p1)"
    and "page_ev K keys ''window.__session'' p1 = (Inr sess, p2)"
    and "page_ev K keys (''localStorage.getItem('' @ py_repr ''sess'' @ '')'') p2 = (Inr ls, p3)"
    and "word (text_of E sess)" "word (text_of E beat)" "word (text_of E ls)"
    and "report_round K keys E rp (p, g) = (p', g')"
  shows "p' = p3 \<and> asked E g' =
    Inr (opt_text (g_texts g ''browser_token''), BState (text_of E sess) (text_of E beat) (text_of E ls))"
proof -
  have r: "report_round K keys E rp (p, g) = (p3, say ''browser_state'' (report_line E beat sess ls) g)"
    using assms(1-3) by (simp add: report_round_def andthen_def ret_def)
  have "g_texts g' ''browser_state'' = Some (state_text (text_of E sess) (text_of E beat) (text_of E ls) @ [CHR 0x0A])"
      "g_texts g' ''browser_token'' = g_texts g ''browser_token''"
    using r assms(7) by (simp_all add: say_def report_line_text)
  with asked_report [OF this(1) assms(4-6), of E] r assms(7) show ?thesis by simp
qed

text \<open>A page that answers the three evaluations of a round.\<close>

definition demo_page_answer :: "int \<Rightarrow> json \<Rightarrow> json" where
  "demo_page_answer i v = JObj [(''id'', JInt i), (''result'', JObj [(''result'', JObj [(''value'', v)])])]"

definition demo_page_codec :: codec where
  "demo_page_codec = \<lparr>dumps = (\<lambda>_. ''Q''),
     loads = (\<lambda>s. Inr (if s = ''A'' then demo_page_answer 1 (JStr ''7'') else if s = ''B'' then demo_page_answer 2 (JStr ''t'')
       else demo_page_answer 3 (JStr ''u'')))\<rparr>"

definition demo_page_frame :: "byte \<Rightarrow> segments" where
  "demo_page_frame b = [Inr [0x81], Inr [1], Inr [b]]"

definition demo_page :: "nat \<Rightarrow> page" where
  "demo_page n = \<lparr>pg_in = concat (drop n [demo_page_frame 65, demo_page_frame 66, demo_page_frame 67]),
     pg_out = concat (replicate n [0x81, 0x81, 0, 0, 0, 0, 81]), pg_mid = int n\<rparr>"

lemma demo_page_rounds:
  "page_ev demo_page_codec (\<lambda>_. [0, 0, 0, 0]) e (demo_page 0) = (Inr (JStr ''7''), demo_page 1)"
  "page_ev demo_page_codec (\<lambda>_. [0, 0, 0, 0]) e (demo_page 1) = (Inr (JStr ''t''), demo_page 2)"
  "page_ev demo_page_codec (\<lambda>_. [0, 0, 0, 0]) e (demo_page 2) = (Inr (JStr ''u''), demo_page 3)"
  by code_simp+

theorem browser_state_read_back_witness:
  "\<exists>p' g'. report_round demo_page_codec (\<lambda>_. [0, 0, 0, 0]) demo_guest_env (\<lambda>_. []) (demo_page 0, say ''browser_token'' ''t'' demo_guest) = (p', g') \<and>
     asked demo_guest_env g' = Inr (JStr ''t'', BState ''t'' ''7'' ''u'')"
proof -
  have w: "word (text_of demo_guest_env (JStr ''7''))" "word (text_of demo_guest_env (JStr ''t''))" "word (text_of demo_guest_env (JStr ''u''))"
    by (simp_all add: word_def word_byte_def of_char_def)
  obtain p' g' where r: "report_round demo_page_codec (\<lambda>_. [0, 0, 0, 0]) demo_guest_env (\<lambda>_. []) (demo_page 0, say ''browser_token'' ''t'' demo_guest) = (p', g')"
    by fastforce
  have "opt_text (g_texts (say ''browser_token'' ''t'' demo_guest) ''browser_token'') = JStr ''t''"
    by (simp add: say_def opt_text_def strip_def)
  with browser_state_read_back [OF demo_page_rounds w(2,1,3) r] r show ?thesis by simp
qed

section \<open>What the verdict rests on\<close>

lemma word_show_nat: "word (show_nat n)"
proof -
  have "word_byte (of_char c)" if "c \<in> set (show_nat n)" for c
  proof -
    have "(of_char c :: byte) = of_nat (of_char c :: nat)" by (simp add: of_char_def)
    then have "unat (of_char c :: byte) = of_char c"
      using show_nat_range [OF that] by (simp add: unat_of_nat)
    with show_nat_range [OF that] show ?thesis by (auto simp: word_byte_def)
  qed
  then show ?thesis by (simp add: word_def list_all_iff)
qed

lemma isdigit_show_nat: "isdigit (show_nat n)"
  using is_digit_show_nat by (simp add: isdigit_def)

text \<open>A guest in which a round with heartbeat \<open>b\<close> was the last to be reported.\<close>

definition reported :: "guest_env \<Rightarrow> guest \<Rightarrow> string \<Rightarrow> nat \<Rightarrow> json \<Rightarrow> json \<Rightarrow> bool" where
  "reported E g tok b sess ls \<longleftrightarrow>
     g_texts g ''browser_token'' = Some tok \<and> g_texts g ''browser_state'' = Some (report_line E (JInt (int b)) sess ls) \<and>
     text_of E (JInt (int b)) = show_nat b \<and> word (text_of E sess) \<and> word (text_of E ls)"

lemma asked_reported:
  assumes "reported E g tok b sess ls"
  shows "asked E g = Inr (JStr (strip tok), BState (text_of E sess) (show_nat b) (text_of E ls))"
  using assms asked_report [of g "text_of E sess" "show_nat b" "text_of E ls" E] word_show_nat
  by (simp add: reported_def report_line_text opt_text_def)

text \<open>
  C32. The verdict on one child: over two reports of a running page, the child passes exactly when the
  token file is that of the base, the second heartbeat is greater and the second report has the base's
  token in \<open>localStorage\<close>. The values of \<open>window.__session\<close> in the two reports are arbitrary: the
  test printed as \<open>heap_survived\<close> never looks at them.
\<close>

theorem browser_verdict:
  assumes "reported E g1 tok b1 sess1 ls1" "reported E g2 tok2 b2 sess2 ls2"
    and "asked E g1 = Inr (tok1, n1)" "asked E g2 = Inr (x, n2)"
  shows "child_ok (judge_fork (JStr base) tok1 n1 n2) \<longleftrightarrow> strip tok = base \<and> b1 < b2 \<and> text_of E ls2 = base"
  using assms(3,4) asked_reported [OF assms(1)] asked_reported [OF assms(2)] isdigit_show_nat
  by (auto simp: child_ok_def judge_fork_def)

definition demo_reporting :: "string \<Rightarrow> nat \<Rightarrow> guest" where
  "demo_reporting sess b = say ''browser_state'' (report_line (demo_guest_env\<lparr>str_of := \<lambda>j. case j of JInt i \<Rightarrow> show_int i | _ \<Rightarrow> []\<rparr>)
     (JInt (int b)) (JStr sess) (JStr ''t'')) (say ''browser_token'' ''t'' demo_guest)"

theorem browser_verdict_witness:
  "child_ok (judge_fork (JStr ''t'') (JStr ''t'') (BState ''undefined'' (show_nat 1) ''t'') (BState ''undefined'' (show_nat 2) ''t''))"
proof -
  let ?E = "demo_guest_env\<lparr>str_of := \<lambda>j. case j of JInt i \<Rightarrow> show_int i | _ \<Rightarrow> []\<rparr>"
  have r: "reported ?E (demo_reporting ''undefined'' b) ''t'' b (JStr ''undefined'') (JStr ''t'')" for b
    by (simp add: reported_def demo_reporting_def say_def word_def word_byte_def of_char_def show_int_def)
  have t: "strip ''t'' = ''t''" by (simp add: strip_def)
  have a: "asked ?E (demo_reporting ''undefined'' b) = Inr (JStr ''t'', BState ''undefined'' (show_nat b) ''t'')" for b
    using asked_reported [OF r [of b]] t by simp
  from browser_verdict [OF r r a a, of "''t''" 1 2] t show ?thesis by simp
qed

end
