(* ===== verification/Workloads.thy ===== *)
theory Workloads
  imports Fork_Experiments
begin

text \<open>
  The programs that run in a guest while it is frozen: the processes that write to one SQLite database
  (\<open>spikes/guest/fidelity_workload.py\<close>) as a step relation, with what the database then shows to the
  agent and to Spike H, and the generator of dirty pages (\<open>spikes/harness/workload/churn.py\<close>).
\<close>

section \<open>Writers of one database\<close>

text \<open>
  A worker is between two rounds of its loop, inside its transaction, past the commit, or ended by the
  \<open>OperationalError\<close> of an \<open>INSERT\<close> that waited too long for the lock. SQLite admits one writing
  transaction; its row becomes visible with the commit. A row is worker, number and token.
\<close>

datatype phase = Looping | Holding | Counting | Gone

type_synonym db_row = "nat \<times> nat \<times> string"

record fidelity =
  fd_rows :: "db_row list"
  fd_open :: "db_row option"
  fd_phase :: "nat \<Rightarrow> phase"
  fd_seq :: "nat \<Rightarrow> nat"

definition n_workers :: nat where
  "n_workers = 3"

definition fidelity_start :: fidelity where
  "fidelity_start = \<lparr>fd_rows = [], fd_open = None, fd_phase = (\<lambda>_. Looping), fd_seq = (\<lambda>_. 0)\<rparr>"

inductive fidelity_step :: "fidelity \<Rightarrow> fidelity \<Rightarrow> bool" where
  insert: "w < n_workers \<Longrightarrow> fd_phase s w = Looping \<Longrightarrow> fd_open s = None \<Longrightarrow>
    fidelity_step s (s\<lparr>fd_open := Some (w, fd_seq s w, tok), fd_phase := (fd_phase s)(w := Holding)\<rparr>)"
| locked: "w < n_workers \<Longrightarrow> fd_phase s w = Looping \<Longrightarrow> fd_open s = Some r \<Longrightarrow>
    fidelity_step s (s\<lparr>fd_phase := (fd_phase s)(w := Gone)\<rparr>)"
| commit: "fd_phase s w = Holding \<Longrightarrow> fd_open s = Some r \<Longrightarrow>
    fidelity_step s (s\<lparr>fd_rows := fd_rows s @ [r], fd_open := None, fd_phase := (fd_phase s)(w := Counting)\<rparr>)"
| count_up: "fd_phase s w = Counting \<Longrightarrow>
    fidelity_step s (s\<lparr>fd_phase := (fd_phase s)(w := Looping), fd_seq := (fd_seq s)(w := fd_seq s w + 1)\<rparr>)"

text \<open>The numbers in the committed rows of a worker, and the answer to \<open>SELECT worker, COUNT(*) ... GROUP BY worker\<close>.\<close>

definition numbers_of :: "nat \<Rightarrow> fidelity \<Rightarrow> nat list" where
  "numbers_of w s = map (\<lambda>r. fst (snd r)) (filter (\<lambda>r. fst r = w) (fd_rows s))"

definition fidelity_counts :: "fidelity \<Rightarrow> (string \<times> int) list" where
  "fidelity_counts s =
     map (\<lambda>w. (show_nat w, int (length (numbers_of w s)))) (filter (\<lambda>w. numbers_of w s \<noteq> []) [0..<n_workers])"

text \<open>\<open>main\<close> of the workload: the session is drawn once and written to a file before any worker starts.\<close>

definition fidelity_main :: "string \<Rightarrow> guest \<Rightarrow> fidelity \<times> guest" where
  "fidelity_main token g = (fidelity_start, g\<lparr>g_texts := (g_texts g)(''session'' \<mapsto> token)\<rparr>)"

text \<open>The invariant of the step relation.\<close>

definition fidelity_ok :: "fidelity \<Rightarrow> bool" where
  "fidelity_ok s \<longleftrightarrow>
     (\<forall>w. numbers_of w s = [0..<fd_seq s w + (if fd_phase s w = Counting then 1 else 0)]) \<and>
     (\<forall>w. fd_phase s w = Holding \<longrightarrow> (\<exists>tok. fd_open s = Some (w, fd_seq s w, tok))) \<and>
     (\<forall>w q tok. fd_open s = Some (w, q, tok) \<longrightarrow> w < n_workers) \<and>
     (\<forall>r \<in> set (fd_rows s). fst r < n_workers)"

lemma numbers_append: "numbers_of w (s\<lparr>fd_rows := fd_rows s @ [r]\<rparr>) = numbers_of w s @ (if fst r = w then [fst (snd r)] else [])"
  by (simp add: numbers_of_def)

lemma numbers_cong: "fd_rows s = fd_rows t \<Longrightarrow> numbers_of w s = numbers_of w t"
  by (simp add: numbers_of_def)

lemma fidelity_start_ok: "fidelity_ok fidelity_start"
  by (simp add: fidelity_ok_def fidelity_start_def numbers_of_def)

lemma fidelity_step_ok:
  assumes "fidelity_step s t" "fidelity_ok s"
  shows "fidelity_ok t"
  using assms(1)
proof cases
  case (insert w tok)
  have "numbers_of v t = numbers_of v s" for v using insert by (intro numbers_cong) simp
  moreover have "fd_phase s v \<noteq> Holding" for v using assms(2) insert(4) by (auto simp: fidelity_ok_def)
  ultimately show ?thesis using assms(2) insert by (auto simp: fidelity_ok_def)
next
  case (locked w r)
  have "numbers_of v t = numbers_of v s" for v using locked by (intro numbers_cong) simp
  then show ?thesis using assms(2) locked by (auto simp: fidelity_ok_def)
next
  case (commit w r)
  obtain tok where r: "r = (w, fd_seq s w, tok)" using assms(2) commit(2,3) by (auto simp: fidelity_ok_def)
  have "numbers_of v t = numbers_of v s @ (if fst r = v then [fst (snd r)] else [])" for v
    using commit(1) by (simp add: numbers_of_def)
  then have "numbers_of v t = [0..<fd_seq t v + (if fd_phase t v = Counting then 1 else 0)]" for v
    using assms(2) commit(1,2) r by (cases "v = w") (simp_all add: fidelity_ok_def)
  moreover have "fd_phase t v \<noteq> Holding" for v
  proof (cases "v = w")
    case False
    have "fd_phase s v = Holding \<longrightarrow> (\<exists>tok. fd_open s = Some (v, fd_seq s v, tok))" using assms(2) by (simp add: fidelity_ok_def)
    then show ?thesis using commit(1,3) r False by auto
  qed (simp add: commit(1))
  moreover have "w < n_workers" using assms(2) commit(3) r unfolding fidelity_ok_def by blast
  then have "\<forall>x \<in> set (fd_rows t). fst x < n_workers" using assms(2) commit(1) r by (simp add: fidelity_ok_def)
  ultimately show ?thesis using commit(1) by (simp add: fidelity_ok_def)
next
  case (count_up w)
  have "numbers_of v t = numbers_of v s" for v using count_up by (intro numbers_cong) simp
  then show ?thesis using assms(2) count_up by (auto simp: fidelity_ok_def)
qed

lemma fidelity_reach_ok: "fidelity_step\<^sup>*\<^sup>* s t \<Longrightarrow> fidelity_ok s \<Longrightarrow> fidelity_ok t"
  by (induction rule: rtranclp_induct) (auto intro: fidelity_step_ok)

text \<open>
  C33. The database at any instant, which is any instant a snapshot may be taken: the committed rows of
  each worker are numbered from 0 without a gap, repetition or change of order, up to the number the
  worker has in memory (one more between its commit and its counting), and there are rows of the three
  workers only. At most one worker is inside a transaction.
\<close>

theorem fidelity_rows_in_order:
  assumes "fidelity_step\<^sup>*\<^sup>* fidelity_start s"
  shows "numbers_of w s = [0..<fd_seq s w + (if fd_phase s w = Counting then 1 else 0)] \<and>
    fst ` set (fd_rows s) \<subseteq> {0, 1, 2} \<and>
    (fd_phase s w = Holding \<and> fd_phase s v = Holding \<longrightarrow> v = w)"
proof -
  have s: "fidelity_ok s" using fidelity_reach_ok [OF assms fidelity_start_ok] .
  then have "\<forall>r \<in> set (fd_rows s). fst r < 3" by (simp add: fidelity_ok_def n_workers_def)
  moreover have "{..<3} = {0, 1, 2 :: nat}" by auto
  ultimately have "fst ` set (fd_rows s) \<subseteq> {0, 1, 2}" by auto
  moreover have "v = w" if "fd_phase s w = Holding" "fd_phase s v = Holding"
  proof -
    have "\<exists>tok. fd_open s = Some (u, fd_seq s u, tok)" if "fd_phase s u = Holding" for u
      using s that by (simp add: fidelity_ok_def)
    from this [OF that(1)] this [OF that(2)] show ?thesis by auto
  qed
  moreover have "numbers_of w s = [0..<fd_seq s w + (if fd_phase s w = Counting then 1 else 0)]"
    using s unfolding fidelity_ok_def by (elim conjE allE)
  ultimately show ?thesis by blast
qed

definition demo_written :: "nat \<Rightarrow> fidelity" where
  "demo_written n = fidelity_start\<lparr>fd_rows := map (\<lambda>q. (0, q, ''t'')) [0..<n], fd_seq := (\<lambda>_. 0)(0 := n)\<rparr>"

lemma demo_written_steps: "fidelity_step\<^sup>*\<^sup>* (demo_written n) (demo_written (Suc n))"
proof -
  let ?s = "demo_written n"
  let ?a = "?s\<lparr>fd_open := Some (0, fd_seq ?s 0, ''t''), fd_phase := (fd_phase ?s)(0 := Holding)\<rparr>"
  let ?b = "?a\<lparr>fd_rows := fd_rows ?a @ [(0, fd_seq ?s 0, ''t'')], fd_open := None, fd_phase := (fd_phase ?a)(0 := Counting)\<rparr>"
  let ?c = "?b\<lparr>fd_phase := (fd_phase ?b)(0 := Looping), fd_seq := (fd_seq ?b)(0 := fd_seq ?b 0 + 1)\<rparr>"
  have "fidelity_step ?s ?a" by (rule fidelity_step.insert) (simp_all add: demo_written_def fidelity_start_def n_workers_def)
  moreover have "fidelity_step ?a ?b" by (rule fidelity_step.commit) (simp_all add: demo_written_def fidelity_start_def)
  moreover have "fidelity_step ?b ?c" by (rule fidelity_step.count_up) (simp_all add: demo_written_def fidelity_start_def)
  moreover have "?c = demo_written (Suc n)" by (simp add: demo_written_def fidelity_start_def fun_eq_iff)
  ultimately show ?thesis by (metis (no_types, lifting) rtranclp.simps)
qed

lemma demo_written_start: "demo_written 0 = fidelity_start"
  by (simp add: demo_written_def fidelity_start_def fun_eq_iff)

theorem fidelity_rows_in_order_witness:
  "fidelity_step\<^sup>*\<^sup>* fidelity_start (demo_written 1) \<and> numbers_of 0 (demo_written 1) = [0] \<and> numbers_of 1 (demo_written 1) = []"
proof -
  have r: "fidelity_step\<^sup>*\<^sup>* fidelity_start (demo_written 1)" using demo_written_steps [of 0] by (simp add: demo_written_start)
  from r fidelity_rows_in_order [OF r, of 0 0] fidelity_rows_in_order [OF r, of 1 0] show ?thesis
    by (simp add: demo_written_def fidelity_start_def)
qed

section \<open>What Spike H sees of it\<close>

text \<open>
  The queries of the agent are answered from the database; that \<open>PRAGMA integrity_check\<close> finds nothing
  is SQLite's part.
\<close>

definition sees :: "guest_env \<Rightarrow> fidelity \<Rightarrow> bool" where
  "sees E s \<longleftrightarrow> (\<forall>db g. q_connect E db g = Inr () \<and> q_integrity E db g = Inr ''ok'' \<and>
     q_rows E db g = Inr (fidelity_counts s) \<and> q_total E db g = Inr (int (length (fd_rows s))))"

lemma sum_numbers:
  assumes "\<forall>r \<in> set rows. fst r < n"
  shows "(\<Sum>w \<leftarrow> [0..<n]. int (length (filter (\<lambda>r. fst r = w) rows))) = int (length rows)"
  using assms
proof (induction rows)
  case (Cons r rows)
  have "(\<Sum>w \<leftarrow> [0..<n]. int (length (filter (\<lambda>r. fst r = w) (r # rows))))
      = (\<Sum>w \<leftarrow> [0..<n]. (if w = fst r then 1 else 0) + int (length (filter (\<lambda>r. fst r = w) rows)))"
    by (intro arg_cong [where f = sum_list] map_cong) auto
  also have "\<dots> = (\<Sum>w \<leftarrow> [0..<n]. if w = fst r then 1 else 0) + int (length rows)"
    using Cons by (simp add: sum_list_addf)
  also have "(\<Sum>w \<leftarrow> [0..<n]. if w = fst r then 1 else 0 :: int) = 1"
    using Cons.prems by (simp add: interv_sum_list_conv_sum_set_nat)
  finally show ?case by simp
qed simp

lemma sum_nonzero: "sum_list (map f (filter (\<lambda>x. f x \<noteq> (0 :: int)) xs)) = sum_list (map f xs)"
  by (induction xs) auto

lemma counts_total:
  assumes "fidelity_ok s"
  shows "sum_list (map snd (fidelity_counts s)) = int (length (fd_rows s))"
proof -
  let ?f = "\<lambda>w. int (length (numbers_of w s))"
  have "sum_list (map snd (fidelity_counts s)) = sum_list (map ?f (filter (\<lambda>w. ?f w \<noteq> 0) [0..<n_workers]))"
    by (simp add: fidelity_counts_def comp_def)
  also have "\<dots> = sum_list (map ?f [0..<n_workers])" by (rule sum_nonzero)
  also have "\<dots> = (\<Sum>w \<leftarrow> [0..<n_workers]. int (length (filter (\<lambda>r. fst r = w) (fd_rows s))))"
    by (simp add: numbers_of_def)
  also have "\<dots> = int (length (fd_rows s))" using assms by (simp add: sum_numbers fidelity_ok_def)
  finally show ?thesis .
qed

lemma map_of_shown: "map_of (map (\<lambda>w. (show_nat w, f w)) ws) (show_nat w) = (if w \<in> set ws then Some (f w) else None)"
  by (induction ws) auto

lemma count_of_counts: "w < n_workers \<Longrightarrow> count_of (fidelity_counts s) (show_nat w) = int (length (numbers_of w s))"
  by (simp add: count_of_def fidelity_counts_def map_of_shown)

lemma ints_of_ints: "ints_of (map (\<lambda>(w, c). (w, JInt c)) xs) = Inr xs"
  by (induction xs) auto

lemma check_answer:
  assumes "sees E s" "g_texts g ''session'' = Some tok"
  shows "per_worker (handle_check E msg g) = Inr (fidelity_counts s)"
    "json_field (handle_check E msg g) ''session'' = JStr (strip tok)"
    "json_field (handle_check E msg g) ''integrity'' = JStr ''ok''"
proof -
  have h: "handle_check E msg g = JObj [(''status'', JStr ''CHECK''), (''integrity'', JStr ''ok''),
      (''per_worker'', JObj (map (\<lambda>(w, c). (w, JInt c)) (fidelity_counts s))),
      (''total'', JInt (int (length (fd_rows s)))), (''session'', JStr (strip tok))]"
    using assms by (simp add: handle_check_def sees_def Let_def)
  then show "json_field (handle_check E msg g) ''session'' = JStr (strip tok)"
    "json_field (handle_check E msg g) ''integrity'' = JStr ''ok''" by simp_all
  have "falsy (JObj (map (\<lambda>(w, c). (w, JInt c)) (fidelity_counts s))) \<longleftrightarrow> fidelity_counts s = []"
    by (simp add: falsy_def)
  with h show "per_worker (handle_check E msg g) = Inr (fidelity_counts s)"
    by (simp add: per_worker_def ints_of_ints)
qed

text \<open>Progress of the database: nothing committed is taken back.\<close>

lemma step_extends: "fidelity_step s t \<Longrightarrow> \<exists>new. fd_rows t = fd_rows s @ new"
  by (cases rule: fidelity_step.cases) auto

lemma reach_extends: "fidelity_step\<^sup>*\<^sup>* s t \<Longrightarrow> \<exists>new. fd_rows t = fd_rows s @ new"
  by (induction rule: rtranclp_induct) (auto dest!: step_extends)

lemma numbers_extend: "fd_rows t = fd_rows s @ new \<Longrightarrow> length (numbers_of w s) \<le> length (numbers_of w t)"
  by (simp add: numbers_of_def)

lemma counts_grow:
  assumes "fd_rows t = fd_rows s @ new"
  shows "list_all (\<lambda>(w, c). count_of (fidelity_counts s) w \<le> count_of (fidelity_counts t) w) (fidelity_counts s)"
    "length (fidelity_counts s) \<le> length (fidelity_counts t)"
proof -
  note ext = numbers_extend [OF assms]
  have "count_of (fidelity_counts s) (show_nat w) \<le> count_of (fidelity_counts t) (show_nat w)" if "w < n_workers" for w
    using ext [of w] that by (simp add: count_of_counts)
  moreover have "\<exists>w < n_workers. x = show_nat w" if "(x, c) \<in> set (fidelity_counts s)" for x c
    using that by (auto simp: fidelity_counts_def)
  ultimately show "list_all (\<lambda>(w, c). count_of (fidelity_counts s) w \<le> count_of (fidelity_counts t) w) (fidelity_counts s)"
    by (fastforce simp: list_all_iff)
  have "numbers_of w s \<noteq> [] \<Longrightarrow> numbers_of w t \<noteq> []" for w using ext [of w] by auto
  then have "card ({w. numbers_of w s \<noteq> []} \<inter> set [0..<n_workers]) \<le> card ({w. numbers_of w t \<noteq> []} \<inter> set [0..<n_workers])"
    by (intro card_mono) auto
  then show "length (fidelity_counts s) \<le> length (fidelity_counts t)"
    by (simp add: fidelity_counts_def distinct_length_filter)
qed

lemma h_row_seen:
  assumes "fidelity_step\<^sup>*\<^sup>* fidelity_start s0" "fidelity_step\<^sup>*\<^sup>* s0 s"
    and "sees E s" "g_texts g ''session'' = Some tok"
  shows "\<exists>row. h_row_of (fidelity_counts s0) (JStr (strip tok)) (handle_check E msg g) = Inr row \<and>
    (row_pass row \<longleftrightarrow> length (fd_rows s0) < length (fd_rows s))"
proof -
  note a = check_answer [OF assms(3,4), of msg]
  have ok: "fidelity_ok s0" "fidelity_ok s"
    using fidelity_reach_ok [OF assms(1) fidelity_start_ok] fidelity_reach_ok [OF assms(2)] by simp_all
  obtain new where "fd_rows s = fd_rows s0 @ new" using reach_extends [OF assms(2)] by blast
  note g = counts_grow [OF this]
  have "sum_list (map snd (fidelity_counts s0)) < sum_list (map snd (fidelity_counts s)) \<longleftrightarrow> length (fd_rows s0) < length (fd_rows s)"
    by (simp add: counts_total [OF ok(1)] counts_total [OF ok(2)])
  with a g show ?thesis by (simp add: h_row_of_def row_pass_def)
qed

text \<open>A child: how its guest answers, its guest, and its database.\<close>

type_synonym db_child = "guest_env \<times> guest \<times> fidelity"

definition answers :: "json \<Rightarrow> db_child list \<Rightarrow> json list" where
  "answers msg cs = map (\<lambda>(E, g, s). handle_check E msg g) cs"

definition grown_from :: "fidelity \<Rightarrow> string \<Rightarrow> db_child \<Rightarrow> bool" where
  "grown_from s0 tok c = (case c of (E, g, s) \<Rightarrow> fidelity_step\<^sup>*\<^sup>* s0 s \<and> sees E s \<and> g_texts g ''session'' = Some tok)"

lemma h_rows_seen:
  assumes "fidelity_step\<^sup>*\<^sup>* fidelity_start s0" "\<forall>c \<in> set cs. grown_from s0 tok c"
  shows "\<exists>rows. h_rows (fidelity_counts s0) (JStr (strip tok)) (answers msg cs) = Inr rows \<and>
    (list_all row_pass rows \<longleftrightarrow> (\<forall>(E, g, s) \<in> set cs. length (fd_rows s0) < length (fd_rows s)))"
  using assms(2)
proof (induction cs)
  case (Cons c cs)
  obtain E g s where c: "c = (E, g, s)" by (cases c)
  obtain row where row: "h_row_of (fidelity_counts s0) (JStr (strip tok)) (handle_check E msg g) = Inr row"
      "row_pass row \<longleftrightarrow> length (fd_rows s0) < length (fd_rows s)"
    using h_row_seen [OF assms(1), of s E g tok msg] Cons.prems c by (auto simp: grown_from_def)
  obtain rows where rows: "h_rows (fidelity_counts s0) (JStr (strip tok)) (answers msg cs) = Inr rows"
      "list_all row_pass rows \<longleftrightarrow> (\<forall>(E, g, s) \<in> set cs. length (fd_rows s0) < length (fd_rows s))"
    using Cons.IH Cons.prems by (meson list.set_intros(2))
  show ?case using row rows c by (simp add: answers_def)
qed (simp add: answers_def)

text \<open>
  C31. The verdict of Spike H on restored databases: if the base was asked at some instant of a run of
  the workload and each child's database is one the run can go on to from there, then whatever was in
  flight, the evaluation raises nothing and the verdict is success exactly when in every child at least
  one more row was committed. (So one worker that goes on suffices for ``all workers resumed''.)
\<close>

theorem fidelity_verdict:
  assumes "fidelity_step\<^sup>*\<^sup>* fidelity_start s0" "sees E0 s0" "g_texts g0 ''session'' = Some tok"
    and "\<forall>c \<in> set cs. grown_from s0 tok c"
  shows "\<exists>rows. h_evaluate (handle_check E0 msg g0) (answers msg cs) =
    Inr (rows, \<forall>(E, g, s) \<in> set cs. length (fd_rows s0) < length (fd_rows s))"
  using check_answer [OF assms(2,3), of msg] h_rows_seen [OF assms(1,4), of msg]
  by (auto simp: h_evaluate_def)

definition demo_seeing :: "fidelity \<Rightarrow> guest_env" where
  "demo_seeing s = demo_guest_env\<lparr>q_rows := \<lambda>_ _. Inr (fidelity_counts s), q_total := \<lambda>_ _. Inr (int (length (fd_rows s)))\<rparr>"

definition demo_db_guest :: guest where
  "demo_db_guest = snd (fidelity_main ''t'' demo_guest)"

theorem fidelity_verdict_witness:
  "\<exists>rows. h_evaluate (handle_check (demo_seeing (demo_written 1)) JNull demo_db_guest)
      (answers JNull [(demo_seeing (demo_written 2), demo_db_guest, demo_written 2),
        (demo_seeing (demo_written 1), demo_db_guest, demo_written 1)]) = Inr (rows, False)"
proof -
  let ?cs = "[(demo_seeing (demo_written 2), demo_db_guest, demo_written 2), (demo_seeing (demo_written 1), demo_db_guest, demo_written 1)]"
  have sees: "sees (demo_seeing s) s" for s by (simp add: sees_def demo_seeing_def demo_guest_env_def)
  have r: "fidelity_step\<^sup>*\<^sup>* fidelity_start (demo_written 1)" using demo_written_steps [of 0] by (simp add: demo_written_start)
  have t: "g_texts demo_db_guest ''session'' = Some ''t''" by (simp add: demo_db_guest_def fidelity_main_def)
  have cs: "\<forall>c \<in> set ?cs. grown_from (demo_written 1) ''t'' c"
    using sees t demo_written_steps [of 1] by (simp add: grown_from_def numeral_2_eq_2)
  have "(\<forall>(E, g, s) \<in> set ?cs. length (fd_rows (demo_written 1)) < length (fd_rows s)) = False" by simp
  with fidelity_verdict [OF r sees t cs, of JNull] show ?thesis by simp
qed

section \<open>The generator of dirty pages\<close>

record churn =
  ch_pool :: bytes
  ch_cursor :: nat
  ch_tick :: nat

definition page_size :: nat where
  "page_size = 4096"

definition pool_pages :: "churn \<Rightarrow> nat" where
  "pool_pages s = length (ch_pool s) div page_size"

definition churn_start :: "int \<Rightarrow> exn + churn" where
  "churn_start pool_mib =
     (if pool_mib < 0 then Inl (ValueError ''negative count'')
      else Inr \<lparr>ch_pool = replicate (nat pool_mib * 1024 * 1024) 0, ch_cursor = 0, ch_tick = 0\<rparr>)"

text \<open>\<open>range(dirty_pages)\<close> is empty for a negative number.\<close>

definition dirty_pages :: "int \<Rightarrow> nat" where
  "dirty_pages mib = nat (mib * 1024 * 1024 div int page_size)"

text \<open>One byte of the page under the cursor is written; \<open>tick & 0xFF\<close> is \<open>tick\<close> as a byte.\<close>

definition touch :: "churn \<Rightarrow> (exn + unit) \<times> churn" where
  "touch s =
     (if length (ch_pool s) \<le> ch_cursor s * page_size then (Inl (IndexError ''bytearray index out of range''), s)
      else (let s' = s\<lparr>ch_pool := (ch_pool s)[ch_cursor s * page_size := of_nat (ch_tick s)]\<rparr>
            in if pool_pages s = 0 then (Inl (ZeroDivisionError ''integer modulo by zero''), s')
               else (Inr (), s'\<lparr>ch_cursor := (ch_cursor s + 1) mod pool_pages s\<rparr>)))"

fun touches :: "nat \<Rightarrow> churn \<Rightarrow> (exn + unit) \<times> churn" where
  "touches 0 = ret ()"
| "touches (Suc n) = andthen touch (\<lambda>_. touches n)"

text \<open>One turn of the endless loop; writing the pages takes the time \<open>took\<close>.\<close>

definition churn_round :: "'v platform \<Rightarrow> nat \<Rightarrow> rat \<Rightarrow> rat \<Rightarrow> churn \<times> 'v host \<Rightarrow> (exn + unit) \<times> churn \<times> 'v host" where
  "churn_round P dirty interval took x =
     (case x of (s, h) \<Rightarrow>
       (case touches dirty s of
          (Inl e, s') \<Rightarrow> (Inl e, s', h)
        | (Inr _, s') \<Rightarrow>
            (let h1 = py_sleep P took h; elapsed = h_clock h1 - h_clock h
             in (Inr (), s'\<lparr>ch_tick := ch_tick s' + 1\<rparr>,
                 if elapsed < interval then py_sleep P (interval - elapsed) h1 else h1))))"

fun churn_rounds :: "'v platform \<Rightarrow> nat \<Rightarrow> rat \<Rightarrow> (nat \<Rightarrow> rat) \<Rightarrow> nat \<Rightarrow> churn \<times> 'v host \<Rightarrow> (exn + unit) \<times> churn \<times> 'v host" where
  "churn_rounds P dirty interval took 0 = ret ()"
| "churn_rounds P dirty interval took (Suc n) =
     andthen (churn_rounds P dirty interval took n) (\<lambda>_. churn_round P dirty interval (took n))"

text \<open>The pages written by \<open>n\<close> touches from page \<open>c\<close> of \<open>k\<close>.\<close>

definition window :: "nat \<Rightarrow> nat \<Rightarrow> nat \<Rightarrow> nat set" where
  "window k c n = (\<lambda>j. (c + j) mod k) ` {..<n}"

lemma mod_shift_eq:
  assumes "(c + i) mod k = (c + j) mod (k :: nat)" "i \<le> j" "j < k"
  shows "i = j"
proof -
  have "k dvd (c + j) - (c + i)" using assms(1,2) mod_eq_dvd_iff_nat [of "c + i" "c + j" k] by simp
  then have "k dvd j - i" by simp
  then have "j - i = 0" using assms(3) by (metis dvd_imp_le less_imp_diff_less linorder_not_less not_gr_zero)
  with assms(2) show ?thesis by simp
qed

lemma window_inj: "n \<le> k \<Longrightarrow> inj_on (\<lambda>j. (c + j) mod (k :: nat)) {..<n}"
proof (rule inj_onI)
  fix i j assume n: "n \<le> k" "i \<in> {..<n}" "j \<in> {..<n}" and e: "(c + i) mod k = (c + j) mod k"
  show "i = j"
  proof (cases "i \<le> j")
    case True
    with n show ?thesis by (intro mod_shift_eq [OF e]) simp_all
  next
    case False
    with n have "j = i" by (intro mod_shift_eq [OF e [symmetric]]) simp_all
    then show ?thesis by simp
  qed
qed

lemma card_window:
  assumes "0 < k"
  shows "card (window k c n) = min n k"
proof (cases "n \<le> k")
  case True
  then show ?thesis using card_image [OF window_inj [OF True, of c]] by (simp add: window_def)
next
  case False
  have "card (window k c k) = k" using card_image [OF window_inj [of k k c]] by (simp add: window_def)
  moreover have "window k c k \<subseteq> window k c n" using False by (auto simp: window_def)
  moreover have "window k c n \<subseteq> {..<k}" using assms by (auto simp: window_def)
  ultimately have "card (window k c n) = k"
    by (metis card_lessThan card_mono dual_order.antisym finite_lessThan finite_subset)
  with False show ?thesis by simp
qed

lemma window_Suc: "window k c (Suc n) = insert (c mod k) (window k (Suc c) n)"
  by (auto simp: window_def lessThan_Suc_eq_insert_0 image_image)

lemma window_mod: "window k (c mod k) n = window k c n"
  by (simp add: window_def mod_add_left_eq)

lemma touch_in_pool:
  assumes "length (ch_pool s) = k * page_size" "ch_cursor s < k"
  shows "touch s = (Inr (), s\<lparr>ch_pool := (ch_pool s)[ch_cursor s * page_size := of_nat (ch_tick s)],
    ch_cursor := (ch_cursor s + 1) mod k\<rparr>)"
proof -
  have k: "pool_pages s = k" using assms(1) by (simp add: pool_pages_def page_size_def)
  have "ch_cursor s * page_size < k * page_size" using assms(2) by (simp add: page_size_def)
  then show ?thesis using assms k by (simp add: touch_def Let_def)
qed

lemma touches_in_pool:
  assumes "length (ch_pool s) = k * page_size" "ch_cursor s < k"
  shows "\<exists>s'. touches n s = (Inr (), s') \<and> length (ch_pool s') = k * page_size \<and> ch_tick s' = ch_tick s \<and>
    ch_cursor s' = (ch_cursor s + n) mod k \<and>
    (\<forall>i < k * page_size. ch_pool s' ! i =
       (if page_size dvd i \<and> i div page_size \<in> window k (ch_cursor s) n then of_nat (ch_tick s) else ch_pool s ! i))"
  using assms
proof (induction n arbitrary: s)
  case 0
  then show ?case by (simp add: ret_def window_def)
next
  case (Suc n)
  let ?c = "ch_cursor s"
  let ?s = "s\<lparr>ch_pool := (ch_pool s)[?c * page_size := of_nat (ch_tick s)], ch_cursor := (?c + 1) mod k\<rparr>"
  have run: "touches (Suc n) s = touches n ?s" using touch_in_pool [OF Suc.prems] by (simp add: andthen_def)
  have p: "0 < page_size" by (simp add: page_size_def)
  have "length (ch_pool ?s) = k * page_size" "ch_cursor ?s < k" using Suc.prems by simp_all
  from Suc.IH [OF this] obtain s' where s': "touches n ?s = (Inr (), s')" "length (ch_pool s') = k * page_size"
      "ch_tick s' = ch_tick s" "ch_cursor s' = ((?c + 1) mod k + n) mod k"
      "\<forall>i < k * page_size. ch_pool s' ! i =
        (if page_size dvd i \<and> i div page_size \<in> window k ((?c + 1) mod k) n then of_nat (ch_tick s) else ch_pool ?s ! i)"
    by auto
  have "ch_pool s' ! i = (if page_size dvd i \<and> i div page_size \<in> window k ?c (Suc n) then of_nat (ch_tick s) else ch_pool s ! i)"
    if "i < k * page_size" for i
  proof (cases "i = ?c * page_size")
    case True
    then have "i div page_size = ?c mod k" using p Suc.prems(2) by simp
    with True that s'(5) Suc.prems(1) show ?thesis by (simp add: window_Suc)
  next
    case False
    then have "page_size dvd i \<Longrightarrow> i div page_size \<noteq> ?c" using p by auto
    with False that s'(5) Suc.prems show ?thesis by (auto simp: window_Suc window_mod)
  qed
  moreover have "((?c + 1) mod k + n) mod k = (?c + Suc n) mod k" by (simp add: mod_add_left_eq)
  ultimately show ?case using run s' by simp
qed

lemma churn_round_paced:
  assumes "touches d s = (Inr (), s1)"
  shows "\<exists>h'. churn_round P d interval t (s, h) = (Inr (), s1\<lparr>ch_tick := ch_tick s1 + 1\<rparr>, h') \<and> h_clock h + interval \<le> h_clock h'"
proof -
  let ?h1 = "py_sleep P t h"
  have "h_clock ?h1 + (interval - (h_clock ?h1 - h_clock h)) \<le> h_clock (py_sleep P (interval - (h_clock ?h1 - h_clock h)) ?h1)"
    by (rule py_sleep_clock)
  then show ?thesis using assms by (simp add: churn_round_def Let_def)
qed

lemma churn_rounds_run:
  assumes "length (ch_pool s0) = k * page_size" "0 < k" "ch_cursor s0 = 0" "ch_tick s0 = 0"
  shows "\<exists>s h'. churn_rounds P d interval took n (s0, h) = (Inr (), s, h') \<and> length (ch_pool s) = k * page_size \<and>
    ch_tick s = n \<and> ch_cursor s = n * d mod k"
proof (induction n)
  case 0
  then show ?case using assms by (simp add: ret_def)
next
  case (Suc n)
  then obtain s h1 where s: "churn_rounds P d interval took n (s0, h) = (Inr (), s, h1)" "length (ch_pool s) = k * page_size"
      "ch_tick s = n" "ch_cursor s = n * d mod k" by blast
  have "ch_cursor s < k" using s(4) assms(2) by simp
  from touches_in_pool [OF s(2) this, of d] obtain s1 where t: "touches d s = (Inr (), s1)" "length (ch_pool s1) = k * page_size"
      "ch_tick s1 = n" "ch_cursor s1 = (n * d mod k + d) mod k" using s(3,4) by auto
  obtain h2 where "churn_round P d interval (took n) (s, h1) = (Inr (), s1\<lparr>ch_tick := ch_tick s1 + 1\<rparr>, h2)"
    using churn_round_paced [OF t(1), of P interval "took n" h1] by blast
  moreover have "(n * d mod k + d) mod k = Suc n * d mod k" by (simp add: mod_simps add.commute)
  ultimately show ?case using s(1) t by (simp add: andthen_def)
qed

lemma churn_start_pages:
  assumes "churn_start pool_mib = Inr s0"
  shows "length (ch_pool s0) = nat pool_mib * 256 * page_size" "ch_cursor s0 = 0" "ch_tick s0 = 0"
  using assms by (auto simp: churn_start_def page_size_def split: if_splits)

text \<open>
  C34. Every pass of the generator: with a pool of at least one MiB no pass raises; pass \<open>n\<close> writes
  \<open>n mod 256\<close> to the first byte of the pages of a window that starts where the pass before stopped and
  wraps around at the end of the pool, and to nothing else; the window holds the requested number of
  pages, but never more than the pool has; and the passes are at least the interval apart.
\<close>

theorem churn_pass:
  assumes "churn_start pool_mib = Inr s0" "0 < pool_mib"
  shows "\<exists>s h1 s' h2. churn_rounds P (dirty_pages mib) interval took n (s0, h) = (Inr (), s, h1) \<and>
    churn_round P (dirty_pages mib) interval t (s, h1) = (Inr (), s', h2) \<and>
    (\<forall>i < nat pool_mib * 256 * page_size. ch_pool s' ! i =
      (if page_size dvd i \<and> i div page_size \<in> window (nat pool_mib * 256) (n * dirty_pages mib mod (nat pool_mib * 256)) (dirty_pages mib)
       then of_nat n else ch_pool s ! i)) \<and>
    card (window (nat pool_mib * 256) (n * dirty_pages mib mod (nat pool_mib * 256)) (dirty_pages mib)) = min (dirty_pages mib) (nat pool_mib * 256) \<and>
    h_clock h1 + interval \<le> h_clock h2"
proof -
  let ?k = "nat pool_mib * 256" and ?d = "dirty_pages mib"
  have k: "0 < ?k" using assms(2) by simp
  obtain s h1 where s: "churn_rounds P ?d interval took n (s0, h) = (Inr (), s, h1)" "length (ch_pool s) = ?k * page_size"
      "ch_tick s = n" "ch_cursor s = n * ?d mod ?k"
    using churn_rounds_run [OF churn_start_pages(1) [OF assms(1)] k churn_start_pages(2,3) [OF assms(1)]] by blast
  have "ch_cursor s < ?k" using s(4) k by simp
  from touches_in_pool [OF s(2) this, of ?d] obtain s1 where t: "touches ?d s = (Inr (), s1)"
      "\<forall>i < ?k * page_size. ch_pool s1 ! i = (if page_size dvd i \<and> i div page_size \<in> window ?k (ch_cursor s) ?d then of_nat (ch_tick s) else ch_pool s ! i)"
    by blast
  obtain h2 where r: "churn_round P ?d interval t (s, h1) = (Inr (), s1\<lparr>ch_tick := ch_tick s1 + 1\<rparr>, h2)" "h_clock h1 + interval \<le> h_clock h2"
    using churn_round_paced [OF t(1), of P interval t h1] by blast
  have "\<forall>i < ?k * page_size. ch_pool (s1\<lparr>ch_tick := ch_tick s1 + 1\<rparr>) ! i =
      (if page_size dvd i \<and> i div page_size \<in> window ?k (n * ?d mod ?k) ?d then of_nat n else ch_pool s ! i)"
    using t(2) s(3,4) by simp
  with s(1) r card_window [OF k] show ?thesis by blast
qed

theorem churn_pass_witness:
  "\<exists>s0. churn_start 1 = Inr s0 \<and> card (window 256 (3 * dirty_pages 2 mod 256) (dirty_pages 2)) = 256 \<and>
    (\<exists>s h1. churn_rounds demo_fc (dirty_pages 2) 1 (\<lambda>_. 0) 3 (s0, demo_fc_host) = (Inr (), s, h1))"
proof -
  obtain s0 where s0: "churn_start 1 = Inr s0" by (simp add: churn_start_def)
  have d: "dirty_pages 2 = 512" by (simp add: dirty_pages_def page_size_def)
  from churn_pass [OF s0, of demo_fc 2 1 "\<lambda>_. 0" 3 demo_fc_host 0] s0 d show ?thesis by fastforce
qed

end
