(* ===== verification/Sdk.thy ===== *)
theory Sdk
  imports Http_Api
begin

text \<open>
  The Python SDK (\<open>spikes/sdk/klados/__init__.py\<close>): \<open>_call\<close> and the classes \<open>Sandbox\<close>, \<open>Snapshot\<close> and
  \<open>Timeline\<close>, over a transport that delivers a request and returns a status and a text. A locale
  states what the SDK relies on of the service behind the transport; the daemon of theory \<open>Http_Api\<close>
  is its interpretation.
\<close>

section \<open>Calls\<close>

text \<open>What \<open>urlopen\<close> does: an answer (of any status), a \<open>URLError\<close>, or another exception.\<close>

datatype http_outcome = Answered nat string | Unreachable string | Broken exn

record 's client =
  cl_api :: string                  \<comment> \<open>\<open>KLADOS_API\<close>\<close>
  cl_key :: string                  \<comment> \<open>\<open>KLADOS_API_KEY\<close>; no header is sent when it is empty\<close>
  cl_codec :: codec
  cl_str :: "json \<Rightarrow> string"        \<comment> \<open>\<open>str\<close> of a decoded value that is no string\<close>
  cl_send :: "string \<Rightarrow> string \<Rightarrow> string \<Rightarrow> string option \<Rightarrow> 's \<Rightarrow> http_outcome \<times> 's"
    \<comment> \<open>method, path, key, body\<close>

definition sdk_call :: "'s client \<Rightarrow> string \<Rightarrow> string \<Rightarrow> json option \<Rightarrow> 's \<Rightarrow> (exn + json) \<times> 's" where
  "sdk_call C meth path body s =
     (case cl_send C meth path (cl_key C) (map_option (dumps (cl_codec C)) body) s of
        (Answered status text, s') \<Rightarrow>
          (if 200 \<le> status \<and> status < 300 then loads (cl_codec C) text
           else Inl (KladosError (meth @ '' '' @ path @ '': '' @ text)), s')
      | (Unreachable why, s') \<Rightarrow>
          (Inl (KladosError (''cannot reach kladosd at '' @ cl_api C @ '' ('' @ why @ ''). Is the daemon running?'')), s')
      | (Broken e, s') \<Rightarrow> (Inl e, s'))"

text \<open>\<open>r[key]\<close>, iteration over a decoded value, and its text in an f-string.\<close>

definition at_key :: "json \<Rightarrow> string \<Rightarrow> exn + json" where
  "at_key r k =
     (case r of
        JObj kvs \<Rightarrow> (case map_of kvs k of None \<Rightarrow> Inl (KeyError k) | Some v \<Rightarrow> Inr v)
      | _ \<Rightarrow> Inl (TypeError ''object is not subscriptable with a string''))"

definition elements :: "json \<Rightarrow> exn + json list" where
  "elements r =
     (case r of
        JList js \<Rightarrow> Inr js
      | JObj kvs \<Rightarrow> Inr (map (\<lambda>kv. JStr (fst kv)) kvs)
      | JStr s \<Rightarrow> Inr (map (\<lambda>c. JStr [c]) s)
      | _ \<Rightarrow> Inl (TypeError ''object is not iterable''))"

definition ftext :: "'s client \<Rightarrow> json \<Rightarrow> string" where
  "ftext C j = (case j of JStr s \<Rightarrow> s | _ \<Rightarrow> cl_str C j)"

section \<open>Sandbox, Snapshot, Timeline\<close>

record sandbox =
  sb_instance :: json
  sb_run :: json
  sb_branch :: json

record snapshot_ref =
  sr_id :: json
  sr_run :: json

definition sandbox_create :: "'s client \<Rightarrow> string \<Rightarrow> 's \<Rightarrow> (exn + sandbox) \<times> 's" where
  "sandbox_create C img =
     andthen (sdk_call C ''POST'' ''/v1/runs'' (Some (JObj [(''image'', JStr img)]))) (\<lambda>r.
     andthen (lift_sum (at_key r ''instance_id'')) (\<lambda>iid.
     andthen (lift_sum (at_key r ''run_id'')) (\<lambda>rid.
     ret \<lparr>sb_instance = iid, sb_run = rid, sb_branch = JStr ''genesis''\<rparr>)))"

definition instance_path :: "'s client \<Rightarrow> sandbox \<Rightarrow> string \<Rightarrow> string" where
  "instance_path C sb act = ''/v1/instances/'' @ ftext C (sb_instance sb) @ ''/'' @ act"

definition sandbox_snapshot :: "'s client \<Rightarrow> sandbox \<Rightarrow> string \<Rightarrow> 's \<Rightarrow> (exn + snapshot_ref) \<times> 's" where
  "sandbox_snapshot C sb label =
     andthen (sdk_call C ''POST'' (instance_path C sb ''snapshot'') (Some (JObj [(''label'', JStr label)]))) (\<lambda>r.
     andthen (lift_sum (at_key r ''snapshot_id'')) (\<lambda>sid. ret \<lparr>sr_id = sid, sr_run = sb_run sb\<rparr>))"

definition sandbox_timeline :: "'s client \<Rightarrow> sandbox \<Rightarrow> 's \<Rightarrow> (exn + json) \<times> 's" where
  "sandbox_timeline C sb = sdk_call C ''GET'' (''/v1/runs/'' @ ftext C (sb_run sb) @ ''/timeline'') None"

definition timeline_snapshots :: "json \<Rightarrow> exn + json" where
  "timeline_snapshots d = at_key d ''snapshots''"

definition timeline_instances :: "json \<Rightarrow> exn + json" where
  "timeline_instances d = at_key d ''instances''"

definition sandbox_destroy :: "'s client \<Rightarrow> sandbox \<Rightarrow> 's \<Rightarrow> (exn + unit) \<times> 's" where
  "sandbox_destroy C sb =
     andthen (sdk_call C ''POST'' (instance_path C sb ''destroy'') (Some (JObj []))) (\<lambda>_. ret ())"

text \<open>\<open>__exit__\<close>: only \<open>KladosError\<close> is swallowed.\<close>

definition sandbox_exit :: "'s client \<Rightarrow> sandbox \<Rightarrow> 's \<Rightarrow> (exn + unit) \<times> 's" where
  "sandbox_exit C sb =
     attempt (sandbox_destroy C sb) (\<lambda>e. case e of KladosError _ \<Rightarrow> ret () | _ \<Rightarrow> throw e)"

text \<open>\<open>with Sandbox.create(...) as sb: body\<close>: \<open>__exit__\<close> runs however the body ends, and what the body raised goes on.\<close>

definition with_sandbox :: "'s client \<Rightarrow> string \<Rightarrow> (sandbox \<Rightarrow> 's \<Rightarrow> (exn + 'a) \<times> 's) \<Rightarrow> 's \<Rightarrow> (exn + 'a) \<times> 's" where
  "with_sandbox C img body =
     andthen (sandbox_create C img) (\<lambda>sb.
     andthen (attempt (andthen (body sb) (\<lambda>x. ret (Inr x))) (\<lambda>e. ret (Inl e))) (\<lambda>outcome.
     andthen (sandbox_exit C sb) (\<lambda>_. lift_sum outcome)))"

fun sandboxes_of :: "json \<Rightarrow> json list \<Rightarrow> exn + sandbox list" where
  "sandboxes_of run [] = Inr []"
| "sandboxes_of run (c # cs) =
     (case at_key c ''instance_id'' of
        Inl e \<Rightarrow> Inl e
      | Inr iid \<Rightarrow>
          (case json_get c ''branch'' of
             Inl e \<Rightarrow> Inl e
           | Inr b \<Rightarrow>
               (case sandboxes_of run cs of
                  Inl e \<Rightarrow> Inl e
                | Inr sbs \<Rightarrow> Inr (\<lparr>sb_instance = iid, sb_run = run, sb_branch = (case b of None \<Rightarrow> JNull | Some j \<Rightarrow> j)\<rparr> # sbs))))"

definition snapshot_fork :: "'s client \<Rightarrow> snapshot_ref \<Rightarrow> int \<Rightarrow> 's \<Rightarrow> (exn + sandbox list) \<times> 's" where
  "snapshot_fork C snap n =
     andthen (sdk_call C ''POST'' (''/v1/snapshots/'' @ ftext C (sr_id snap) @ ''/fork'') (Some (JObj [(''n'', JInt n)]))) (\<lambda>r.
     andthen (lift_sum (at_key r ''children'')) (\<lambda>cs.
     andthen (lift_sum (elements cs)) (\<lambda>js. lift_sum (sandboxes_of (sr_run snap) js))))"

definition snapshot_diff :: "'s client \<Rightarrow> snapshot_ref \<Rightarrow> snapshot_ref \<Rightarrow> 's \<Rightarrow> (exn + json) \<times> 's" where
  "snapshot_diff C a b =
     sdk_call C ''GET'' (''/v1/snapshots/'' @ ftext C (sr_id a) @ ''/diff/'' @ ftext C (sr_id b)) None"

section \<open>The service behind the transport\<close>

text \<open>
  The SDK's contract: what the service answers is what a call returns, or a \<open>KladosError\<close> if it is an
  error; and the objects of the successful answers have the fields the SDK reads. \<open>lawful\<close> says of
  which values the JSON codec is known to be faithful.
\<close>

locale api_service =
  fixes C :: "'s client"
    and serve :: "string \<Rightarrow> string \<Rightarrow> json option \<Rightarrow> 's \<Rightarrow> (nat \<times> json) \<times> 's"
    and lawful :: "json \<Rightarrow> bool"
  assumes delivered: "(\<And>b. body = Some b \<Longrightarrow> lawful b) \<Longrightarrow> meth = ''GET'' \<and> body = None \<or> meth = ''POST'' \<and> body \<noteq> None \<Longrightarrow>
      serve meth path body s = ((status, j), s') \<Longrightarrow> lawful j \<Longrightarrow>
      sdk_call C meth path body s =
        (if 200 \<le> status \<and> status < 300 then Inr j
         else Inl (KladosError (meth @ '' '' @ path @ '': '' @ dumps (cl_codec C) j)), s')"
begin

lemma create_served:
  assumes "lawful (JObj [(''image'', JStr img)])" "lawful j"
    and "serve ''POST'' ''/v1/runs'' (Some (JObj [(''image'', JStr img)])) s = ((200, j), s')"
    and "j = JObj [(''run_id'', JStr rid), (''instance_id'', JStr iid)]"
  shows "sandbox_create C img s = (Inr \<lparr>sb_instance = JStr iid, sb_run = JStr rid, sb_branch = JStr ''genesis''\<rparr>, s')"
  using delivered [OF _ _ assms(3,2)] assms(1,4)
  by (simp add: sandbox_create_def andthen_def at_key_def lift_sum_def ret_def)

lemma destroy_served:
  assumes "lawful (JObj [])" "lawful j"
    and "serve ''POST'' (instance_path C sb ''destroy'') (Some (JObj [])) s = ((200, j), s')"
  shows "sandbox_destroy C sb s = (Inr (), s')"
  using delivered [OF _ _ assms(3,2)] assms(1)
  by (simp add: sandbox_destroy_def andthen_def ret_def)

lemma children_sandboxes:
  "sandboxes_of run (map (\<lambda>c. JObj [(''instance_id'', JStr (fst c)), (''branch'', JStr (snd c))]) cs) =
    Inr (map (\<lambda>c. \<lparr>sb_instance = JStr (fst c), sb_run = run, sb_branch = JStr (snd c)\<rparr>) cs)"
  by (induction cs) (simp_all add: at_key_def)

lemma fork_served:
  assumes "lawful (JObj [(''n'', JInt n)])" "lawful j"
    and "serve ''POST'' (''/v1/snapshots/'' @ ftext C (sr_id snap) @ ''/fork'') (Some (JObj [(''n'', JInt n)])) s = ((200, j), s')"
    and "j = JObj [(''children'', JList (map (\<lambda>c. JObj [(''instance_id'', JStr (fst c)), (''branch'', JStr (snd c))]) cs))]"
  shows "snapshot_fork C snap n s =
    (Inr (map (\<lambda>c. \<lparr>sb_instance = JStr (fst c), sb_run = sr_run snap, sb_branch = JStr (snd c)\<rparr>) cs), s')"
  using delivered [OF _ _ assms(3,2)] assms(1,4)
  by (simp add: snapshot_fork_def andthen_def at_key_def elements_def lift_sum_def children_sandboxes)

lemma refused_call:
  assumes "\<And>b. body = Some b \<Longrightarrow> lawful b" "meth = ''GET'' \<and> body = None \<or> meth = ''POST'' \<and> body \<noteq> None" "lawful j"
    and "serve meth path body s = ((status, j), s')" "\<not> (200 \<le> status \<and> status < 300)"
  shows "sdk_call C meth path body s = (Inl (KladosError (meth @ '' '' @ path @ '': '' @ dumps (cl_codec C) j)), s')"
  using delivered [OF assms(1,2,4,3)] assms(5) by simp

end

section \<open>The daemon as the service\<close>

text \<open>
  A request of \<open>urllib\<close> on the daemon: the body is sent with its length; the answer is the encoding of the
  object the handler sends (\<open>_send\<close>). A method without a handler is answered 501.
\<close>

definition daemon_request :: "string \<Rightarrow> string \<Rightarrow> string option \<Rightarrow> api_request" where
  "daemon_request path key body =
     (let d = (case body of None \<Rightarrow> [] | Some t \<Rightarrow> encode t)
      in \<lparr>ar_path = path, ar_key = key, ar_length = (case body of None \<Rightarrow> None | Some t \<Rightarrow> Some (show_nat (length d))), ar_data = d\<rparr>)"

definition daemon_send ::
  "('v, 'srv) engine \<Rightarrow> string \<Rightarrow> string \<Rightarrow> string \<Rightarrow> string option \<Rightarrow> ('v, 'srv) world \<Rightarrow> http_outcome \<times> ('v, 'srv) world" where
  "daemon_send ev meth path key body w =
     (let rq = daemon_request path key body;
          send = (\<lambda>((status, j), w'). (Answered status (dumps (pf_codec (ev_plat ev)) j), w'))
      in if meth = ''GET'' then send (do_GET ev rq w)
         else if meth = ''POST'' then send (do_POST ev rq w)
         else (Answered 501 ''Unsupported method'', w))"

definition daemon_client :: "('v, 'srv) engine \<Rightarrow> string \<Rightarrow> string \<Rightarrow> (json \<Rightarrow> string) \<Rightarrow> ('v, 'srv) world client" where
  "daemon_client ev api key str =
     \<lparr>cl_api = api, cl_key = key, cl_codec = pf_codec (ev_plat ev), cl_str = str, cl_send = daemon_send ev\<rparr>"

text \<open>The API on decoded bodies: what a request with this body is answered.\<close>

definition daemon_serve ::
  "('v, 'srv) engine \<Rightarrow> string \<Rightarrow> string \<Rightarrow> string \<Rightarrow> json option \<Rightarrow> ('v, 'srv) world \<Rightarrow> api_answer \<times> ('v, 'srv) world" where
  "daemon_serve ev key meth path body w =
     (if meth = ''GET'' then do_GET ev (daemon_request path key None) w
      else case authed ev (daemon_request path key None) w of
             None \<Rightarrow> (unauthorized, w)
           | Some pid \<Rightarrow> answer (post_route ev pid (path_parts path) (case body of None \<Rightarrow> JNull | Some b \<Rightarrow> b)) w)"

lemma daemon_request_simps [simp]:
  "ar_path (daemon_request path key body) = path" "ar_key (daemon_request path key body) = key"
  by (simp_all add: daemon_request_def Let_def)

lemma authed_request: "authed ev (daemon_request path key body) = authed ev (daemon_request path key None)"
  by (rule ext) (simp add: authed_def)

lemma daemon_body:
  "codec_ok (pf_codec (ev_plat ev)) b \<Longrightarrow>
    request_body ev (daemon_request path key (Some (dumps (pf_codec (ev_plat ev)) b))) = Inr b"
  by (rule request_body_sent [of _ _ _ "encode (dumps (pf_codec (ev_plat ev)) b)" "[]"])
    (simp_all add: daemon_request_def Let_def)

lemma post_served:
  "codec_ok (pf_codec (ev_plat ev)) b \<Longrightarrow>
    do_POST ev (daemon_request path key (Some (dumps (pf_codec (ev_plat ev)) b))) w = daemon_serve ev key ''POST'' path (Some b) w"
  using authed_request [of ev path key "Some (dumps (pf_codec (ev_plat ev)) b)"]
  by (simp add: do_POST_def daemon_serve_def Let_def daemon_body bind_sum [abs_def] cong: option.case_cong)

lemma daemon_sent:
  fixes ev :: "('v, 'srv) engine"
  defines "K \<equiv> pf_codec (ev_plat ev)"
  assumes body: "\<And>b. body = Some b \<Longrightarrow> codec_ok K b" and meth: "meth = ''GET'' \<and> body = None \<or> meth = ''POST'' \<and> body \<noteq> None"
    and serve: "daemon_serve ev key meth path body s = ((status, j), s')"
  shows "daemon_send ev meth path key (map_option (dumps K) body) s = (Answered status (dumps K j), s')"
  using meth
proof
  assume "meth = ''GET'' \<and> body = None"
  with serve show ?thesis by (simp add: daemon_send_def daemon_serve_def Let_def K_def)
next
  assume "meth = ''POST'' \<and> body \<noteq> None"
  then obtain b where b: "meth = ''POST''" "body = Some b" by auto
  with post_served [OF body [OF b(2), unfolded K_def], of path key s] serve show ?thesis by (simp add: daemon_send_def Let_def K_def)
qed

interpretation daemon: api_service "daemon_client ev api key str" "daemon_serve ev key" "codec_ok (pf_codec (ev_plat ev))"
  for ev :: "('v, 'srv) engine" and api key :: string and str :: "json \<Rightarrow> string"
proof
  fix body :: "json option" and meth path :: string and s s' :: "('v, 'srv) world" and status :: nat and j :: json
  let ?K = "pf_codec (ev_plat ev)" and ?C = "daemon_client ev api key str"
  assume body: "\<And>b. body = Some b \<Longrightarrow> codec_ok ?K b" and meth: "meth = ''GET'' \<and> body = None \<or> meth = ''POST'' \<and> body \<noteq> None"
    and serve: "daemon_serve ev key meth path body s = ((status, j), s')" and j: "codec_ok ?K j"
  from daemon_sent [OF body meth serve] j show "sdk_call ?C meth path body s =
      (if 200 \<le> status \<and> status < 300 then Inr j
       else Inl (KladosError (meth @ '' '' @ path @ '': '' @ dumps (cl_codec ?C) j)), s')"
    by (simp add: sdk_call_def daemon_client_def codec_ok_def)
qed

section \<open>Routes the SDK uses\<close>

lemma split_slash_nonempty [simp]: "split_slash s \<noteq> []"
  by (induction s) (auto split: list.split)

lemma split_slash_join: "split_slash (a @ CHR ''/'' # b) = split_slash a @ split_slash b"
proof (induction a)
  case Nil
  show ?case using split_slash_nonempty [of b] by (auto split: list.split)
next
  case (Cons c a)
  then show ?case using split_slash_nonempty [of a] by (cases "split_slash a") auto
qed

lemma split_slash_plain: "CHR ''/'' \<notin> set a \<Longrightarrow> split_slash a = [a]"
  by (induction a) auto

lemma split_slash_single: "split_slash a = [x] \<Longrightarrow> a = x"
proof (induction a arbitrary: x)
  case (Cons c a)
  then show ?case using split_slash_nonempty [of a] by (cases "split_slash a") (auto split: if_splits)
qed simp

lemma path_three:
  assumes "CHR ''/'' \<notin> set kind" "CHR ''/'' \<notin> set act" "act \<noteq> []"
  shows "path_parts (''/v1/'' @ kind @ ''/'' @ x @ ''/'' @ act) = [''v1'', kind] @ split_slash x @ [act]"
proof -
  let ?s = "''v1'' @ CHR ''/'' # kind @ CHR ''/'' # x @ CHR ''/'' # act"
  let ?slash = "\<lambda>c. c = CHR ''/''"
  have s: "''/v1/'' @ kind @ ''/'' @ x @ ''/'' @ act = CHR ''/'' # ?s" by simp
  have front: "dropWhile ?slash (CHR ''/'' # ?s) = ?s" by simp
  have "hd (rev act) \<noteq> CHR ''/''" using assms(2,3) last_in_set by (metis hd_rev)
  moreover have "hd (rev act @ ys) = hd (rev act)" for ys using assms(3) by simp
  ultimately have "dropWhile ?slash (rev act @ ys) = rev act @ ys" for ys
    by (simp add: dropWhile_eq_self_iff)
  moreover have "rev ?s = rev act @ rev (''v1'' @ CHR ''/'' # kind @ CHR ''/'' # x @ ''/'')" by simp
  ultimately have rear: "dropWhile ?slash (rev ?s) = rev ?s" by (simp only:)
  have "split_slash ?s = split_slash ''v1'' @ split_slash kind @ split_slash x @ split_slash act"
    by (simp only: split_slash_join append_assoc)
  then have "split_slash ?s = [''v1'', kind] @ split_slash x @ [act]" using assms by (simp add: split_slash_plain)
  then show ?thesis by (simp only: path_parts_def strip_slash_def s front rear rev_rev_ident)
qed

lemma path_runs: "path_parts ''/v1/runs'' = [''v1'', ''runs'']"
  by (simp add: path_parts_def strip_slash_def)

lemma answer_ok:
  "answer m w = ((status, j), w') \<Longrightarrow> 200 \<le> status \<Longrightarrow> status < 300 \<Longrightarrow> m w = (Inr (Some j), w') \<and> status = 200"
  by (auto simp: answer_def split: prod.splits sum.splits option.splits exn.splits)

lemma reply_ok: "reply m w = (Inr (Some j), w') \<longleftrightarrow> m w = (Inr j, w')"
  by (auto simp: reply_def andthen_def ret_def split: prod.splits sum.splits)

text \<open>A successful answer on a path with an action is the reply of the operation of that name.\<close>

lemma served_action:
  assumes "daemon_serve ev key ''POST'' (''/v1/'' @ kind @ ''/'' @ x @ ''/'' @ act) (Some b) w = ((status, j), w')"
    and "200 \<le> status" "status < 300" "CHR ''/'' \<notin> set kind" "CHR ''/'' \<notin> set act" "act \<noteq> []"
  obtains pid where "post_route ev pid [''v1'', kind, x, act] b w = (Inr (Some j), w')" "status = 200"
proof -
  let ?p = "[''v1'', kind] @ split_slash x @ [act]"
  obtain pid where pid: "authed ev (daemon_request (''/v1/'' @ kind @ ''/'' @ x @ ''/'' @ act) key None) w = Some pid"
    and a: "answer (post_route ev pid ?p b) w = ((status, j), w')"
    using assms(1-3) path_three [OF assms(4-6), of x]
    by (auto simp: daemon_serve_def unauthorized_def split: option.splits)
  note r = answer_ok [OF a assms(2,3)]
  obtain p0 ps where ps: "split_slash x = p0 # ps" using split_slash_nonempty by (metis neq_Nil_conv)
  have "ps = []"
  proof (rule ccontr)
    assume "ps \<noteq> []"
    then have "length ?p \<noteq> 4" "2 < length ?p" using ps by (simp_all add: Suc_le_eq)
    then have "?p \<noteq> [''v1'', ''projects'']" "?p \<noteq> [''v1'', ''runs'']" by auto
    with \<open>length ?p \<noteq> 4\<close> have "post_route ev pid ?p b w = (Inr None, w)"
      unfolding post_route_def by (simp only: if_False simp_thms ret_def)
    with r show False by simp
  qed
  with ps split_slash_single have "split_slash x = [x]" by metis
  with r show thesis by (intro that [of pid]) simp_all
qed

lemma served_fork:
  assumes "daemon_serve ev key ''POST'' (''/v1/snapshots/'' @ x @ ''/fork'') (Some (JObj [(''n'', JInt n)])) w = ((status, j), w')"
    and "200 \<le> status" "status < 300"
  shows "fork_snapshot ev x n w = (Inr j, w') \<and> status = 200"
proof -
  obtain pid where "post_route ev pid [''v1'', ''snapshots'', x, ''fork''] (JObj [(''n'', JInt n)]) w = (Inr (Some j), w')" "status = 200"
  proof (rule served_action [of ev key "''snapshots''" x "''fork''", OF _ assms(2,3)])
  qed (use assms(1) in simp_all)
  then show ?thesis
    by (auto simp: post_route_def bind_owner bind_sum body_get_def json_int_def reply_ok split: if_splits)
qed

lemma served_snapshot:
  assumes "daemon_serve ev key ''POST'' (''/v1/instances/'' @ x @ ''/snapshot'') (Some (JObj [(''label'', JStr label)])) w = ((status, j), w')"
    and "200 \<le> status" "status < 300"
  shows "snapshot_instance ev x (JStr label) w = (Inr j, w') \<and> status = 200"
proof -
  obtain pid where "post_route ev pid [''v1'', ''instances'', x, ''snapshot''] (JObj [(''label'', JStr label)]) w = (Inr (Some j), w')" "status = 200"
  proof (rule served_action [of ev key "''instances''" x "''snapshot''", OF _ assms(2,3)])
  qed (use assms(1) in simp_all)
  then show ?thesis
    by (auto simp: post_route_def bind_owner bind_sum body_get_def reply_ok split: if_splits)
qed

lemma served_run:
  assumes "daemon_serve ev key ''POST'' ''/v1/runs'' (Some (JObj [(''image'', JStr img)])) w = ((status, j), w')"
    and "200 \<le> status" "status < 300"
  shows "\<exists>pid. authed ev (daemon_request ''/v1/runs'' key None) w = Some pid \<and> create_run ev pid (JStr img) w = (Inr j, w') \<and> status = 200"
proof -
  obtain pid where pid: "authed ev (daemon_request ''/v1/runs'' key None) w = Some pid"
    and a: "answer (post_route ev pid [''v1'', ''runs''] (JObj [(''image'', JStr img)])) w = ((status, j), w')"
    using assms path_runs by (auto simp: daemon_serve_def unauthorized_def split: option.splits)
  from answer_ok [OF a assms(2,3)] pid show ?thesis
    by (auto simp: post_route_def bind_sum body_get_def reply_ok split: if_splits)
qed

lemma served_timeline:
  assumes "daemon_serve ev key ''GET'' (''/v1/runs/'' @ x @ ''/timeline'') None w = ((status, j), w')"
    and "200 \<le> status" "status < 300"
  shows "timeline x w = (Inr j, w') \<and> (\<exists>ss is. j = JObj [(''run_id'', JStr x), (''snapshots'', JList ss), (''instances'', JList is)])"
proof -
  let ?path = "''/v1/runs/'' @ x @ ''/timeline''"
  have p: "path_parts ?path = [''v1'', ''runs''] @ split_slash x @ [''timeline'']"
    using path_three [of "''runs''" "''timeline''" x] by simp
  obtain p0 ps where ps: "split_slash x = p0 # ps" using split_slash_nonempty by (metis neq_Nil_conv)
  obtain pid where a: "answer (get_route ev pid (path_parts ?path)) w = ((status, j), w')"
    using assms p ps by (auto simp: daemon_serve_def do_GET_def Let_def unauthorized_def split: option.splits)
  note r = answer_ok [OF a assms(2,3)]
  have "ps = []"
  proof (rule ccontr)
    assume "ps \<noteq> []"
    then show False using r ps p by (cases ps) (auto simp: get_route_def ret_def)
  qed
  with ps split_slash_single have "split_slash x = [x]" by metis
  with r p have t: "timeline x w = (Inr j, w')"
    by (auto simp: get_route_def bind_owner reply_ok split: if_splits)
  then show ?thesis by (auto simp: timeline_def bind_connect ret_def)
qed

section \<open>From the SDK to the virtual machines\<close>

lemma instance_paths:
  "instance_path C sb ''snapshot'' = ''/v1/instances/'' @ ftext C (sb_instance sb) @ ''/snapshot''"
  "instance_path C sb ''destroy'' = ''/v1/instances/'' @ ftext C (sb_instance sb) @ ''/destroy''"
  by (simp_all add: instance_path_def)

text \<open>How a successful or failed call on the daemon can come about.\<close>

lemma daemon_call:
  assumes "\<forall>j. codec_ok (pf_codec (ev_plat ev)) j" "meth = ''GET'' \<and> body = None \<or> meth = ''POST'' \<and> body \<noteq> None"
    and "sdk_call (daemon_client ev api key str) meth path body w = (r, w')"
  obtains (ok) status j where "r = Inr j" "daemon_serve ev key meth path body w = ((status, j), w')" "200 \<le> status" "status < 300"
    | (refused) t where "r = Inl (KladosError t)"
proof -
  obtain status j w2 where serve: "daemon_serve ev key meth path body w = ((status, j), w2)"
    by (metis prod.exhaust)
  have "sdk_call (daemon_client ev api key str) meth path body w =
        (if 200 \<le> status \<and> status < 300 then Inr j
         else Inl (KladosError (meth @ '' '' @ path @ '': '' @ dumps (cl_codec (daemon_client ev api key str)) j)), w2)"
    by (rule daemon.delivered [OF _ assms(2) serve]) (simp_all add: assms(1))
  with assms(3) serve ok refused show thesis by (auto split: if_splits)
qed

text \<open>
  C11. The SDK never meets an answer it cannot read: whatever the state of the daemon, the objects the
  SDK passes and the outcome, every operation of \<open>Sandbox\<close> and \<open>Snapshot\<close> either returns or raises
  \<open>KladosError\<close>, never a \<open>KeyError\<close> or \<open>TypeError\<close> on the answer; and the timeline it returns has its
  snapshots and instances.
\<close>

theorem sdk_raises_only_klados_errors:
  assumes "\<forall>j. codec_ok (pf_codec (ev_plat ev)) j" and "C = daemon_client ev api key str"
  shows "(sandbox_create C img w = (Inl e, w') \<longrightarrow> (\<exists>t. e = KladosError t)) \<and>
    (sandbox_snapshot C sb label w = (Inl e, w') \<longrightarrow> (\<exists>t. e = KladosError t)) \<and>
    (snapshot_fork C sn n w = (Inl e, w') \<longrightarrow> (\<exists>t. e = KladosError t)) \<and>
    (snapshot_diff C sn sn2 w = (Inl e, w') \<longrightarrow> (\<exists>t. e = KladosError t)) \<and>
    (sandbox_destroy C sb w = (Inl e, w') \<longrightarrow> (\<exists>t. e = KladosError t)) \<and>
    (sandbox_timeline C sb w = (Inl e, w') \<longrightarrow> (\<exists>t. e = KladosError t)) \<and>
    (\<forall>d. sandbox_timeline C sb w = (Inr d, w') \<longrightarrow>
       (\<exists>ss. timeline_snapshots d = Inr (JList ss)) \<and> (\<exists>is. timeline_instances d = Inr (JList is)))"
proof -
  note call = daemon_call [OF assms(1)]
  have create: "\<exists>t. e = KladosError t" if c: "sandbox_create C img w = (Inl e, w')"
  proof -
    obtain r1 w1 where m: "sdk_call C ''POST'' ''/v1/runs'' (Some (JObj [(''image'', JStr img)])) w = (r1, w1)" by fastforce
    show ?thesis
    proof (rule call [OF _ m [unfolded assms(2)]])
      fix status j
      assume ok: "r1 = Inr j" "daemon_serve ev key ''POST'' ''/v1/runs'' (Some (JObj [(''image'', JStr img)])) w = ((status, j), w1)"
        "200 \<le> status" "status < 300"
      obtain pid where "create_run ev pid (JStr img) w = (Inr j, w1)" using served_run [OF ok(2-4)] by blast
      then obtain rid iid where "j = JObj [(''run_id'', JStr rid), (''instance_id'', JStr iid)]"
        using create_run_effect by fastforce
      with c m ok(1) show ?thesis by (simp add: sandbox_create_def andthen_def at_key_def lift_sum_def ret_def)
    qed (use c m in \<open>auto simp: sandbox_create_def andthen_def\<close>)
  qed
  have snapshot: "\<exists>t. e = KladosError t" if c: "sandbox_snapshot C sb label w = (Inl e, w')"
  proof -
    let ?p = "instance_path C sb ''snapshot''"
    obtain r1 w1 where m: "sdk_call C ''POST'' ?p (Some (JObj [(''label'', JStr label)])) w = (r1, w1)" by fastforce
    show ?thesis
    proof (rule call [OF _ m [unfolded assms(2)]])
      fix status j
      assume ok: "r1 = Inr j" "daemon_serve ev key ''POST'' (instance_path (daemon_client ev api key str) sb ''snapshot'') (Some (JObj [(''label'', JStr label)])) w = ((status, j), w1)"
        "200 \<le> status" "status < 300"
      have "snapshot_instance ev (ftext C (sb_instance sb)) (JStr label) w = (Inr j, w1)"
        using served_snapshot [OF ok(2) [unfolded instance_paths] ok(3,4)] by (simp add: assms(2))
      then obtain sid rest where "j = JObj ((''snapshot_id'', JStr sid) # rest)" using snapshot_effect by fastforce
      with c m ok(1) show ?thesis by (simp add: sandbox_snapshot_def andthen_def at_key_def lift_sum_def ret_def)
    qed (use c m in \<open>auto simp: sandbox_snapshot_def andthen_def\<close>)
  qed
  have fork: "\<exists>t. e = KladosError t" if c: "snapshot_fork C sn n w = (Inl e, w')"
  proof -
    let ?p = "''/v1/snapshots/'' @ ftext C (sr_id sn) @ ''/fork''"
    obtain r1 w1 where m: "sdk_call C ''POST'' ?p (Some (JObj [(''n'', JInt n)])) w = (r1, w1)" by fastforce
    show ?thesis
    proof (rule call [OF _ m [unfolded assms(2)]])
      fix status j
      assume ok: "r1 = Inr j" "daemon_serve ev key ''POST'' (''/v1/snapshots/'' @ ftext (daemon_client ev api key str) (sr_id sn) @ ''/fork'')
          (Some (JObj [(''n'', JInt n)])) w = ((status, j), w1)" "200 \<le> status" "status < 300"
      have "fork_snapshot ev (ftext C (sr_id sn)) n w = (Inr j, w1)"
        using served_fork [OF ok(2-4)] by (simp add: assms(2))
      then obtain rows where "j = JObj [(''children'', JList (map child_json rows))]" using fork_effect by fastforce
      moreover have "sandboxes_of run (map child_json rows) \<noteq> Inl e" for run
        using daemon.children_sandboxes [of run "map (\<lambda>r. (in_id r, in_branch r)) rows"]
        by (simp add: child_json_def [abs_def] comp_def)
      ultimately show ?thesis using c m ok(1)
        by (simp add: snapshot_fork_def andthen_def at_key_def elements_def lift_sum_def)
    qed (use c m in \<open>auto simp: snapshot_fork_def andthen_def\<close>)
  qed
  have timeline: "\<exists>ss is. d = JObj [(''run_id'', JStr (ftext C (sb_run sb))), (''snapshots'', JList ss), (''instances'', JList is)]"
    if c: "sandbox_timeline C sb w = (Inr d, w')" for d
  proof -
    have m: "sdk_call C ''GET'' (''/v1/runs/'' @ ftext C (sb_run sb) @ ''/timeline'') None w = (Inr d, w')"
      using c by (simp add: sandbox_timeline_def)
    show ?thesis
    proof (rule call [OF _ m [unfolded assms(2)]])
      fix status j
      assume ok: "Inr d = Inr j" "daemon_serve ev key ''GET'' (''/v1/runs/'' @ ftext (daemon_client ev api key str) (sb_run sb) @ ''/timeline'') None w
          = ((status, j), w')" "200 \<le> status" "status < 300"
      from served_timeline [OF ok(2-4)] ok(1) show ?thesis by (auto simp: assms(2))
    qed simp_all
  qed
  have get: "\<exists>t. e = KladosError t" if "sdk_call C ''GET'' path None w = (Inl e, w')" for path
    by (rule call [OF _ that [unfolded assms(2)]]) auto
  have destroy: "\<exists>t. e = KladosError t" if c: "sandbox_destroy C sb w = (Inl e, w')"
  proof -
    obtain r1 w1 where m: "sdk_call C ''POST'' (instance_path C sb ''destroy'') (Some (JObj [])) w = (r1, w1)" by fastforce
    show ?thesis
      by (rule call [OF _ m [unfolded assms(2)]]) (use c m in \<open>auto simp: sandbox_destroy_def andthen_def ret_def\<close>)
  qed
  show ?thesis
    using create snapshot fork destroy get timeline
    by (auto simp: snapshot_diff_def sandbox_timeline_def timeline_snapshots_def timeline_instances_def at_key_def; fastforce)
qed

lemma demo_engine_codec: "\<forall>j. codec_ok (pf_codec (ev_plat (demo_engine k))) j"
  by (simp add: demo_engine_def demo_plat_def number_codec_ok)

abbreviation demo_sdk :: "nat \<Rightarrow> (nat, unit) world client" where
  "demo_sdk k \<equiv> daemon_client (demo_engine k) ''http://127.0.0.1:7070'' ''k'' (\<lambda>_. [])"

abbreviation demo_stranger :: "nat \<Rightarrow> (nat, unit) world client" where
  "demo_stranger k \<equiv> daemon_client (demo_engine k) ''http://127.0.0.1:7070'' ''x'' (\<lambda>_. [])"

theorem sdk_raises_only_klados_errors_witness:
  "\<exists>t. sandbox_create (demo_stranger 9) ''i'' demo_world = (Inl (KladosError t), demo_world)"
proof -
  have "daemon_serve (demo_engine 9) ''x'' ''POST'' ''/v1/runs'' (Some (JObj [(''image'', JStr ''i'')])) demo_world
      = ((401, snd unauthorized), demo_world)"
    by (simp add: unauthorized_def daemon_serve_def authed_def project_of_key_def demo_world_facts demo_tables_def hash_key_def demo_engine_def)
  from daemon.refused_call [OF _ _ _ this]
  have "sdk_call (demo_stranger 9) ''POST'' ''/v1/runs'' (Some (JObj [(''image'', JStr ''i'')])) demo_world
      = (Inl (KladosError (''POST'' @ '' '' @ ''/v1/runs'' @ '': '' @ dumps (cl_codec (demo_stranger 9)) (snd unauthorized))), demo_world)"
    by (simp add: demo_engine_codec)
  then have "\<exists>e. sandbox_create (demo_stranger 9) ''i'' demo_world = (Inl e, demo_world)"
    by (simp add: sandbox_create_def andthen_def)
  then obtain e where e: "sandbox_create (demo_stranger 9) ''i'' demo_world = (Inl e, demo_world)" by blast
  have "sandbox_create (demo_stranger 9) ''i'' demo_world = (Inl e, demo_world) \<longrightarrow> (\<exists>t. e = KladosError t)"
    by (rule sdk_raises_only_klados_errors [OF demo_engine_codec refl, THEN conjunct1])
  with e show ?thesis by blast
qed

text \<open>
  C10. \<open>snap.fork(n)\<close> end to end: if it returns, it returns \<open>n\<close> sandboxes (none for a negative \<open>n\<close>) of the
  snapshot's run with different instance ids, and behind each of them there is a live VM and a new row
  of the database that says it is running, forked from this snapshot, on the branch the sandbox names.
\<close>

theorem sdk_fork_gives_live_sandboxes:
  assumes "\<forall>j. codec_ok (pf_codec (ev_plat ev)) j" and "db_ok (w_db w)"
    and "snapshot_fork (daemon_client ev api key str) \<lparr>sr_id = JStr sid, sr_run = run\<rparr> n w = (Inr kids, w')"
  shows "length kids = nat n \<and> distinct (map sb_instance kids) \<and>
    (\<forall>kid \<in> set kids. sb_run kid = run \<and>
      (\<exists>row. sb_instance kid = JStr (in_id row) \<and> sb_branch kid = JStr (in_branch row) \<and>
         select_row in_id (in_id row) (t_instances (w_db w)) = None \<and>
         select_row in_id (in_id row) (t_instances (w_db w')) = Some row \<and>
         in_state row = ''RUNNING'' \<and> in_snapshot row = Some sid \<and> in_id row \<in> fst ` set (w_live w')))"
proof -
  let ?C = "daemon_client ev api key str"
  let ?p = "''/v1/snapshots/'' @ ftext ?C (JStr sid) @ ''/fork''"
  obtain r1 w1 where m: "sdk_call ?C ''POST'' ?p (Some (JObj [(''n'', JInt n)])) w = (r1, w1)" by fastforce
  show ?thesis
  proof (rule daemon_call [OF assms(1) _ m])
    fix t
    assume "r1 = Inl (KladosError t)"
    with assms(3) m show ?thesis by (simp add: snapshot_fork_def andthen_def)
  next
    fix status j
    assume ok: "r1 = Inr j" "daemon_serve ev key ''POST'' ?p (Some (JObj [(''n'', JInt n)])) w = ((status, j), w1)" "200 \<le> status" "status < 300"
    have f: "fork_snapshot ev sid n w = (Inr j, w1)" using served_fork [OF ok(2-4)] by (simp add: ftext_def)
    obtain rows where rows: "length rows = nat n" "j = JObj [(''children'', JList (map child_json rows))]" "distinct (map in_id rows)"
        "\<forall>row \<in> set rows. select_row in_id (in_id row) (t_instances (w_db w)) = None \<and>
          select_row in_id (in_id row) (t_instances (w_db w1)) = Some row \<and>
          in_snapshot row = Some sid \<and> in_state row = ''RUNNING'' \<and> in_id row \<in> fst ` set (w_live w1)"
      using fork_effect_rows [OF assms(2) f] by blast
    have "sandboxes_of run (map child_json rows) = Inr (map (\<lambda>r. \<lparr>sb_instance = JStr (in_id r), sb_run = run, sb_branch = JStr (in_branch r)\<rparr>) rows)"
      using daemon.children_sandboxes [of run "map (\<lambda>r. (in_id r, in_branch r)) rows"]
      by (simp add: child_json_def [abs_def] comp_def)
    then have k: "kids = map (\<lambda>r. \<lparr>sb_instance = JStr (in_id r), sb_run = run, sb_branch = JStr (in_branch r)\<rparr>) rows" "w' = w1"
      using assms(3) m ok(1) rows(2) by (simp_all add: snapshot_fork_def andthen_def at_key_def elements_def lift_sum_def)
    have "distinct (map sb_instance kids)"
      using rows(3) by (simp add: k(1) comp_def distinct_map inj_on_def)
    with rows show ?thesis by (auto simp: k)
  qed simp
qed

theorem sdk_fork_gives_live_sandboxes_witness:
  "\<exists>kids w'. snapshot_fork (demo_sdk 9) \<lparr>sr_id = JStr ''s'', sr_run = JStr ''r''\<rparr> 2 demo_world = (Inr kids, w') \<and>
     length kids = 2 \<and> distinct (map sb_instance kids) \<and> (\<forall>kid \<in> set kids. \<exists>iid \<in> fst ` set (w_live w'). sb_instance kid = JStr iid)"
proof -
  obtain vm1 vm2 t1 t2 w' where f: "fork_snapshot (demo_engine 9) ''s'' 2 demo_world =
     (Inr (JObj [(''children'', JList [child_json (demo_row ''id0'' 0 2 t1), child_json (demo_row ''id1'' 1 2 t2)])]), w')"
    using demo_fork_two by blast
  let ?j = "JObj [(''children'', JList [child_json (demo_row ''id0'' 0 2 t1), child_json (demo_row ''id1'' 1 2 t2)])]"
  have au: "authed (demo_engine 9) (daemon_request path ''k'' None) demo_world = Some ''p''" for path
    by (simp add: authed_def project_of_key_def demo_world_facts demo_tables_def hash_key_def demo_engine_def)
  have own: "project_of Snapshots ''s'' demo_tables = Some ''p''"
    by (simp add: project_of_def demo_tables_def select_row_def)
  have route: "post_route (demo_engine 9) ''p'' [''v1'', ''snapshots'', ''s'', ''fork''] (JObj [(''n'', JInt 2)]) demo_world = (Inr (Some ?j), w')"
    using own f by (simp only: reply_ok [symmetric]) (simp add: post_route_def bind_owner bind_sum body_get_def json_int_def demo_world_facts(6))
  have "path_parts (''/v1/'' @ ''snapshots'' @ ''/'' @ ''s'' @ ''/'' @ ''fork'') = [''v1'', ''snapshots''] @ split_slash ''s'' @ [''fork'']"
    by (rule path_three) simp_all
  then have "daemon_serve (demo_engine 9) ''k'' ''POST'' (''/v1/snapshots/'' @ ''s'' @ ''/fork'') (Some (JObj [(''n'', JInt 2)])) demo_world
      = ((200, ?j), w')"
    using route by (simp add: daemon_serve_def au answer_def)
  then have serve: "daemon_serve (demo_engine 9) ''k'' ''POST'' (''/v1/snapshots/'' @ ftext (demo_sdk 9) (sr_id \<lparr>sr_id = JStr ''s'', sr_run = JStr ''r''\<rparr>) @ ''/fork'')
      (Some (JObj [(''n'', JInt 2)])) demo_world = ((200, ?j), w')"
    by (simp add: ftext_def)
  have j: "?j = JObj [(''children'', JList (map (\<lambda>c. JObj [(''instance_id'', JStr (fst c)), (''branch'', JStr (snd c))])
      [(''id0'', branch_name 0 2), (''id1'', branch_name 1 2)]))]"
    by (simp add: child_json_def)
  from daemon.fork_served [OF _ _ serve j] obtain kids
    where k: "snapshot_fork (demo_sdk 9) \<lparr>sr_id = JStr ''s'', sr_run = JStr ''r''\<rparr> 2 demo_world = (Inr kids, w')"
    by (simp add: demo_engine_codec)
  have ok: "db_ok (w_db demo_world)" by (simp add: demo_world_facts demo_tables_ok)
  note t = sdk_fork_gives_live_sandboxes [OF demo_engine_codec ok k]
  have "length kids = 2" "distinct (map sb_instance kids)" using t by simp_all
  moreover have "\<forall>kid \<in> set kids. \<exists>iid \<in> fst ` set (w_live w'). sb_instance kid = JStr iid" using t by blast
  ultimately show ?thesis using k by blast
qed

section \<open>Scoped sandboxes\<close>

lemma select_run_of_instance:
  "map_option in_run (select_row in_id iid t) = map_option snd (find (\<lambda>kr. fst kr = iid) (map (\<lambda>i. (in_id i, in_run i)) t))"
  by (induction t) (simp_all add: select_row_def)

lemma project_of_claims:
  assumes "claims_kept db db'" "project_of Instances iid db = Some pid"
  shows "project_of Instances iid db' = Some pid"
proof -
  have own: "run_owner rid db' = Some pid" if "run_owner rid db = Some pid" for rid
    using assms(1) that by (auto simp: claims_kept_def run_owner_def select_row_appends)
  obtain i where i: "select_row in_id iid (t_instances db) = Some i" "run_owner (in_run i) db = Some pid"
    using assms(2) by (auto simp: project_of_simps split: option.splits)
  have "map_option in_run (select_row in_id iid (t_instances db')) = Some (in_run i)"
    using assms(1) i(1) select_run_of_instance [of iid "t_instances db"]
    by (auto simp: select_run_of_instance claims_kept_def find_append split: option.splits)
  then obtain i' where "select_row in_id iid (t_instances db') = Some i'" "in_run i' = in_run i" by auto
  with own i(2) show ?thesis by (simp add: project_of_simps)
qed

lemma authed_claims:
  assumes "claims_kept (w_db w) (w_db w')" "authed ev rq w = Some pid"
  shows "authed ev rq w' = Some pid"
proof -
  obtain xs where "t_projects (w_db w') = t_projects (w_db w) @ xs" using assms(1) by (auto simp: claims_kept_def)
  with assms(2) show ?thesis
    by (auto simp: authed_def project_of_key_def find_append split: option.splits if_splits)
qed

lemma authed_path: "authed ev (daemon_request path key None) = authed ev (daemon_request path' key None)"
  by (rule ext) (simp add: authed_def)

text \<open>What a successful \<open>Sandbox.create\<close> leaves: the caller owns the instance it is given.\<close>

lemma create_owned:
  assumes "\<forall>j. codec_ok (pf_codec (ev_plat ev)) j"
    and "sandbox_create (daemon_client ev api key str) img w = (Inr sb, w')"
  obtains pid rid iid where "authed ev (daemon_request path key None) w = Some pid" "engine_step ev w w'"
    "sb = \<lparr>sb_instance = JStr iid, sb_run = JStr rid, sb_branch = JStr ''genesis''\<rparr>"
    "project_of Instances iid (w_db w') = Some pid" "iid \<in> fst ` set (w_live w')"
proof -
  let ?C = "daemon_client ev api key str"
  obtain r1 w1 where m: "sdk_call ?C ''POST'' ''/v1/runs'' (Some (JObj [(''image'', JStr img)])) w = (r1, w1)" by fastforce
  show thesis
  proof (rule daemon_call [OF assms(1) _ m])
    fix status j
    assume ok: "r1 = Inr j" "daemon_serve ev key ''POST'' ''/v1/runs'' (Some (JObj [(''image'', JStr img)])) w = ((status, j), w1)"
      "200 \<le> status" "status < 300"
    obtain pid where pid: "authed ev (daemon_request ''/v1/runs'' key None) w = Some pid" "create_run ev pid (JStr img) w = (Inr j, w1)"
      using served_run [OF ok(2-4)] by blast
    obtain rid iid t1 t2 bound c1 vm where run:
      "add_run \<lparr>rn_id = rid, rn_project = pid, rn_image = bound, rn_created = t1\<rparr> (w_db w) = Inr c1"
      "add_instance \<lparr>in_id = iid, in_run = rid, in_snapshot = None, in_state = ''RUNNING'', in_branch = ''genesis'', in_created = t2\<rparr> c1 = Inr (w_db w1)"
      "w_live w1 = AList.update iid vm (w_live w)" "j = JObj [(''run_id'', JStr rid), (''instance_id'', JStr iid)]"
      using create_run_effect [OF pid(2)] by auto
    have w': "w' = w1" and sb: "sb = \<lparr>sb_instance = JStr iid, sb_run = JStr rid, sb_branch = JStr ''genesis''\<rparr>"
      using assms(2) m ok(1) run(4) by (simp_all add: sandbox_create_def andthen_def at_key_def lift_sum_def ret_def)
    have db: "w_db w1 = (w_db w)\<lparr>
        t_runs := t_runs (w_db w) @ [\<lparr>rn_id = rid, rn_project = pid, rn_image = bound, rn_created = t1\<rparr>],
        t_instances := t_instances (w_db w) @ [\<lparr>in_id = iid, in_run = rid, in_snapshot = None, in_state = ''RUNNING'',
          in_branch = ''genesis'', in_created = t2\<rparr>]\<rparr>"
      and new: "select_row in_id iid (t_instances (w_db w)) = None" "select_row rn_id rid (t_runs (w_db w)) = None"
      using run(1,2) by (auto simp: add_run_def add_instance_def select_row_None dest!: insert_row_Inr split: sum.splits)
    have "project_of Instances iid (w_db w1) = Some pid"
      using new by (simp add: db project_of_simps run_owner_def select_row_append)
    moreover have "iid \<in> fst ` set (w_live w1)" using run(3) by (simp add: dom_update)
    moreover have "engine_step ev w w1" using StepRun [OF pid(2)] .
    ultimately show thesis using that pid(1) sb w' authed_path by metis
  next
    fix t
    assume "r1 = Inl (KladosError t)"
    with assms(2) m show thesis by (simp add: sandbox_create_def andthen_def)
  qed simp
qed

lemma destroy_owned:
  assumes "\<forall>j. codec_ok (pf_codec (ev_plat ev)) j" "CHR ''/'' \<notin> set iid"
    and "authed ev (daemon_request [] key None) w = Some pid" "project_of Instances iid (w_db w) = Some pid"
    and "sb_instance sb = JStr iid"
  shows "sandbox_destroy (daemon_client ev api key str) sb w = (Inr (), snd (destroy_instance ev iid w))"
proof -
  let ?C = "daemon_client ev api key str"
  obtain r w' where d: "destroy_instance ev iid w = (r, w')" by fastforce
  have r: "r = Inr (JObj [(''instance_id'', JStr iid), (''state'', JStr ''DESTROYED'')])" using destroy_effect [OF d] by blast
  have "path_parts (''/v1/'' @ ''instances'' @ ''/'' @ iid @ ''/'' @ ''destroy'') = [''v1'', ''instances''] @ split_slash iid @ [''destroy'']"
    by (rule path_three) simp_all
  then have p: "path_parts (instance_path ?C sb ''destroy'') = [''v1'', ''instances'', iid, ''destroy'']"
    using assms(2,5) by (simp add: instance_paths ftext_def split_slash_plain)
  have "post_route ev pid [''v1'', ''instances'', iid, ''destroy''] (JObj []) w = (Inr (Some (JObj [(''instance_id'', JStr iid), (''state'', JStr ''DESTROYED'')])), w')"
    using assms(4) d r by (simp only: reply_ok [symmetric]) (simp add: post_route_def bind_owner)
  then have "daemon_serve ev key ''POST'' (instance_path ?C sb ''destroy'') (Some (JObj [])) w
      = ((200, JObj [(''instance_id'', JStr iid), (''state'', JStr ''DESTROYED'')]), w')"
    using assms(3) authed_path [of ev "instance_path ?C sb ''destroy''" key "[]"]
    by (simp add: daemon_serve_def p answer_def)
  from daemon.destroy_served [OF _ _ this] show ?thesis by (simp add: assms(1) d)
qed

text \<open>
  C9. A scoped sandbox never outlives its block: if \<open>with Sandbox.create() as sb\<close> gets its sandbox, then
  however the block ends, by returning or by raising, and whatever the daemon was asked to do
  meanwhile by this client or by others, restarts included, the block's outcome goes on to the
  caller, no VM of the instance is live any more and its row says it is destroyed.
\<close>

theorem with_sandbox_cleans_up:
  assumes "\<forall>j. codec_ok (pf_codec (ev_plat ev)) j" and "db_ok (w_db w)"
    and "sandbox_create (daemon_client ev api key str) img w = (Inr sb, w1)"
    and "sb_instance sb = JStr iid" "CHR ''/'' \<notin> set iid"
    and "body sb w1 = (outcome, w2)" and "(engine_step ev)\<^sup>*\<^sup>* w1 w2"
  shows "\<exists>w' row. with_sandbox (daemon_client ev api key str) img body w = (outcome, w') \<and>
    map_of (w_live w') iid = None \<and> select_row in_id iid (t_instances (w_db w')) = Some row \<and> in_state row = ''DESTROYED''"
proof -
  let ?C = "daemon_client ev api key str"
  obtain pid rid iid' where own: "authed ev (daemon_request [] key None) w = Some pid" "engine_step ev w w1"
      "sb = \<lparr>sb_instance = JStr iid', sb_run = JStr rid, sb_branch = JStr ''genesis''\<rparr>" "project_of Instances iid' (w_db w1) = Some pid"
    using create_owned [OF assms(1,3)] by metis
  have iid: "iid' = iid" using own(3) assms(4) by simp
  have claims: "claims_kept (w_db w) (w_db w2)" "claims_kept (w_db w1) (w_db w2)"
    using claims_kept_trans [OF engine_step_claims [OF own(2)]] engine_steps_claims [OF assms(7)] by blast+
  have a2: "authed ev (daemon_request [] key None) w2 = Some pid" by (rule authed_claims [OF claims(1) own(1)])
  have o2: "project_of Instances iid (w_db w2) = Some pid" using project_of_claims [OF claims(2)] own(4) iid by simp
  obtain r3 w3 where d: "destroy_instance ev iid w2 = (r3, w3)" by fastforce
  have "sandbox_exit ?C sb w2 = (Inr (), w3)"
    using destroy_owned [OF assms(1,5) a2 o2 assms(4)] d by (simp add: sandbox_exit_def attempt_def)
  then have run: "with_sandbox ?C img body w = (outcome, w3)"
    using assms(3,6) by (cases outcome) (simp_all add: with_sandbox_def andthen_def attempt_def ret_def lift_sum_def)
  have "db_ok (w_db w2)" by (rule engine_steps_ok [OF assms(7) engine_step_ok [OF own(2) assms(2)]])
  then have dist: "distinct (map in_id (t_instances (w_db w2)))" by (simp add: db_ok_def)
  obtain row where "select_row in_id iid (t_instances (w_db w2)) = Some row"
    using o2 by (auto simp: project_of_simps split: option.splits)
  then have "select_row in_id iid (t_instances (w_db w3)) = Some (row\<lparr>in_state := ''DESTROYED''\<rparr>)"
    using insts.upd_look [OF dist, of "\<lambda>i. i\<lparr>in_state := ''DESTROYED''\<rparr>" iid iid] destroy_effect [OF d]
    by (simp add: update_instance_def)
  moreover have "map_of (w_live w3) iid = None" using destroy_effect [OF d] by simp
  ultimately show ?thesis using run by auto
qed

lemma demo_boot_fresh:
  assumes "blank (w_host w)" "h_mach (w_host w) < k"
  shows "\<exists>vm h'. boot_vm (demo_engine k) iid None None w =
      (Inr (vm, path_join (instance_dir (demo_engine k) iid) ''vm.vsock''), w\<lparr>w_host := h', w_live := AList.update iid vm (w_live w)\<rparr>)"
proof -
  let ?d = "instance_dir (demo_engine k) iid"
  let ?vm = "microvm_init (engine_spec (demo_engine k)) ?d ''vm'' (Some (path_join ?d ''console'')) (Some (baked, ?d))"
  have sock: "mv_sock ?vm = path_join ?d ''vm'' @ ''.sock''" "mv_console ?vm = Some ((?d @ ''/'') @ ''console'')"
    by (simp_all add: microvm_init_def path_join_def)
  have "path_join ?d ''scratch.ext4'' = (?d @ ''/scratch'') @ ''.ext4''" by (simp add: path_join_def)
  then have "\<not> exists_file (path_join ?d ''scratch.ext4'') (w_host w)"
    using assms by (metis blank_def exists_file_def)
  then have scr: "(if \<not> exists_file (path_join ?d ''scratch.ext4'') (w_host w)
       then make_scratch (demo_plat k) (path_join ?d ''scratch.ext4'') (w_host w) else (Inr (), w_host w)) = (Inr (), w_host w)"
    by (simp add: make_scratch_def andthen_def timed_def demo_plat_def)
  have plat: "ev_plat (demo_engine k) = demo_plat k" by (simp add: demo_engine_def)
  obtain h' where h': "spawn (demo_plat k) ?vm (w_host w) = (Inr (?vm\<lparr>mv_proc := Some (h_mach (w_host w))\<rparr>), h')"
    using demo_spawn(1) [OF sock assms] by blast
  show ?thesis
    by (intro exI [of _ "?vm\<lparr>mv_proc := Some (h_mach (w_host w))\<rparr>"] exI [of _ h'])
      (simp add: boot_vm_def Let_def andthen_def on_host_def plat scr h' configure_and_start_def demo_requests)
qed

lemma bind_new_id: "andthen (new_id ev) f w = f (ev_id ev (w_ids w)) (w\<lparr>w_ids := w_ids w + 1\<rparr>)"
  by (simp add: andthen_def new_id_def)

lemma bind_now: "andthen (on_host time_now) f w = f (h_clock (w_host w)) w"
  by (simp add: andthen_def on_host_def time_now_def)

lemma demo_create_run:
  "\<exists>w'. create_run (demo_engine 9) ''p'' (JStr ''i'') demo_world =
    (Inr (JObj [(''run_id'', JStr (''id'' @ show_nat 0)), (''instance_id'', JStr (''id'' @ show_nat 1))]), w')"
proof -
  have up: "await_agent (demo_plat k) uds h = (Inr True, h)" for k uds h
    by (simp add: await_agent_def wait_agent.simps [of _ _ _ h] ping_def demo_vsock_request)
  have ids: "ev_id (demo_engine 9) n = ''id'' @ show_nat n" "ev_plat (demo_engine 9) = demo_plat 9" for n
    by (simp_all add: demo_engine_def)
  let ?con = "demo_tables\<lparr>t_runs := t_runs demo_tables @ [\<lparr>rn_id = ''id'' @ show_nat 0, rn_project = ''p'', rn_image = JStr ''i'', rn_created = 0\<rparr>],
     t_instances := [\<lparr>in_id = ''id'' @ show_nat 1, in_run = ''id'' @ show_nat 0, in_snapshot = None, in_state = ''RUNNING'',
        in_branch = ''genesis'', in_created = 0\<rparr>]\<rparr>"
  let ?w = "demo_world\<lparr>w_ids := 2, w_db := ?con\<rparr>"
  have "blank (w_host ?w)" "h_mach (w_host ?w) < 9" by (simp_all add: demo_world_facts)
  from demo_boot_fresh [OF this, of "''id'' @ show_nat 1"] obtain vm h' where
    b: "boot_vm (demo_engine 9) (''id'' @ show_nat 1) None None ?w =
      (Inr (vm, path_join (instance_dir (demo_engine 9) (''id'' @ show_nat 1)) ''vm.vsock''), ?w\<lparr>w_host := h', w_live := AList.update (''id'' @ show_nat 1) vm (w_live ?w)\<rparr>)"
    by blast
  have "h_clock (w_host demo_world) = 0" by (simp add: demo_world_def)
  then have "create_run (demo_engine 9) ''p'' (JStr ''i'') demo_world =
      andthen (boot_vm (demo_engine 9) (''id'' @ show_nat 1) None None) (\<lambda>(vm, uds).
        andthen (on_host (await_agent (ev_plat (demo_engine 9)) uds)) (\<lambda>_.
        ret (JObj [(''run_id'', JStr (''id'' @ show_nat 0)), (''instance_id'', JStr (''id'' @ show_nat 1))]))) ?w"
    by (simp add: create_run_def bind_new_id bind_now bind_connect bind_commit bind_sum sql_bind_def add_run_def add_instance_def insert_row_def
      ids demo_world_facts demo_tables_def numeral_2_eq_2)
  then show ?thesis by (simp add: andthen_def b [simplified] on_host_def up ids ret_def)
qed

theorem with_sandbox_cleans_up_witness:
  "\<exists>w' row. with_sandbox (demo_sdk 9) ''i'' (\<lambda>sb. throw (ValueError ''stop'')) demo_world = (Inl (ValueError ''stop'') :: exn + unit, w') \<and>
     map_of (w_live w') (''id'' @ show_nat 1) = None \<and>
     select_row in_id (''id'' @ show_nat 1) (t_instances (w_db w')) = Some row \<and> in_state row = ''DESTROYED''"
proof -
  let ?rid = "''id'' @ show_nat 0" and ?iid = "''id'' @ show_nat 1"
  let ?j = "JObj [(''run_id'', JStr ?rid), (''instance_id'', JStr ?iid)]"
  obtain w1 where run: "create_run (demo_engine 9) ''p'' (JStr ''i'') demo_world = (Inr ?j, w1)" using demo_create_run by blast
  have au: "authed (demo_engine 9) (daemon_request path ''k'' None) demo_world = Some ''p''" for path
    by (simp add: authed_def project_of_key_def demo_world_facts demo_tables_def hash_key_def demo_engine_def)
  have "post_route (demo_engine 9) ''p'' [''v1'', ''runs''] (JObj [(''image'', JStr ''i'')]) demo_world = (Inr (Some ?j), w1)"
    using run by (simp only: reply_ok [symmetric]) (simp add: post_route_def bind_sum body_get_def)
  then have "daemon_serve (demo_engine 9) ''k'' ''POST'' ''/v1/runs'' (Some (JObj [(''image'', JStr ''i'')])) demo_world = ((200, ?j), w1)"
    by (simp add: daemon_serve_def au path_runs answer_def)
  from daemon.create_served [OF _ _ this refl]
  have create: "sandbox_create (demo_sdk 9) ''i'' demo_world = (Inr \<lparr>sb_instance = JStr ?iid, sb_run = JStr ?rid, sb_branch = JStr ''genesis''\<rparr>, w1)"
    by (simp add: demo_engine_codec)
  have ok: "db_ok (w_db demo_world)" by (simp add: demo_world_facts demo_tables_ok)
  have slash: "CHR ''/'' \<notin> set ?iid" using show_nat_range [of "CHR ''/''" 1] by auto
  show ?thesis
    by (rule with_sandbox_cleans_up [OF demo_engine_codec ok create _ slash, of _ _ w1]) (simp_all add: throw_def)
qed

end
