(* ===== verification/Sdk_Scripts.thy ===== *)
theory Sdk_Scripts
  imports Sdk
begin

text \<open>
  The programs written with the SDK: the demonstration (\<open>spikes/sdk/demo_sdk.py\<close>), the export of a
  timeline (\<open>spikes/sdk/export_timeline.py\<close>) and the measurement of snapshot storage
  (\<open>spikes/storage/spike_l_dedup.py\<close>). What they print or write is what they return.
\<close>

section \<open>The scripts\<close>

text \<open>\<open>len\<close> of a decoded value, and the numbers in \<open>Timeline.__repr__\<close>.\<close>

definition json_len :: "json \<Rightarrow> exn + nat" where
  "json_len j =
     (case j of
        JList js \<Rightarrow> Inr (length js)
      | JObj kvs \<Rightarrow> Inr (length kvs)
      | JStr s \<Rightarrow> Inr (length s)
      | _ \<Rightarrow> Inl (TypeError ''object has no len()''))"

definition counted :: "exn + json \<Rightarrow> 's \<Rightarrow> (exn + nat) \<times> 's" where
  "counted x = andthen (lift_sum x) (\<lambda>j. lift_sum (json_len j))"

definition timeline_shown :: "json \<Rightarrow> 's \<Rightarrow> (exn + json \<times> nat \<times> nat) \<times> 's" where
  "timeline_shown d =
     andthen (lift_sum (at_key d ''run_id'')) (\<lambda>r.
     andthen (counted (timeline_snapshots d)) (\<lambda>s.
     andthen (counted (timeline_instances d)) (\<lambda>i. ret (r, s, i))))"

definition base_image :: string where
  "base_image = ''klados/agent-base:py3.12''"

fun destroy_all :: "'s client \<Rightarrow> sandbox list \<Rightarrow> 's \<Rightarrow> (exn + unit) \<times> 's" where
  "destroy_all C [] = ret ()"
| "destroy_all C (c # cs) = andthen (sandbox_destroy C c) (\<lambda>_. destroy_all C cs)"

text \<open>The same with \<open>except Exception: pass\<close> around each call.\<close>

fun destroy_quietly :: "'s client \<Rightarrow> sandbox list \<Rightarrow> 's \<Rightarrow> (exn + unit) \<times> 's" where
  "destroy_quietly C [] = ret ()"
| "destroy_quietly C (c # cs) =
     andthen (attempt (sandbox_destroy C c) (\<lambda>e. ret ())) (\<lambda>_. destroy_quietly C cs)"

definition demo_script :: "'s client \<Rightarrow> 's \<Rightarrow> (exn + sandbox \<times> snapshot_ref \<times> sandbox list \<times> (json \<times> nat \<times> nat)) \<times> 's" where
  "demo_script C =
     andthen (sandbox_create C base_image) (\<lambda>sb.
     andthen (sandbox_snapshot C sb ''before-risky-refactor'') (\<lambda>snap.
     andthen (snapshot_fork C snap 4) (\<lambda>children.
     andthen (sandbox_timeline C sb) (\<lambda>tl.
     andthen (timeline_shown tl) (\<lambda>shown.
     andthen (destroy_all C children) (\<lambda>_.
     andthen (sandbox_destroy C sb) (\<lambda>_. ret (sb, snap, children, shown))))))))"

text \<open>\<open>kids[1]\<close> raises when there are fewer than two.\<close>

definition export_script :: "'s client \<Rightarrow> 's \<Rightarrow> (exn + json \<times> nat \<times> nat) \<times> 's" where
  "export_script C =
     andthen (sandbox_create C base_image) (\<lambda>sb.
     andthen (sandbox_snapshot C sb ''task loaded'') (\<lambda>s1.
     andthen (snapshot_fork C s1 3) (\<lambda>kids.
     andthen (lift_sum (py_index kids 1)) (\<lambda>k1.
     andthen (sandbox_snapshot C k1 ''branch 1 - fix applied'') (\<lambda>s2.
     andthen (snapshot_fork C s2 2) (\<lambda>gk.
     andthen (sandbox_timeline C sb) (\<lambda>tl.
     andthen (counted (timeline_snapshots tl)) (\<lambda>s.
     andthen (counted (timeline_instances tl)) (\<lambda>i.
     andthen (destroy_quietly C (kids @ gk)) (\<lambda>_.
     andthen (sandbox_destroy C sb) (\<lambda>_. ret (tl, s, i))))))))))))"

section \<open>Storage of snapshots\<close>

text \<open>The files of a snapshot that exist, in the order they are stored; \<open>files\<close> is the file system.\<close>

definition artifact_paths :: "string \<Rightarrow> string list \<Rightarrow> string list" where
  "artifact_paths dir sids = [path_join (path_join dir sid) name. sid \<leftarrow> sids, name \<leftarrow> [''mem'', ''scratch.ext4'']]"

definition artifacts :: "(string \<Rightarrow> bytes option) \<Rightarrow> string \<Rightarrow> string list \<Rightarrow> bytes list" where
  "artifacts files dir sids = List.map_filter files (artifact_paths dir sids)"

fun store_all :: "'srv cas_cfg \<Rightarrow> nat \<Rightarrow> bytes list \<Rightarrow> 'srv cas \<Rightarrow> (exn + nat) \<times> 'srv cas" where
  "store_all cfg buf [] = ret 0"
| "store_all cfg buf (d # ds) =
     andthen (put_file cfg buf d) (\<lambda>_. andthen (store_all cfg buf ds) (\<lambda>n. ret (n + 1)))"

text \<open>The number of artifacts, the statistics, and whether the target is met.\<close>

definition dedup_report ::
  "'srv cas_cfg \<Rightarrow> (string \<Rightarrow> bytes option) \<Rightarrow> string \<Rightarrow> string list \<Rightarrow> 'srv \<Rightarrow> exn + nat \<times> cas_stats \<times> bool" where
  "dedup_report cfg files dir sids srv =
     (case store_all cfg read_buf (artifacts files dir sids) (cas_new (\<lambda>_. None) srv) of
        (Inl e, s) \<Rightarrow> Inl e
      | (Inr n, s) \<Rightarrow> (let st = cas_statistics s in Inr (n, st, 8 \<le> st_dedup_ratio st)))"

text \<open>Snapshots of the children one after the other, and the ids as path components.\<close>

fun snapshot_branches :: "'s client \<Rightarrow> nat \<Rightarrow> sandbox list \<Rightarrow> 's \<Rightarrow> (exn + json list) \<times> 's" where
  "snapshot_branches C i [] = ret []"
| "snapshot_branches C i (c # cs) =
     andthen (sandbox_snapshot C c (''branch '' @ show_nat i)) (\<lambda>s.
     andthen (snapshot_branches C (i + 1) cs) (\<lambda>ids. ret (sr_id s # ids)))"

fun path_texts :: "json list \<Rightarrow> exn + string list" where
  "path_texts [] = Inr []"
| "path_texts (j # js) =
     (case j of
        JStr s \<Rightarrow> (case path_texts js of Inl e \<Rightarrow> Inl e | Inr ss \<Rightarrow> Inr (s # ss))
      | _ \<Rightarrow> Inl (TypeError ''join() argument must be str''))"

definition spike_l ::
  "'s client \<Rightarrow> ('s \<Rightarrow> string \<Rightarrow> bytes option) \<Rightarrow> 'srv cas_cfg \<Rightarrow> string \<Rightarrow> int \<Rightarrow> 'srv \<Rightarrow> 's \<Rightarrow> (exn + nat \<times> cas_stats \<times> bool) \<times> 's" where
  "spike_l C files cfg dir forks srv =
     andthen (sandbox_create C ''klados/agent'') (\<lambda>sb.
     andthen (sandbox_snapshot C sb ''task loaded'') (\<lambda>base.
     andthen (snapshot_fork C base forks) (\<lambda>kids.
     andthen (snapshot_branches C 0 kids) (\<lambda>ids.
     andthen (lift_sum (path_texts (sr_id base # ids))) (\<lambda>sids.
     andthen (\<lambda>s. (dedup_report cfg (files s) dir sids srv, s)) (\<lambda>report.
     andthen (destroy_quietly C kids) (\<lambda>_.
     andthen (sandbox_destroy C sb) (\<lambda>_. ret report))))))))"

section \<open>Clean-up\<close>

text \<open>
  The clean-up of \<open>export_timeline.py\<close> and of Spike L: for sandboxes whose instances belong to the
  caller, it raises nothing, and afterwards none of their VMs is live while all others still are.
\<close>

theorem cleanup_destroys_exactly:
  assumes "\<forall>j. codec_ok (pf_codec (ev_plat ev)) j" "authed ev (daemon_request [] key None) w = Some pid"
    and "\<forall>iid \<in> set iids. CHR ''/'' \<notin> set iid \<and> project_of Instances iid (w_db w) = Some pid"
    and "map sb_instance sbs = map JStr iids"
  shows "\<exists>w'. destroy_quietly (daemon_client ev api key str) sbs w = (Inr (), w') \<and>
    (\<forall>iid. map_of (w_live w') iid = (if iid \<in> set iids then None else map_of (w_live w) iid))"
  using assms(2-4)
proof (induction sbs arbitrary: iids w)
  case Nil
  then show ?case by (simp add: ret_def)
next
  case (Cons sb sbs)
  then obtain iid rest where i: "iids = iid # rest" "sb_instance sb = JStr iid" "map sb_instance sbs = map JStr rest"
    by (cases iids) auto
  obtain r w1 where d: "destroy_instance ev iid w = (r, w1)" by fastforce
  have claims: "claims_kept (w_db w) (w_db w1)" using StepDestroy [OF d] by (rule engine_step_claims)
  have mine: "CHR ''/'' \<notin> set iid" "project_of Instances iid (w_db w) = Some pid" using Cons.prems(2) i(1) by simp_all
  have one: "sandbox_destroy (daemon_client ev api key str) sb w = (Inr (), w1)"
    using destroy_owned [OF assms(1) mine(1) Cons.prems(1) mine(2) i(2)] d by simp
  have "\<forall>x \<in> set rest. CHR ''/'' \<notin> set x \<and> project_of Instances x (w_db w1) = Some pid"
    using Cons.prems(2) i(1) project_of_claims [OF claims] by simp
  from Cons.IH [OF authed_claims [OF claims Cons.prems(1)] this i(3)] obtain w' where
    w': "destroy_quietly (daemon_client ev api key str) sbs w1 = (Inr (), w')"
      "\<forall>x. map_of (w_live w') x = (if x \<in> set rest then None else map_of (w_live w1) x)" by blast
  have "w_live w1 = AList.delete iid (w_live w)" using destroy_effect [OF d] by simp
  then have "map_of (w_live w1) x = (if x = iid then None else map_of (w_live w) x)" for x by simp
  then show ?case using one w' i(1) by (simp add: attempt_def andthen_def)
qed

theorem cleanup_destroys_exactly_witness:
  "\<exists>w w'. map_of (w_live w) ''id0'' \<noteq> None \<and> map_of (w_live w) ''id1'' \<noteq> None \<and>
     destroy_quietly (demo_sdk 9) [\<lparr>sb_instance = JStr ''id0'', sb_run = JStr ''r'', sb_branch = JNull\<rparr>] w = (Inr (), w') \<and>
     map_of (w_live w') ''id0'' = None \<and> map_of (w_live w') ''id1'' \<noteq> None"
proof -
  obtain vm1 vm2 t1 t2 w r where f: "fork_snapshot (demo_engine 9) ''s'' 2 demo_world = (r, w)"
      "w_db w = demo_tables\<lparr>t_instances := [demo_row ''id0'' 0 2 t1, demo_row ''id1'' 1 2 t2]\<rparr>"
      "w_live w = [(''id0'', vm1), (''id1'', vm2)]"
    using demo_fork_two by blast
  have au: "authed (demo_engine 9) (daemon_request [] ''k'' None) w = Some ''p''"
    by (simp add: authed_def project_of_key_def f(2) demo_tables_def hash_key_def demo_engine_def)
  have own: "\<forall>iid \<in> set [''id0'']. CHR ''/'' \<notin> set iid \<and> project_of Instances iid (w_db w) = Some ''p''"
    by (simp add: f(2) project_of_simps run_owner_def demo_tables_def select_row_def)
  have sb: "map sb_instance [\<lparr>sb_instance = JStr ''id0'', sb_run = JStr ''r'', sb_branch = JNull\<rparr>] = map JStr [''id0'']" by simp
  obtain w' where w': "destroy_quietly (demo_sdk 9) [\<lparr>sb_instance = JStr ''id0'', sb_run = JStr ''r'', sb_branch = JNull\<rparr>] w = (Inr (), w')"
      "\<forall>iid. map_of (w_live w') iid = (if iid \<in> set [''id0''] then None else map_of (w_live w) iid)"
    using cleanup_destroys_exactly [OF demo_engine_codec au own sb] by blast
  from w'(2) f(3) have "map_of (w_live w') ''id0'' = None" "map_of (w_live w') ''id1'' \<noteq> None" by simp_all
  with w'(1) f(3) show ?thesis by (intro exI [of _ w] exI [of _ w']) simp
qed

section \<open>What the measurement measures\<close>

text \<open>
  The counters of a store that has taken the blocks \<open>bs\<close>: every distinct block is compressed and counted
  once.
\<close>

definition has_taken :: "'srv cas_cfg \<Rightarrow> bytes list \<Rightarrow> 'srv cas \<Rightarrow> bool" where
  "has_taken cfg bs s \<longleftrightarrow>
     fst ` set (cs_index s) = blake cfg ` set bs \<and> distinct (map fst (cs_index s)) \<and>
     cs_stored s = (\<Sum>b \<in> set bs. length (zcompress cfg b (cfg_level cfg))) \<and>
     cs_logical s = length (concat bs) \<and> cs_chunks s = length bs"

lemma put_block_taken:
  assumes "has_taken cfg bs s" "inj_on (blake cfg) (insert b (set bs))"
  shows "has_taken cfg (bs @ [b]) (snd (put_block cfg b s))"
proof (cases "b \<in> set bs")
  case True
  then have "blake cfg b \<in> fst ` set (cs_index s)" using assms(1) by (simp add: has_taken_def)
  then have "map_of (cs_index s) (blake cfg b) \<noteq> None" by (simp add: map_of_eq_None_iff)
  then have "snd (put_block cfg b s) = s\<lparr>cs_logical := cs_logical s + length b, cs_chunks := cs_chunks s + 1\<rparr>"
    by (simp add: put_block_known)
  with assms(1) True show ?thesis by (simp add: has_taken_def insert_absorb)
next
  case False
  then have "blake cfg b \<notin> blake cfg ` set bs" using assms(2) by (auto simp: inj_on_def)
  then have new: "map_of (cs_index s) (blake cfg b) = None" using assms(1) by (simp add: has_taken_def map_of_eq_None_iff)
  let ?t = "snd (put_block cfg b s)"
  have t: "cs_index ?t = cs_index s @ [(blake cfg b, length (zcompress cfg b (cfg_level cfg)))]"
    "cs_stored ?t = cs_stored s + length (zcompress cfg b (cfg_level cfg))"
    "cs_logical ?t = cs_logical s + length b" "cs_chunks ?t = cs_chunks s + 1"
    using new by (simp_all add: put_block_def Let_def)
  have "blake cfg b \<notin> fst ` set (cs_index s)" using new by (simp add: map_of_eq_None_iff)
  then show ?thesis using assms(1) False by (simp add: has_taken_def t add.commute)
qed

lemma put_blocks_taken:
  "has_taken cfg bs s \<Longrightarrow> inj_on (blake cfg) (set bs \<union> set cs) \<Longrightarrow> has_taken cfg (bs @ cs) (snd (put_blocks cfg cs s))"
proof (induction cs arbitrary: bs s)
  case (Cons c cs)
  have "inj_on (blake cfg) (insert c (set bs))" using Cons.prems(2) by (auto intro: inj_on_subset)
  from put_block_taken [OF Cons.prems(1) this] Cons.IH [of "bs @ [c]" "snd (put_block cfg c s)"] Cons.prems(2)
  show ?case by (simp add: put_blocks_Cons_snd del: put_blocks.simps(2))
qed simp

lemma store_all_taken:
  assumes "cfg_cdc cfg \<or> 0 < cfg_block cfg"
    and "has_taken cfg bs s" "inj_on (blake cfg) (set bs \<union> set (concat (map (file_blocks cfg buf) ds)))"
  shows "\<exists>t. store_all cfg buf ds s = (Inr (length ds), t) \<and> has_taken cfg (bs @ concat (map (file_blocks cfg buf) ds)) t"
  using assms(2,3)
proof (induction ds arbitrary: bs s)
  case Nil
  then show ?case by (simp add: ret_def)
next
  case (Cons d ds)
  let ?c = "file_blocks cfg buf d"
  have "cfg_cdc cfg \<or> cfg_block cfg \<noteq> 0" using assms(1) by auto
  note put = put_file_eq [OF this, of buf d s]
  have "inj_on (blake cfg) (set bs \<union> set ?c)" using Cons.prems(2) by (auto intro: inj_on_subset)
  note one = put_blocks_taken [OF Cons.prems(1) this]
  have "inj_on (blake cfg) (set (bs @ ?c) \<union> set (concat (map (file_blocks cfg buf) ds)))"
    using Cons.prems(2) by (simp add: Un_assoc)
  from Cons.IH [OF one this] put show ?case by (auto simp: andthen_def ret_def)
qed

text \<open>
  What Spike L reports: it counts the artifacts that exist; the logical size is the sum of their
  sizes; and, when no two different 4 KiB blocks have the same hash, the unique chunks are the different
  blocks among all of them and the stored size is the compressed size of each such block once.
\<close>

theorem dedup_report_measures:
  assumes "\<not> cfg_cdc cfg" "cfg_block cfg = 4096" "bs = concat (map (file_blocks cfg read_buf) (artifacts files dir sids))"
    and "inj_on (blake cfg) (set bs)"
  shows "\<exists>st. dedup_report cfg files dir sids srv =
      Inr (length (filter (\<lambda>p. files p \<noteq> None) (artifact_paths dir sids)), st, 8 \<le> st_dedup_ratio st) \<and>
    st_logical st = sum_list (map length (artifacts files dir sids)) \<and> st_chunks_total st = length bs \<and>
    st_chunks_unique st = card (set bs) \<and>
    st_stored st = (\<Sum>b \<in> set bs. length (zcompress cfg b (cfg_level cfg)))"
proof -
  have c: "cfg_cdc cfg \<or> 0 < cfg_block cfg" using assms(2) by simp
  have "has_taken cfg [] (cas_new (\<lambda>_. None) srv)" by (simp add: has_taken_def cas_new_def)
  from store_all_taken [OF c this, of read_buf "artifacts files dir sids"] assms(3,4)
  obtain t where t: "store_all cfg read_buf (artifacts files dir sids) (cas_new (\<lambda>_. None) srv) = (Inr (length (artifacts files dir sids)), t)"
      "has_taken cfg bs t" by auto
  have "length (cs_index t) = card (fst ` set (cs_index t))"
    using t(2) by (metis (no_types, lifting) distinct_card has_taken_def length_map list.set_map)
  also have "\<dots> = card (set bs)" using t(2) assms(4) by (simp add: has_taken_def card_image)
  finally have u: "length (cs_index t) = card (set bs)" .
  have "concat (concat (map f xs)) = concat (map (\<lambda>x. concat (f x)) xs)" for f :: "bytes \<Rightarrow> bytes list" and xs
    by (induction xs) simp_all
  then have "concat bs = concat (artifacts files dir sids)"
    using assms(3) concat_file_blocks [OF c, of read_buf] by (simp add: read_buf_def)
  then have "length (concat bs) = sum_list (map length (artifacts files dir sids))" by (simp add: length_concat)
  moreover have "length (artifacts files dir sids) = length (filter (\<lambda>p. files p \<noteq> None) (artifact_paths dir sids))"
    by (simp add: artifacts_def map_filter_def)
  ultimately show ?thesis using t u by (simp add: dedup_report_def cas_statistics_def has_taken_def Let_def)
qed

theorem dedup_report_measures_witness:
  "\<exists>st. dedup_report (demo_cfg\<lparr>cfg_root := False, cfg_block := 4096\<rparr>)
      (\<lambda>p. if p = ''d/b/mem'' then None else Some [7]) ''d'' [''a'', ''b''] () = Inr (3, st, 8 \<le> st_dedup_ratio st) \<and>
    st_logical st = 3 \<and> st_chunks_unique st = 1"
proof -
  let ?cfg = "demo_cfg\<lparr>cfg_root := False, cfg_block := 4096\<rparr>" and ?files = "\<lambda>p. if p = ''d/b/mem'' then None else Some [7 :: byte]"
  have p: "artifact_paths ''d'' [''a'', ''b''] = [''d/a/mem'', ''d/a/scratch.ext4'', ''d/b/mem'', ''d/b/scratch.ext4'']"
    by (simp add: artifact_paths_def path_join_def)
  have a: "artifacts ?files ''d'' [''a'', ''b''] = [[7], [7], [7]]" by (simp add: artifacts_def p map_filter_simps)
  have b: "concat (map (file_blocks ?cfg read_buf) (artifacts ?files ''d'' [''a'', ''b''])) = [[7], [7], [7]]"
    by (simp add: a file_blocks_def pieces.simps demo_cfg_def blocks_def read_buf_def)
  have "\<not> cfg_cdc ?cfg" "cfg_block ?cfg = 4096" by (simp_all add: demo_cfg_def)
  from dedup_report_measures [OF this refl, of ?files "''d''" "[''a'', ''b'']" "()"] show ?thesis
    unfolding b by (auto simp: a p numeral_3_eq_3)
qed

end
