(* ===== verification/Timeline_View.thy ===== *)
theory Timeline_View
  imports Engine_Properties
begin

text \<open>
  \<open>klad log\<close> (\<open>render_timeline\<close> of \<open>spikes/engine/klad\<close>): the timeline of a run drawn as a tree. The lines
  are data; their indentation, symbols and megabytes are formatting. The recursion over children gets
  fuel, and one more than the number of snapshots is shown to be enough on the timelines the engine
  produces.
\<close>

section \<open>Drawing\<close>

datatype line =
    RunLine string
  | GenesisLine string string                 \<comment> \<open>instance, state\<close>
  | SnapLine nat string json nat              \<comment> \<open>depth, id, label, size in bytes\<close>
  | ForkLine nat string string string         \<comment> \<open>depth, instance, branch, state\<close>

definition kids_of :: "snapshot_row list \<Rightarrow> string option \<Rightarrow> snapshot_row list" where
  "kids_of ss parent = filter (\<lambda>s. sn_parent s = parent) ss"

definition attached :: "instance_row list \<Rightarrow> string \<Rightarrow> instance_row list" where
  "attached is sid = filter (\<lambda>i. in_snapshot i = Some sid) is"

definition snap_lines :: "instance_row list \<Rightarrow> nat \<Rightarrow> snapshot_row \<Rightarrow> line list" where
  "snap_lines is depth s =
     SnapLine depth (sn_id s) (sn_label s) (sn_size s) #
     map (\<lambda>i. ForkLine depth (in_id i) (in_branch i) (in_state i)) (attached is (sn_id s))"

text \<open>One list after the other, if none of them failed.\<close>

fun sequence :: "'a list option list \<Rightarrow> 'a list option" where
  "sequence [] = Some []"
| "sequence (x # xs) = (case x of None \<Rightarrow> None | Some a \<Rightarrow> map_option (\<lambda>b. a @ b) (sequence xs))"

text \<open>\<open>walk\<close>; \<open>None\<close> is running out of fuel.\<close>

fun draw_tree :: "nat \<Rightarrow> snapshot_row list \<Rightarrow> instance_row list \<Rightarrow> string option \<Rightarrow> nat \<Rightarrow> line list option" where
  "draw_tree 0 ss is parent depth = None"
| "draw_tree (Suc n) ss is parent depth =
     sequence (map (\<lambda>s. map_option (\<lambda>rest. snap_lines is depth s @ rest) (draw_tree n ss is (Some (sn_id s)) (depth + 1)))
       (kids_of ss parent))"

definition render_timeline :: "nat \<Rightarrow> string \<Rightarrow> snapshot_row list \<Rightarrow> instance_row list \<Rightarrow> line list option" where
  "render_timeline n run_id ss is =
     map_option (\<lambda>tree. RunLine run_id #
         map (\<lambda>g. GenesisLine (in_id g) (in_state g)) (filter (\<lambda>i. in_branch i = ''genesis'') is) @ tree)
       (draw_tree n ss is None 0)"

definition shown :: "line list \<Rightarrow> string list" where
  "shown ls = concat (map (\<lambda>l. case l of SnapLine _ sid _ _ \<Rightarrow> [sid] | _ \<Rightarrow> []) ls)"

lemma shown_append [simp]: "shown (a @ b) = shown a @ shown b" "shown [] = []"
  by (simp_all add: shown_def)

lemma shown_snap_lines [simp]: "shown (snap_lines is depth s) = [sn_id s]"
proof -
  have "concat (map (\<lambda>l. case l of SnapLine _ sid _ _ \<Rightarrow> [sid] | _ \<Rightarrow> []) (map (\<lambda>i. ForkLine depth (in_id i) (in_branch i) (in_state i)) xs)) = []"
    for xs :: "instance_row list" by (induction xs) simp_all
  then show ?thesis by (simp add: shown_def snap_lines_def)
qed

lemma sequence_Some:
  "sequence (map f ks) = Some ls \<longleftrightarrow> (\<exists>lss. map f ks = map Some lss \<and> ls = concat lss)"
proof (induction ks arbitrary: ls)
  case (Cons k ks)
  show ?case
  proof (cases "f k")
    case None
    then show ?thesis by (auto simp: Cons_eq_map_conv)
  next
    case (Some a)
    then show ?thesis using Cons by (auto simp: Cons_eq_map_conv)
  qed
qed auto

section \<open>Enough fuel\<close>

text \<open>
  The rows come in the order of their \<open>created_at\<close>, which need not be the order in which they were
  inserted, so the lineage is that of some reordering \<open>old\<close> of them.
\<close>

definition tree_by :: "snapshot_row list \<Rightarrow> snapshot_row list \<Rightarrow> bool" where
  "tree_by old ss \<longleftrightarrow> distinct (map sn_id ss) \<and> mset old = mset ss \<and> lineage [] old"

definition tree_ok :: "snapshot_row list \<Rightarrow> bool" where
  "tree_ok ss \<longleftrightarrow> (\<exists>old. tree_by old ss)"

definition parents :: "snapshot_row list \<Rightarrow> (string \<times> string) set" where
  "parents ss = {(p, sn_id s) | p s. s \<in> set ss \<and> sn_parent s = Some p}"

lemma tree_by_facts:
  assumes "tree_by old ss"
  shows "set old = set ss" "length old = length ss" "distinct (map sn_id old)" "lineage [] old"
proof -
  have "mset (map sn_id old) = mset (map sn_id ss)" using assms by (simp add: tree_by_def)
  then show "distinct (map sn_id old)" using assms mset_eq_imp_distinct_iff [of "map sn_id old" "map sn_id ss"] by (simp add: tree_by_def)
qed (use assms in \<open>auto simp: tree_by_def dest: mset_eq_setD mset_eq_length\<close>)

lemma tree_ok_distinct: "tree_ok ss \<Longrightarrow> distinct (map sn_id ss)"
  by (auto simp: tree_ok_def tree_by_def)

lemma parent_position:
  assumes "tree_by old ss" "s \<in> set ss" "sn_parent s = Some p"
  shows "position p old < position (sn_id s) old \<and> p \<in> sn_id ` set ss"
proof -
  note t = tree_by_facts [OF assms(1)]
  obtain pre post where old: "old = pre @ s # post" "p \<in> sn_id ` set pre"
    using lineage_parent [of "[]" old s p] assms t by auto
  then have "sn_id s \<notin> sn_id ` set pre" using t(3) by auto
  with old position_less [OF old(2)] have "position p old < position (sn_id s) old" by (simp add: position_append)
  moreover have "p \<in> sn_id ` set ss" using old t(1) by (metis UnCI image_Un set_append)
  ultimately show ?thesis by blast
qed

lemma position_bound: "tree_by old ss \<Longrightarrow> s \<in> set ss \<Longrightarrow> position (sn_id s) old < length ss"
  using tree_by_facts(1,2) by (metis image_eqI position_less)

lemma draw_tree_enough:
  assumes "tree_by old ss"
  shows "(case parent of None \<Rightarrow> length ss | Some p \<Rightarrow> length ss - Suc (position p old)) < n \<Longrightarrow>
    \<exists>ls. draw_tree n ss is parent depth = Some ls"
proof (induction n arbitrary: parent depth)
  case (Suc n)
  have "\<exists>ls. draw_tree n ss is (Some (sn_id s)) (depth + 1) = Some ls" if "s \<in> set (kids_of ss parent)" for s
  proof -
    have s: "s \<in> set ss" "sn_parent s = parent" using that by (auto simp: kids_of_def)
    have "length ss - Suc (position (sn_id s) old) < n"
      using Suc.prems position_bound [OF assms s(1)] parent_position [OF assms s(1)] s(2)
      by (cases parent) (auto simp: less_Suc_eq_le)
    with Suc.IH [of "Some (sn_id s)"] show ?thesis by simp
  qed
  then have "\<forall>s \<in> set (kids_of ss parent). \<exists>ls. map_option (\<lambda>rest. snap_lines is depth s @ rest)
      (draw_tree n ss is (Some (sn_id s)) (depth + 1)) = Some ls" by fastforce
  then obtain g where "\<forall>s \<in> set (kids_of ss parent). map_option (\<lambda>rest. snap_lines is depth s @ rest)
      (draw_tree n ss is (Some (sn_id s)) (depth + 1)) = Some (g s)" by metis
  then have "map (\<lambda>s. map_option (\<lambda>rest. snap_lines is depth s @ rest) (draw_tree n ss is (Some (sn_id s)) (depth + 1)))
      (kids_of ss parent) = map Some (map g (kids_of ss parent))" by simp
  then show ?case unfolding draw_tree.simps sequence_Some by metis
qed simp

section \<open>Every snapshot once\<close>

lemma parents_wf: "tree_ok ss \<Longrightarrow> wf (parents ss)"
proof -
  assume "tree_ok ss"
  then obtain old where t: "tree_by old ss" by (auto simp: tree_ok_def)
  have "parents ss \<subseteq> measure (\<lambda>k. position k old)"
    using parent_position [OF t] by (auto simp: parents_def)
  then show ?thesis by (rule wf_subset [OF wf_measure])
qed

lemma parents_single: "tree_ok ss \<Longrightarrow> single_valued ((parents ss)\<inverse>)"
proof -
  assume t: "tree_ok ss"
  then have "s = s'" if "s \<in> set ss" "s' \<in> set ss" "sn_id s = sn_id s'" for s s'
    using that tree_ok_distinct by (auto simp: distinct_map inj_on_def)
  then show ?thesis unfolding single_valued_def parents_def by fastforce
qed

text \<open>The ids of the subtrees below a parent.\<close>

definition below :: "snapshot_row list \<Rightarrow> string option \<Rightarrow> string set" where
  "below ss parent = {x. \<exists>k \<in> set (kids_of ss parent). (sn_id k, x) \<in> (parents ss)\<^sup>*}"

lemma kids_child: "k \<in> set (kids_of ss (Some p)) \<Longrightarrow> (p, sn_id k) \<in> parents ss"
  by (auto simp: kids_of_def parents_def)

lemma below_Some: "tree_ok ss \<Longrightarrow> below ss (Some p) = {x. (p, x) \<in> (parents ss)\<^sup>+}"
proof -
  assume t: "tree_ok ss"
  show ?thesis
  proof (intro set_eqI iffI)
    fix x
    assume "x \<in> below ss (Some p)"
    then show "x \<in> {x. (p, x) \<in> (parents ss)\<^sup>+}" using kids_child unfolding below_def by (fastforce intro: rtrancl_into_trancl2)
  next
    fix x
    assume "x \<in> {x. (p, x) \<in> (parents ss)\<^sup>+}"
    then obtain c where "(p, c) \<in> parents ss" "(c, x) \<in> (parents ss)\<^sup>*" using tranclD by fastforce
    then show "x \<in> below ss (Some p)" by (auto simp: below_def parents_def kids_of_def)
  qed
qed

lemma below_step: "tree_ok ss \<Longrightarrow> below ss parent = (\<Union>k \<in> set (kids_of ss parent). insert (sn_id k) (below ss (Some (sn_id k))))"
proof -
  assume t: "tree_ok ss"
  have "{x. (sn_id k, x) \<in> (parents ss)\<^sup>*} = insert (sn_id k) (below ss (Some (sn_id k)))" for k
    using below_Some [OF t, of "sn_id k"] by (auto dest: rtranclD)
  then show ?thesis unfolding below_def by blast
qed

text \<open>Different children of one parent have disjoint subtrees.\<close>

lemma subtrees_disjoint:
  assumes t: "tree_ok ss" and k: "k1 \<in> set (kids_of ss parent)" "k2 \<in> set (kids_of ss parent)" "sn_id k1 \<noteq> sn_id k2"
  shows "\<not> ((sn_id k1, x) \<in> (parents ss)\<^sup>* \<and> (sn_id k2, x) \<in> (parents ss)\<^sup>*)"
proof
  assume x: "(sn_id k1, x) \<in> (parents ss)\<^sup>* \<and> (sn_id k2, x) \<in> (parents ss)\<^sup>*"
  have no: False if "(sn_id a, sn_id b) \<in> (parents ss)\<^sup>*" "sn_id a \<noteq> sn_id b"
      "a \<in> set (kids_of ss parent)" "b \<in> set (kids_of ss parent)" for a b
  proof -
    have "(sn_id a, sn_id b) \<in> (parents ss)\<^sup>+" using that(1,2) by (auto dest: rtranclD)
    then obtain c where c: "(sn_id a, c) \<in> (parents ss)\<^sup>*" "(c, sn_id b) \<in> parents ss" using tranclD2 by fastforce
    then obtain b' where "b' \<in> set ss" "sn_id b' = sn_id b" "sn_parent b' = Some c" by (auto simp: parents_def)
    moreover have "b \<in> set ss" "sn_parent b = parent" using that(4) by (auto simp: kids_of_def)
    ultimately have "parent = Some c" using tree_ok_distinct [OF t] by (auto simp: distinct_map inj_on_def)
    then have "(c, sn_id a) \<in> parents ss" using that(3) kids_child by blast
    with c(1) have "(c, c) \<in> (parents ss)\<^sup>+" by (meson rtrancl_into_trancl2)
    with wf_acyclic [OF parents_wf [OF t]] show False by (simp add: acyclic_def)
  qed
  have "(x, sn_id k1) \<in> ((parents ss)\<inverse>)\<^sup>*" "(x, sn_id k2) \<in> ((parents ss)\<inverse>)\<^sup>*" using x by (simp_all add: rtrancl_converse)
  from single_valued_confluent [OF parents_single [OF t] this]
  have "(sn_id k1, sn_id k2) \<in> (parents ss)\<^sup>* \<or> (sn_id k2, sn_id k1) \<in> (parents ss)\<^sup>*" by (auto simp: rtrancl_converse)
  with no [of k1 k2] no [of k2 k1] k show False by auto
qed

lemma distinct_kids: "tree_ok ss \<Longrightarrow> distinct (map sn_id (kids_of ss parent))"
  using tree_ok_distinct by (simp add: kids_of_def distinct_map_filter)

lemma shown_concat: "shown (concat lss) = concat (map shown lss)"
  by (induction lss) simp_all

lemma draw_tree_shows:
  assumes "tree_ok ss"
  shows "draw_tree n ss is parent depth = Some ls \<Longrightarrow> set (shown ls) = below ss parent \<and> distinct (shown ls)"
proof (induction n arbitrary: parent depth ls)
  case (Suc n)
  let ?ks = "kids_of ss parent"
  let ?d = "\<lambda>s. draw_tree n ss is (Some (sn_id s)) (depth + 1)"
  obtain lss where lss: "map (\<lambda>s. map_option (\<lambda>rest. snap_lines is depth s @ rest) (?d s)) ?ks = map Some lss" "ls = concat lss"
    using iffD1 [OF sequence_Some Suc.prems [unfolded draw_tree.simps]] by blast
  have len: "length lss = length ?ks" using arg_cong [OF lss(1), of length] by simp
  have each: "set (shown (lss ! i)) = {x. (sn_id (?ks ! i), x) \<in> (parents ss)\<^sup>*} \<and> distinct (shown (lss ! i))"
    if i: "i < length ?ks" for i
  proof -
    have "map_option (\<lambda>rest. snap_lines is depth (?ks ! i) @ rest) (?d (?ks ! i)) = Some (lss ! i)"
    proof -
      have "map (\<lambda>s. map_option (\<lambda>rest. snap_lines is depth s @ rest) (?d s)) ?ks ! i = map Some lss ! i"
        unfolding lss(1) ..
      with i len show ?thesis by (simp only: nth_map)
    qed
    then obtain rest where r: "?d (?ks ! i) = Some rest" "lss ! i = snap_lines is depth (?ks ! i) @ rest" by auto
    from Suc.IH [OF r(1)] below_Some [OF assms, of "sn_id (?ks ! i)"]
    have rest: "set (shown rest) = {x. (sn_id (?ks ! i), x) \<in> (parents ss)\<^sup>+}" "distinct (shown rest)" by auto
    have "(sn_id (?ks ! i), sn_id (?ks ! i)) \<notin> (parents ss)\<^sup>+"
      using wf_acyclic [OF parents_wf [OF assms]] by (simp add: acyclic_def)
    moreover have "{x. (k, x) \<in> (parents ss)\<^sup>*} = insert k {x. (k, x) \<in> (parents ss)\<^sup>+}" for k
      by (auto simp: rtrancl_eq_or_trancl)
    moreover have "shown (lss ! i) = sn_id (?ks ! i) # shown rest" using r(2) by simp
    ultimately show ?thesis using rest by simp
  qed
  have "set (shown ls) = below ss parent"
  proof -
    have "set (shown ls) = (\<Union>i < length ?ks. set (shown (lss ! i)))"
    proof -
      have "set (shown ls) = (\<Union>l \<in> set lss. set (shown l))" by (simp add: lss(2) shown_concat)
      also have "set lss = (\<lambda>i. lss ! i) ` {..<length ?ks}" using len by (auto simp: in_set_conv_nth)
      finally show ?thesis by simp
    qed
    also have "\<dots> = (\<Union>i < length ?ks. {x. (sn_id (?ks ! i), x) \<in> (parents ss)\<^sup>*})" using each by auto
    also have "\<dots> = below ss parent" unfolding below_def set_conv_nth by blast
    finally show ?thesis .
  qed
  moreover have "distinct (shown ls)"
  proof -
    have none: "set (shown (lss ! i)) \<inter> set (shown (lss ! j)) = {}" if ij: "i < length ?ks" "j < length ?ks" "i \<noteq> j" for i j
    proof -
      have "sn_id (?ks ! i) \<noteq> sn_id (?ks ! j)"
        using distinct_kids [OF assms, of parent] ij by (simp add: distinct_conv_nth)
      from subtrees_disjoint [OF assms nth_mem [OF ij(1)] nth_mem [OF ij(2)] this] each [OF ij(1)] each [OF ij(2)]
      show ?thesis by blast
    qed
    have dis: "set ys \<inter> set zs = {}" if "ys \<in> set (map shown lss)" "zs \<in> set (map shown lss)" "ys \<noteq> zs" for ys zs
    proof -
      obtain i j where "i < length ?ks" "ys = shown (lss ! i)" "j < length ?ks" "zs = shown (lss ! j)"
        using \<open>ys \<in> set (map shown lss)\<close> \<open>zs \<in> set (map shown lss)\<close> len by (auto simp: in_set_conv_nth)
      with none [of i j] \<open>ys \<noteq> zs\<close> show ?thesis by (cases "i = j") auto
    qed
    have "map shown lss ! i \<noteq> map shown lss ! j" if "i < length ?ks" "j < length ?ks" "i \<noteq> j" for i j
    proof
      assume eq: "map shown lss ! i = map shown lss ! j"
      have "sn_id (?ks ! i) \<in> set (shown (lss ! i))" using each [OF that(1)] by simp
      moreover have "shown (lss ! i) = shown (lss ! j)" using eq that len by simp
      ultimately show False using none [OF that] by auto
    qed
    then have "distinct (map shown lss)" using len by (simp add: distinct_conv_nth)
    moreover have "\<forall>xs \<in> set (map shown lss). distinct xs" using each len by (auto simp: in_set_conv_nth)
    ultimately show ?thesis using dis by (simp only: lss(2) shown_concat) (rule distinct_concat, blast+)
  qed
  ultimately show ?case by blast
qed simp

section \<open>On the timelines the engine returns\<close>

lemma parents_grounded:
  assumes t: "tree_ok ss" and s: "s \<in> set ss"
  shows "sn_id s \<in> below ss None"
proof -
  have "\<forall>s \<in> set ss. sn_id s = k \<longrightarrow> k \<in> below ss None" for k
  proof (induction k rule: wf_induct_rule [OF parents_wf [OF t]])
    case (1 k)
    show ?case
    proof (intro ballI impI)
      fix s
      assume s: "s \<in> set ss" "sn_id s = k"
      show "k \<in> below ss None"
      proof (cases "sn_parent s")
        case None
        with s show ?thesis by (auto simp: below_def kids_of_def)
      next
        case (Some p)
        obtain old where old: "tree_by old ss" using t by (auto simp: tree_ok_def)
        obtain r where "r \<in> set ss" "sn_id r = p" using parent_position [OF old s(1) Some] by auto
        moreover have e: "(p, k) \<in> parents ss" using s Some by (auto simp: parents_def)
        ultimately have "p \<in> below ss None" using 1 by blast
        with e show ?thesis by (auto simp: below_def intro: rtrancl_into_rtrancl)
      qed
    qed
  qed
  with s show ?thesis by blast
qed

lemma below_None: "tree_ok ss \<Longrightarrow> below ss None = sn_id ` set ss"
proof
  assume t: "tree_ok ss"
  show "sn_id ` set ss \<subseteq> below ss None" using parents_grounded [OF t] by blast
  show "below ss None \<subseteq> sn_id ` set ss"
  proof
    fix x
    assume "x \<in> below ss None"
    then obtain k where k: "k \<in> set (kids_of ss None)" "(sn_id k, x) \<in> (parents ss)\<^sup>*" by (auto simp: below_def)
    from k(2) show "x \<in> sn_id ` set ss"
      by (cases rule: rtranclE) (use k(1) in \<open>auto simp: kids_of_def parents_def\<close>)
  qed
qed

lemma lineage_filter: "lineage older ss \<Longrightarrow>
    lineage (filter (\<lambda>s. sn_run s = r) older) (filter (\<lambda>s. sn_run s = r) ss)"
proof (induction ss arbitrary: older)
  case (Cons s ss)
  from Cons.prems Cons.IH [of "older @ [s]"] show ?case
    by (auto simp: parent_ok_def split: option.splits)
qed simp

definition run_snapshots :: "tables \<Rightarrow> string \<Rightarrow> snapshot_row list" where
  "run_snapshots db run_id = order_by sn_created (filter (\<lambda>s. sn_run s = run_id) (t_snapshots db))"

definition run_instances :: "tables \<Rightarrow> string \<Rightarrow> instance_row list" where
  "run_instances db run_id = filter (\<lambda>i. in_run i = run_id) (t_instances db)"

lemma run_snapshots_tree:
  assumes "db_ok db"
  shows "tree_ok (run_snapshots db run_id)"
proof -
  let ?old = "filter (\<lambda>s. sn_run s = run_id) (t_snapshots db)"
  have m: "mset ?old = mset (run_snapshots db run_id)" by (simp add: run_snapshots_def order_by_def)
  have "distinct (map sn_id ?old)" using assms by (simp add: db_ok_def distinct_map_filter)
  moreover have "mset (map sn_id ?old) = mset (map sn_id (run_snapshots db run_id))" by (simp only: mset_map m)
  ultimately have d: "distinct (map sn_id (run_snapshots db run_id))" using mset_eq_imp_distinct_iff by blast
  have "lineage [] ?old" using lineage_filter [of "[]"] assms by (simp add: db_ok_def)
  with m d show ?thesis unfolding tree_ok_def tree_by_def by blast
qed

lemma shown_genesis [simp]: "shown (RunLine r # ls) = shown ls"
    "shown (map (\<lambda>g. GenesisLine (in_id g) (in_state g)) gs) = []"
  by (induction gs) (simp_all add: shown_def)

text \<open>
  \<open>klad log\<close> draws the whole timeline: for a run of a well-formed database \<open>render_timeline\<close> returns
  (its recursion is never deeper than the number of snapshots), and among its lines every snapshot of
  the run is printed exactly once and nothing else is.
\<close>

lemma log_prints_every_snapshot_once:
  assumes "db_ok db"
  shows "\<exists>ls. render_timeline (length (run_snapshots db run_id) + 1) run_id (run_snapshots db run_id) (run_instances db run_id) = Some ls \<and>
    distinct (shown ls) \<and> set (shown ls) = {sn_id s | s. s \<in> set (t_snapshots db) \<and> sn_run s = run_id}"
proof -
  let ?ss = "run_snapshots db run_id" and ?is = "run_instances db run_id"
  have t: "tree_ok ?ss" by (rule run_snapshots_tree [OF assms])
  then obtain old where "tree_by old ?ss" by (auto simp: tree_ok_def)
  from draw_tree_enough [OF this, of None "length ?ss + 1"] obtain ls
    where ls: "draw_tree (length ?ss + 1) ?ss ?is None 0 = Some ls" by auto
  have "set ?ss = {s \<in> set (t_snapshots db). sn_run s = run_id}" by (simp add: run_snapshots_def order_by_def)
  with draw_tree_shows [OF t ls] below_None [OF t]
  have "distinct (shown ls)" "set (shown ls) = {sn_id s | s. s \<in> set (t_snapshots db) \<and> sn_run s = run_id}" by auto
  then show ?thesis unfolding render_timeline_def ls option.map by (intro exI conjI) (rule refl, simp_all)
qed

end
