(* ===== verification/Klad.thy ===== *)
theory Klad
  imports Timeline_View Sdk
begin

text \<open>
  The command line \<open>spikes/engine/klad\<close>: \<open>call\<close>, the commands of \<open>main\<close> after the arguments are parsed,
  and \<open>klad log\<close> from the request to the drawing. What is printed is data; a field of another type than
  the daemon ever sends counts as an error.
\<close>

section \<open>Calls\<close>

text \<open>The errors of the server and of the connection are printed, and the program ends with status 1.\<close>

definition klad_call :: "'s client \<Rightarrow> string \<Rightarrow> string \<Rightarrow> json option \<Rightarrow> 's \<Rightarrow> (exn + json) \<times> 's" where
  "klad_call C meth path body s =
     (case cl_send C meth path (cl_key C) (map_option (dumps (cl_codec C)) body) s of
        (Answered status text, s') \<Rightarrow>
          (if 200 \<le> status \<and> status < 300 then loads (cl_codec C) text
           else Inl (SystemExit (''error: '' @ text)), s')
      | (Unreachable why, s') \<Rightarrow> (Inl (SystemExit ''error: cannot reach kladosd''), s')
      | (Broken e, s') \<Rightarrow> (Inl e, s'))"

lemma klad_call_served: "sdk_call C meth path body s = (Inr j, s') \<Longrightarrow> klad_call C meth path body s = (Inr j, s')"
  by (auto simp: sdk_call_def klad_call_def split: prod.splits http_outcome.splits if_splits)

section \<open>Reading a timeline\<close>

fun collect :: "('a \<Rightarrow> exn + 'b) \<Rightarrow> 'a list \<Rightarrow> exn + 'b list" where
  "collect f [] = Inr []"
| "collect f (x # xs) =
     (case f x of Inl e \<Rightarrow> Inl e | Inr y \<Rightarrow> (case collect f xs of Inl e \<Rightarrow> Inl e | Inr ys \<Rightarrow> Inr (y # ys)))"

definition as_text :: "json \<Rightarrow> exn + string" where
  "as_text j = (case j of JStr s \<Rightarrow> Inr s | _ \<Rightarrow> Inl (TypeError ''string expected''))"

definition as_opt :: "json \<Rightarrow> exn + string option" where
  "as_opt j = (case j of JNull \<Rightarrow> Inr None | JStr s \<Rightarrow> Inr (Some s) | _ \<Rightarrow> Inl (TypeError ''string expected''))"

text \<open>\<open>s["size_bytes"] or 0\<close>\<close>

definition as_size :: "json \<Rightarrow> exn + nat" where
  "as_size j = (case j of JNull \<Rightarrow> Inr 0 | JInt i \<Rightarrow> Inr (nat i) | _ \<Rightarrow> Inl (TypeError ''number expected''))"

definition field :: "(json \<Rightarrow> exn + 'a) \<Rightarrow> json \<Rightarrow> string \<Rightarrow> exn + 'a" where
  "field f j k = (case at_key j k of Inl e \<Rightarrow> Inl e | Inr v \<Rightarrow> f v)"

definition drawn_snapshot :: "string \<Rightarrow> string option \<Rightarrow> json \<Rightarrow> nat \<Rightarrow> snapshot_row" where
  "drawn_snapshot sid parent label n =
     \<lparr>sn_id = sid, sn_run = [], sn_parent = parent, sn_label = label, sn_snap_path = [], sn_mem_path = [],
      sn_size = n, sn_created = 0\<rparr>"

definition drawn_instance :: "string \<Rightarrow> string option \<Rightarrow> string \<Rightarrow> string \<Rightarrow> instance_row" where
  "drawn_instance iid snap state branch =
     \<lparr>in_id = iid, in_run = [], in_snapshot = snap, in_state = state, in_branch = branch, in_created = 0\<rparr>"

definition snapshot_of_json :: "json \<Rightarrow> exn + snapshot_row" where
  "snapshot_of_json j =
     (case field as_opt j ''parent_id'' of Inl e \<Rightarrow> Inl e | Inr p \<Rightarrow>
     (case field as_size j ''size_bytes'' of Inl e \<Rightarrow> Inl e | Inr n \<Rightarrow>
     (case field as_text j ''id'' of Inl e \<Rightarrow> Inl e | Inr i \<Rightarrow>
     (case at_key j ''label'' of Inl e \<Rightarrow> Inl e | Inr l \<Rightarrow> Inr (drawn_snapshot i p l n)))))"

definition instance_of_json :: "json \<Rightarrow> exn + instance_row" where
  "instance_of_json j =
     (case field as_opt j ''snapshot_id'' of Inl e \<Rightarrow> Inl e | Inr p \<Rightarrow>
     (case field as_text j ''branch'' of Inl e \<Rightarrow> Inl e | Inr b \<Rightarrow>
     (case field as_text j ''id'' of Inl e \<Rightarrow> Inl e | Inr i \<Rightarrow>
     (case field as_text j ''state'' of Inl e \<Rightarrow> Inl e | Inr st \<Rightarrow> Inr (drawn_instance i p st b)))))"

definition rows_of :: "(json \<Rightarrow> exn + 'r) \<Rightarrow> json \<Rightarrow> string \<Rightarrow> exn + 'r list" where
  "rows_of f t k = (case field elements t k of Inl e \<Rightarrow> Inl e | Inr js \<Rightarrow> collect f js)"

text \<open>\<open>render_timeline\<close> of the answer; running out of stack is Python's \<open>RecursionError\<close>.\<close>

definition render_json :: "json \<Rightarrow> exn + line list" where
  "render_json t =
     (case rows_of snapshot_of_json t ''snapshots'' of Inl e \<Rightarrow> Inl e | Inr ss \<Rightarrow>
     (case rows_of instance_of_json t ''instances'' of Inl e \<Rightarrow> Inl e | Inr is \<Rightarrow>
     (case field as_text t ''run_id'' of Inl e \<Rightarrow> Inl e | Inr rid \<Rightarrow>
     (case render_timeline (length ss + 1) rid ss is of
        None \<Rightarrow> Inl (RuntimeError ''maximum recursion depth exceeded'')
      | Some ls \<Rightarrow> Inr ls))))"

section \<open>Commands\<close>

datatype klad_command =
    CmdRun string | CmdSnapshot string string | CmdFork string int | CmdLog string | CmdDiff string string | CmdRuns | CmdUsage

datatype klad_line =
    RunStarted json json | SnapshotTaken json json | ForkedCount nat | ChildLine json json | Drawn line
  | DiffError json | Added json | Removed json | Changed json | NoChanges | RunEntry json json | UsageLine string json

definition pair_of :: "(json \<Rightarrow> json \<Rightarrow> 'a) \<Rightarrow> string \<Rightarrow> string \<Rightarrow> json \<Rightarrow> exn + 'a" where
  "pair_of c k l j =
     (case at_key j k of Inl e \<Rightarrow> Inl e | Inr x \<Rightarrow> (case at_key j l of Inl e \<Rightarrow> Inl e | Inr y \<Rightarrow> Inr (c x y)))"

definition diff_lines :: "json \<Rightarrow> exn + klad_line list" where
  "diff_lines d =
     (case json_get d ''error'' of Inl e \<Rightarrow> Inl e | Inr err \<Rightarrow>
      if (case err of None \<Rightarrow> False | Some v \<Rightarrow> json_truth v) then Inr [DiffError (json_field d ''error'')]
      else
       (case field elements d ''added'' of Inl e \<Rightarrow> Inl e | Inr a \<Rightarrow>
       (case field elements d ''removed'' of Inl e \<Rightarrow> Inl e | Inr r \<Rightarrow>
       (case field elements d ''modified'' of Inl e \<Rightarrow> Inl e | Inr m \<Rightarrow>
          Inr (map Added a @ map Removed r @ map Changed m @ (if a = [] \<and> r = [] \<and> m = [] then [NoChanges] else []))))))"

definition usage_lines :: "json \<Rightarrow> exn + klad_line list" where
  "usage_lines u =
     collect (\<lambda>k. case at_key u k of Inl e \<Rightarrow> Inl e | Inr v \<Rightarrow> Inr (UsageLine k v))
       [''vcpu_hours'', ''ram_gib_hours'', ''stored_bytes'', ''estimated_cost_usd'']"

fun klad_request :: "klad_command \<Rightarrow> string \<times> string \<times> json option" where
  "klad_request (CmdRun img) = (''POST'', ''/v1/runs'', Some (JObj [(''image'', JStr img)]))"
| "klad_request (CmdSnapshot i label) = (''POST'', ''/v1/instances/'' @ i @ ''/snapshot'', Some (JObj [(''label'', JStr label)]))"
| "klad_request (CmdFork s n) = (''POST'', ''/v1/snapshots/'' @ s @ ''/fork'', Some (JObj [(''n'', JInt n)]))"
| "klad_request (CmdLog r) = (''GET'', ''/v1/runs/'' @ r @ ''/timeline'', None)"
| "klad_request (CmdDiff a b) = (''GET'', ''/v1/snapshots/'' @ a @ ''/diff/'' @ b, None)"
| "klad_request CmdRuns = (''GET'', ''/v1/runs'', None)"
| "klad_request CmdUsage = (''GET'', ''/v1/usage'', None)"

fun klad_output :: "klad_command \<Rightarrow> json \<Rightarrow> exn + klad_line list" where
  "klad_output (CmdRun img) r = map_sum id (\<lambda>x. [x]) (pair_of RunStarted ''run_id'' ''instance_id'' r)"
| "klad_output (CmdSnapshot i label) r = map_sum id (\<lambda>x. [x]) (pair_of SnapshotTaken ''snapshot_id'' ''size_bytes'' r)"
| "klad_output (CmdFork s n) r =
     (case field elements r ''children'' of Inl e \<Rightarrow> Inl e | Inr cs \<Rightarrow>
        map_sum id (\<lambda>ls. ForkedCount (length cs) # ls) (collect (pair_of ChildLine ''instance_id'' ''branch'') cs))"
| "klad_output (CmdLog run) t = map_sum id (map Drawn) (render_json t)"
| "klad_output (CmdDiff a b) d = diff_lines d"
| "klad_output CmdRuns r = rows_of (pair_of RunEntry ''id'' ''image'') r ''runs''"
| "klad_output CmdUsage u = usage_lines u"

definition klad :: "'s client \<Rightarrow> klad_command \<Rightarrow> 's \<Rightarrow> (exn + klad_line list) \<times> 's" where
  "klad C cmd =
     (case klad_request cmd of (meth, path, body) \<Rightarrow>
        andthen (klad_call C meth path body) (\<lambda>r. lift_sum (klad_output cmd r)))"

section \<open>A timeline through the API\<close>

lemma collect_map: "\<forall>x \<in> set xs. f (g x) = Inr (h x) \<Longrightarrow> collect f (map g xs) = Inr (map h xs)"
  by (induction xs) auto

text \<open>What drawing looks at of a row.\<close>

definition bare_snapshot :: "snapshot_row \<Rightarrow> snapshot_row" where
  "bare_snapshot s = drawn_snapshot (sn_id s) (sn_parent s) (sn_label s) (sn_size s)"

definition bare_instance :: "instance_row \<Rightarrow> instance_row" where
  "bare_instance i = drawn_instance (in_id i) (in_snapshot i) (in_state i) (in_branch i)"

lemma bare_simps [simp]:
  "sn_id (bare_snapshot s) = sn_id s" "sn_parent (bare_snapshot s) = sn_parent s"
  "sn_label (bare_snapshot s) = sn_label s" "sn_size (bare_snapshot s) = sn_size s"
  "in_id (bare_instance i) = in_id i" "in_snapshot (bare_instance i) = in_snapshot i"
  "in_state (bare_instance i) = in_state i" "in_branch (bare_instance i) = in_branch i"
  by (simp_all add: bare_snapshot_def bare_instance_def drawn_snapshot_def drawn_instance_def)

lemma bare_kids: "kids_of (map bare_snapshot ss) p = map bare_snapshot (kids_of ss p)"
  by (induction ss) (simp_all add: kids_of_def)

lemma bare_lines: "snap_lines (map bare_instance is) depth (bare_snapshot s) = snap_lines is depth s"
  by (simp add: snap_lines_def attached_def filter_map comp_def)

lemma bare_tree: "draw_tree n (map bare_snapshot ss) (map bare_instance is) p d = draw_tree n ss is p d"
  by (induction n arbitrary: p d) (simp_all add: bare_kids bare_lines comp_def)

lemma bare_render: "render_timeline n rid (map bare_snapshot ss) (map bare_instance is) = render_timeline n rid ss is"
  by (simp add: render_timeline_def bare_tree filter_map comp_def)

lemma as_opt_str: "as_opt (opt_str x) = Inr x"
  by (cases x) (simp_all add: as_opt_def opt_str_def)

lemma timeline_rendered:
  "\<exists>j. timeline rid w = (Inr j, w) \<and>
    render_json j = (case render_timeline (length (run_snapshots (w_db w) rid) + 1) rid (run_snapshots (w_db w) rid) (run_instances (w_db w) rid) of
      None \<Rightarrow> Inl (RuntimeError ''maximum recursion depth exceeded'') | Some ls \<Rightarrow> Inr ls)"
proof -
  let ?ss = "run_snapshots (w_db w) rid" and ?is = "run_instances (w_db w) rid"
  let ?sj = "\<lambda>s. JObj [(''id'', JStr (sn_id s)), (''parent_id'', opt_str (sn_parent s)),
            (''label'', sn_label s), (''size_bytes'', JInt (int (sn_size s))), (''created_at'', JNum (sn_created s))]"
  let ?ij = "\<lambda>i. JObj [(''id'', JStr (in_id i)), (''snapshot_id'', opt_str (in_snapshot i)),
            (''state'', JStr (in_state i)), (''branch'', JStr (in_branch i))]"
  let ?j = "JObj [(''run_id'', JStr rid), (''snapshots'', JList (map ?sj ?ss)), (''instances'', JList (map ?ij ?is))]"
  have t: "timeline rid w = (Inr ?j, w)"
    by (simp add: timeline_def bind_connect ret_def run_snapshots_def run_instances_def)
  have "snapshot_of_json (?sj s) = Inr (bare_snapshot s)" for s
    by (simp add: snapshot_of_json_def field_def at_key_def as_opt_str as_size_def as_text_def bare_snapshot_def)
  then have s: "collect snapshot_of_json (map ?sj ?ss) = Inr (map bare_snapshot ?ss)" by (intro collect_map) simp
  have "instance_of_json (?ij i) = Inr (bare_instance i)" for i
    by (simp add: instance_of_json_def field_def at_key_def as_opt_str as_text_def bare_instance_def)
  then have i: "collect instance_of_json (map ?ij ?is) = Inr (map bare_instance ?is)" by (intro collect_map) simp
  have "render_json ?j = (case render_timeline (length ?ss + 1) rid ?ss ?is of
      None \<Rightarrow> Inl (RuntimeError ''maximum recursion depth exceeded'') | Some ls \<Rightarrow> Inr ls)"
    by (simp add: render_json_def rows_of_def field_def at_key_def elements_def as_text_def s i bare_render)
  with t show ?thesis by blast
qed

lemma klad_timeline:
  assumes "\<forall>j. codec_ok (pf_codec (ev_plat ev)) j" "CHR ''/'' \<notin> set rid"
    and "authed ev (daemon_request [] key None) w = Some pid" "project_of Runs rid (w_db w) = Some pid"
    and "timeline rid w = (Inr j, w)"
  shows "klad_call (daemon_client ev api key str) ''GET'' (''/v1/runs/'' @ rid @ ''/timeline'') None w = (Inr j, w)"
proof -
  let ?path = "''/v1/runs/'' @ rid @ ''/timeline''"
  have p: "path_parts ?path = [''v1'', ''runs'', rid, ''timeline'']"
    using path_three [of "''runs''" "''timeline''" rid] split_slash_plain [OF assms(2)] by simp
  have "get_route ev pid [''v1'', ''runs'', rid, ''timeline''] w = (Inr (Some j), w)"
    using assms(4,5) by (simp add: get_route_def bind_owner reply_ok)
  then have serve: "daemon_serve ev key ''GET'' ?path None w = ((200, j), w)"
    using assms(3) authed_path [of ev ?path key "[]"] by (simp add: daemon_serve_def do_GET_def Let_def p [simplified] answer_def)
  have "sdk_call (daemon_client ev api key str) ''GET'' ?path None w = (Inr j, w)"
    by (subst daemon.delivered [OF _ _ serve]) (simp_all add: assms(1))
  then show ?thesis by (rule klad_call_served)
qed



section \<open>Every command\<close>

lemma klad_daemon_call:
  assumes "\<forall>j. codec_ok (pf_codec (ev_plat ev)) j" "meth = ''GET'' \<and> body = None \<or> meth = ''POST'' \<and> body \<noteq> None"
  obtains (ok) status j w' where "klad_call (daemon_client ev api key str) meth path body w = (Inr j, w')"
      "daemon_serve ev key meth path body w = ((status, j), w')" "200 \<le> status" "status < 300"
    | (refused) t w' where "klad_call (daemon_client ev api key str) meth path body w = (Inl (SystemExit t), w')"
proof -
  obtain status j w' where serve: "daemon_serve ev key meth path body w = ((status, j), w')" by (metis prod.exhaust)
  have "daemon_send ev meth path key (map_option (dumps (pf_codec (ev_plat ev))) body) w
      = (Answered status (dumps (pf_codec (ev_plat ev)) j), w')"
    using assms(1) by (intro daemon_sent [OF _ assms(2) serve]) simp
  then have "klad_call (daemon_client ev api key str) meth path body w =
      (if 200 \<le> status \<and> status < 300 then Inr j else Inl (SystemExit (''error: '' @ dumps (pf_codec (ev_plat ev)) j)), w')"
    using assms(1) by (simp add: klad_call_def daemon_client_def codec_ok_def)
  with serve ok refused show thesis by (cases "200 \<le> status \<and> status < 300") auto
qed

text \<open>Stripping the end of a path does not reach over a character that is not a slash.\<close>

lemma dropWhile_stop: "\<not> P c \<Longrightarrow> dropWhile P (u @ c # v) = dropWhile P u @ c # v"
  by (induction u) auto

lemma rev_dropWhile_rev: "\<exists>n. rev (dropWhile P (rev y)) = take n y"
  by (metis dropWhile_eq_drop rev_drop rev_rev_ident)

lemma strip_keeps_front:
  assumes "c \<noteq> CHR ''/''"
  shows "\<exists>n. strip_slash (CHR ''/'' # a @ c # y) = strip_slash (a @ [c]) @ take n y"
proof -
  let ?slash = "\<lambda>x. x = CHR ''/''"
  obtain n where n: "rev (dropWhile ?slash (rev y)) = take n y" using rev_dropWhile_rev by blast
  have "strip_slash (CHR ''/'' # a @ c # y) = dropWhile ?slash a @ c # rev (dropWhile ?slash (rev y))"
    using assms by (simp add: strip_slash_def dropWhile_stop)
  moreover have "strip_slash (a @ [c]) = dropWhile ?slash a @ [c]"
    using assms by (simp add: strip_slash_def dropWhile_stop)
  ultimately show ?thesis using n by auto
qed

lemma path_diff:
  "\<exists>a0 ps. path_parts (''/v1/snapshots/'' @ a @ ''/diff/'' @ b) = ''v1'' # ''snapshots'' # a0 # ps"
proof -
  let ?front = "''v1/snapshots/'' @ a @ ''/dif''"
  obtain n where n: "strip_slash (CHR ''/'' # ?front @ CHR ''f'' # CHR ''/'' # b) = strip_slash (?front @ ''f'') @ take n (CHR ''/'' # b)"
    using strip_keeps_front [of "CHR ''f''" ?front "CHR ''/'' # b"] by auto
  have "strip_slash (?front @ ''f'') = ''v1'' @ CHR ''/'' # ''snapshots'' @ CHR ''/'' # a @ ''/diff''"
    by (simp add: strip_slash_def)
  with n have "path_parts (''/v1/snapshots/'' @ a @ ''/diff/'' @ b) =
      split_slash (''v1'' @ CHR ''/'' # ''snapshots'' @ CHR ''/'' # (a @ ''/diff'' @ take n (CHR ''/'' # b)))"
    by (simp add: path_parts_def)
  also have "\<dots> = split_slash ''v1'' @ split_slash ''snapshots'' @ split_slash (a @ ''/diff'' @ take n (CHR ''/'' # b))"
    by (simp only: split_slash_join)
  finally show ?thesis
    using split_slash_nonempty [of "a @ ''/diff'' @ take n (CHR ''/'' # b)"]
    by (cases "split_slash (a @ ''/diff'' @ take n (CHR ''/'' # b))") simp_all
qed

text \<open>A successful answer to a request for a difference is one of the two objects of \<open>fs_diff\<close>.\<close>

lemma fs_diff_reply:
  assumes "fs_diff ev a b h = (Inr j, h')"
  shows "j = JObj [(''error'', JStr ''one or both snapshots have no sealed disk layer'')] \<or>
    (\<exists>x y z. j = JObj [(''a'', JStr a), (''b'', JStr b), (''added'', str_list x), (''removed'', str_list y), (''modified'', str_list z)])"
  using assms by (auto simp: fs_diff_def Let_def ret_def split: if_splits prod.splits elim!: andthen_InrE; blast)

lemma diff_read:
  assumes "fs_diff ev a b h = (Inr j, h')"
  shows "\<exists>ls. diff_lines j = Inr ls"
  using fs_diff_reply [OF assms]
  by (auto simp: diff_lines_def json_truth_def field_def at_key_def elements_def str_list_def)

lemma served_diff:
  assumes "daemon_serve ev key ''GET'' (''/v1/snapshots/'' @ a @ ''/diff/'' @ b) None w = ((status, j), w')"
    and "200 \<le> status" "status < 300"
  shows "\<exists>x y h h'. fs_diff ev x y h = (Inr j, h')"
proof -
  obtain a0 ps where p: "path_parts (''/v1/snapshots/'' @ a @ ''/diff/'' @ b) = ''v1'' # ''snapshots'' # a0 # ps"
    using path_diff by blast
  obtain pid where a: "answer (get_route ev pid (''v1'' # ''snapshots'' # a0 # ps)) w = ((status, j), w')"
    using assms p by (auto simp: daemon_serve_def do_GET_def Let_def unauthorized_def split: option.splits)
  from answer_ok [OF a assms(2,3)] show ?thesis
    by (auto simp: get_route_def bind_owner reply_ok ret_def on_host_def split: if_splits prod.splits)
qed

text \<open>Reading the answer of a command that asks the daemon for what it prints.\<close>

lemma klad_reads:
  assumes "\<forall>j. codec_ok (pf_codec (ev_plat ev)) j" "klad_request cmd = (meth, path, body)"
    and "meth = ''GET'' \<and> body = None \<or> meth = ''POST'' \<and> body \<noteq> None"
    and "\<And>status j w'. daemon_serve ev key meth path body w = ((status, j), w') \<Longrightarrow> 200 \<le> status \<Longrightarrow> status < 300 \<Longrightarrow>
      \<exists>ls. klad_output cmd j = Inr ls"
  shows "(\<exists>ls. fst (klad (daemon_client ev api key str) cmd w) = Inr ls) \<or>
    (\<exists>msg. fst (klad (daemon_client ev api key str) cmd w) = Inl (SystemExit msg))"
proof (rule klad_daemon_call [OF assms(1,3)])
  fix status j w'
  assume c: "klad_call (daemon_client ev api key str) meth path body w = (Inr j, w')"
    and s: "daemon_serve ev key meth path body w = ((status, j), w')" "200 \<le> status" "status < 300"
  obtain ls where "klad_output cmd j = Inr ls" using assms(4) [OF s] by blast
  with c assms(2) show ?thesis by (simp add: klad_def andthen_def lift_sum_def)
next
  fix t w'
  assume "klad_call (daemon_client ev api key str) meth path body w = (Inl (SystemExit t), w')"
  with assms(2) show ?thesis by (simp add: klad_def andthen_def)
qed

lemma collect_total: "(\<And>x. x \<in> set xs \<Longrightarrow> \<exists>y. f x = Inr y) \<Longrightarrow> \<exists>ys. collect f xs = Inr ys"
  by (induction xs) fastforce+

lemma served_get:
  assumes "daemon_serve ev key ''GET'' path None w = ((status, j), w')" "200 \<le> status" "status < 300" "path_parts path \<noteq> [''health'']"
  obtains pid where "get_route ev pid (path_parts path) w = (Inr (Some j), w')"
proof -
  obtain pid where "answer (get_route ev pid (path_parts path)) w = ((status, j), w')"
    using assms by (auto simp: daemon_serve_def do_GET_def Let_def unauthorized_def split: option.splits)
  from answer_ok [OF this assms(2,3)] that show thesis by blast
qed

text \<open>What each command asks for has the fields it prints.\<close>

lemma run_read:
  assumes "daemon_serve ev key ''POST'' ''/v1/runs'' (Some (JObj [(''image'', JStr img)])) w = ((status, j), w')" "200 \<le> status" "status < 300"
  shows "\<exists>ls. klad_output (CmdRun img) j = Inr ls"
proof -
  obtain pid where "create_run ev pid (JStr img) w = (Inr j, w')" using served_run [OF assms] by blast
  then obtain rid iid where "j = JObj [(''run_id'', JStr rid), (''instance_id'', JStr iid)]" using create_run_effect by fastforce
  then show ?thesis by (simp add: pair_of_def at_key_def)
qed

lemma snapshot_read:
  assumes "daemon_serve ev key ''POST'' (''/v1/instances/'' @ i @ ''/snapshot'') (Some (JObj [(''label'', JStr label)])) w = ((status, j), w')"
    and "200 \<le> status" "status < 300"
  shows "\<exists>ls. klad_output (CmdSnapshot i label) j = Inr ls"
proof -
  have "snapshot_instance ev i (JStr label) w = (Inr j, w')" using served_snapshot [OF assms] by blast
  then obtain sid n p where "j = JObj [(''snapshot_id'', JStr sid), (''size_bytes'', JInt n), (''parent'', p)]" using snapshot_effect by fastforce
  then show ?thesis by (simp add: pair_of_def at_key_def)
qed

lemma fork_read:
  assumes "daemon_serve ev key ''POST'' (''/v1/snapshots/'' @ sid @ ''/fork'') (Some (JObj [(''n'', JInt n)])) w = ((status, j), w')"
    and "200 \<le> status" "status < 300"
  shows "\<exists>ls. klad_output (CmdFork sid n) j = Inr ls"
proof -
  have "fork_snapshot ev sid n w = (Inr j, w')" using served_fork [OF assms] by blast
  then obtain rows where j: "j = JObj [(''children'', JList (map child_json rows))]" using fork_effect by fastforce
  have "\<exists>ls. collect (pair_of ChildLine ''instance_id'' ''branch'') (map child_json rows) = Inr ls"
    by (rule collect_total) (auto simp: child_json_def pair_of_def at_key_def)
  with j show ?thesis by (auto simp: field_def at_key_def elements_def)
qed

lemma log_read:
  assumes "daemon_serve ev key ''GET'' (''/v1/runs/'' @ rid @ ''/timeline'') None w = ((status, j), w')"
    and "200 \<le> status" "status < 300" "db_ok (w_db w)"
  shows "\<exists>ls. klad_output (CmdLog rid) j = Inr ls"
proof -
  have "timeline rid w = (Inr j, w')" using served_timeline [OF assms(1-3)] by blast
  with timeline_rendered [of rid w] log_prints_every_snapshot_once [OF assms(4), of rid]
  have "\<exists>ls. render_json j = Inr ls" by auto
  then show ?thesis by auto
qed

lemma runs_read:
  assumes "daemon_serve ev key ''GET'' ''/v1/runs'' None w = ((status, j), w')" "200 \<le> status" "status < 300"
  shows "\<exists>ls. klad_output CmdRuns j = Inr ls"
proof -
  obtain pid where "list_runs pid w = (Inr j, w')"
    using served_get [OF assms] path_runs by (auto simp: get_route_def reply_ok)
  then have j: "j = JObj [(''runs'', JList (map (\<lambda>r. JObj [(''id'', JStr (rn_id r)), (''project_id'', JStr (rn_project r)),
      (''image'', rn_image r), (''created_at'', JNum (rn_created r))]) (order_by rn_created (filter (\<lambda>r. rn_project r = pid) (t_runs (w_db w))))))]"
    by (auto simp: list_runs_def bind_connect ret_def)
  have "\<exists>ls. collect (pair_of RunEntry ''id'' ''image'') (map (\<lambda>r. JObj [(''id'', JStr (rn_id r)), (''project_id'', JStr (rn_project r)),
      (''image'', rn_image r), (''created_at'', JNum (rn_created r))]) rs) = Inr ls" for rs
    by (rule collect_total) (auto simp: pair_of_def at_key_def)
  with j show ?thesis by (simp add: rows_of_def field_def at_key_def elements_def)
qed

lemma usage_read:
  assumes "daemon_serve ev key ''GET'' ''/v1/usage'' None w = ((status, j), w')" "200 \<le> status" "status < 300"
  shows "\<exists>ls. klad_output CmdUsage j = Inr ls"
proof -
  have p: "path_parts ''/v1/usage'' = [''v1'', ''usage'']" by (simp add: path_parts_def strip_slash_def)
  obtain pid where "usage pid w = (Inr j, w')"
    using served_get [OF assms] p by (auto simp: get_route_def reply_ok)
  then show ?thesis by (auto simp: usage_def bind_connect ret_def usage_lines_def at_key_def)
qed



end
