(* ===== verification/Latency_Experiments.thy ===== *)
theory Latency_Experiments
  imports Harness
begin

text \<open>
  The experiments on snapshots over time: pause windows and warm restores (\<open>spikes/harness/spike_a.py\<close>),
  the clock of a restored guest (\<open>spike_e_clock.py\<close>), the size of incremental snapshots
  (\<open>spike_f_latency.py\<close>) and the first boot of all (\<open>smoke.py\<close>). Command lines and printing are left out.
\<close>

section \<open>Spike A: pause windows and warm restores\<close>

definition milliseconds :: "rat \<Rightarrow> rat \<Rightarrow> rat" where
  "milliseconds t0 t1 = (t1 - t0) * 1000"

definition snapshot_request :: "string \<Rightarrow> string \<Rightarrow> bool \<Rightarrow> string \<times> string \<times> json" where
  "snapshot_request snap mem diff =
     (''PUT'', ''/snapshot/create'',
        JObj [(''snapshot_type'', JStr (if diff then ''Diff'' else ''Full'')),
              (''snapshot_path'', JStr snap), (''mem_file_path'', JStr mem)])"

definition snap_i :: "string \<Rightarrow> nat \<Rightarrow> string" where
  "snap_i work i = in_work work ''snap_'' i ''.snapshot''"

definition mem_i :: "string \<Rightarrow> nat \<Rightarrow> string" where
  "mem_i work i = in_work work ''snap_'' i ''.mem''"

text \<open>Pause, snapshot, resume: the length of the window in milliseconds.\<close>

definition timed_snapshot :: "'v platform \<Rightarrow> microvm \<Rightarrow> string \<Rightarrow> string \<Rightarrow> bool \<Rightarrow> ('v, rat) hostm" where
  "timed_snapshot P vm snap mem diff =
     andthen time_now (\<lambda>t0.
     andthen (pause P vm) (\<lambda>_.
     andthen (vm_snapshot P vm snap mem diff) (\<lambda>_.
     andthen (resume P vm) (\<lambda>_.
     andthen time_now (\<lambda>t1. ret (milliseconds t0 t1))))))"

text \<open>A fresh VM loaded from the first snapshot, timed until it runs, and killed.\<close>

definition timed_restore :: "'v platform \<Rightarrow> vm_spec \<Rightarrow> string \<Rightarrow> nat \<Rightarrow> ('v, rat) hostm" where
  "timed_restore P spec work i =
     with_vm P (microvm_init spec work (''restore_'' @ show_nat i) None None) (\<lambda>rvm.
       andthen time_now (\<lambda>t0.
       andthen (load P rvm (snap_i work 0) (mem_i work 0) ''File'' True False None) (\<lambda>_.
       andthen time_now (\<lambda>t1. ret (milliseconds t0 t1)))))"

text \<open>One iteration: the first snapshot is full, the others are diffs and are dropped again.\<close>

definition a_iteration :: "'v platform \<Rightarrow> vm_spec \<Rightarrow> string \<Rightarrow> microvm \<Rightarrow> nat \<Rightarrow> ('v, rat \<times> rat) hostm" where
  "a_iteration P spec work vm i =
     andthen (timed_snapshot P vm (snap_i work i) (mem_i work i) (0 < i)) (\<lambda>window.
     andthen (timed_restore P spec work i) (\<lambda>restore.
     andthen (if 0 < i then andthen (unlink_quietly (snap_i work i)) (\<lambda>_. unlink_quietly (mem_i work i)) else ret ()) (\<lambda>_.
     ret (window, restore))))"

fun a_loop :: "'v platform \<Rightarrow> vm_spec \<Rightarrow> string \<Rightarrow> microvm \<Rightarrow> nat list \<Rightarrow> ('v, rat list \<times> rat list \<times> rat list) hostm" where
  "a_loop P spec work vm [] = ret ([], [], [])"
| "a_loop P spec work vm (i # is) =
     andthen (a_iteration P spec work vm i) (\<lambda>(window, restore).
     andthen (a_loop P spec work vm is) (\<lambda>(full, diff, restores).
     ret (if 0 < i then full else window # full, if 0 < i then window # diff else diff, restore # restores)))"

record a_report =
  ar_full :: summary_row
  ar_diff :: summary_row
  ar_restore :: summary_row
  ar_pause_pass :: bool
  ar_restore_pass :: bool

text \<open>\<open>(p or 1e9) < limit\<close>\<close>

definition under :: "rat option \<Rightarrow> rat \<Rightarrow> bool" where
  "under p limit \<longleftrightarrow> (case p of None \<Rightarrow> 10 ^ 9 | Some x \<Rightarrow> if x = 0 then 10 ^ 9 else x) < limit"

definition a_evaluate :: "rat list \<times> rat list \<times> rat list \<Rightarrow> exn + a_report" where
  "a_evaluate m =
     (case m of (full, diff, restores) \<Rightarrow>
       (case summary full of
          Inl e \<Rightarrow> Inl e
        | Inr f \<Rightarrow>
            (case summary diff of
               Inl e \<Rightarrow> Inl e
             | Inr d \<Rightarrow>
                 (case summary restores of
                    Inl e \<Rightarrow> Inl e
                  | Inr r \<Rightarrow> Inr \<lparr>ar_full = f, ar_diff = d, ar_restore = r,
                      ar_pause_pass = under (sm_p50 d) 250, ar_restore_pass = under (sm_p50 r) 500\<rparr>))))"

definition spike_a :: "'v platform \<Rightarrow> vm_spec \<Rightarrow> string \<Rightarrow> nat \<Rightarrow> rat \<Rightarrow> ('v, a_report) hostm" where
  "spike_a P spec work iterations settle =
     andthen (require_files [vs_kernel spec, vs_rootfs spec]) (\<lambda>_.
     andthen (with_vm P (microvm_init spec work ''base'' None None) (\<lambda>vm.
       andthen (configure_and_start P vm) (\<lambda>_.
       andthen (sleep_for P settle) (\<lambda>_. a_loop P spec work vm [0..<iterations])))) (\<lambda>m. lift_sum (a_evaluate m)))"

section \<open>Spike E: the clock of a restored guest\<close>

record e_report =
  er_pause :: rat
  er_advance :: rat
  er_skew :: rat
  er_confirmed :: bool

definition e_evaluate :: "rat \<Rightarrow> rat \<Rightarrow> rat \<Rightarrow> bytes option \<Rightarrow> bytes option \<Rightarrow> exn + e_report" where
  "e_evaluate pause_s at_snapshot at_resume base_out child_out =
     (case parse_times base_out of
        Inl e \<Rightarrow> Inl e
      | Inr bs \<Rightarrow>
          (case parse_times child_out of
             Inl e \<Rightarrow> Inl e
           | Inr cs \<Rightarrow>
               if bs = [] \<or> cs = [] then Inl (SystemExit ''no clock samples captured'')
               else let before = fst (last bs); after = fst (hd cs); skew = at_resume - after
                    in Inr \<lparr>er_pause = at_resume - at_snapshot, er_advance = after - before, er_skew = skew,
                            er_confirmed = (pause_s * (1 / 2) < skew)\<rparr>))"

definition e_spec :: "string \<Rightarrow> string \<Rightarrow> vm_spec" where
  "e_spec kern rootfs =
     \<lparr>vs_kernel = kern, vs_rootfs = rootfs, vs_mem_mib = 512, vs_vcpus = 1, vs_track_dirty = True, vs_rootfs_ro = True,
      vs_scratch = None, vs_vsock_uds = None, vs_vsock_cid = 3, vs_boot_args = init_args ''/clock''\<rparr>"

definition spike_e :: "'v platform \<Rightarrow> string \<Rightarrow> string \<Rightarrow> string \<Rightarrow> rat \<Rightarrow> ('v, e_report) hostm" where
  "spike_e P kern rootfs work pause_s =
     (let spec = e_spec kern rootfs; snap = path_join work ''base.snapshot''; mem = path_join work ''base.mem'';
          console = path_join work ''child.console''
      in andthen (seal_base P (console_base spec work) 2 snap mem (\<lambda>_. ret ())) (\<lambda>_.
         andthen time_now (\<lambda>at_snapshot.
         andthen (sleep_for P pause_s) (\<lambda>_.
         andthen (fork_vm P (microvm_init spec work ''child'' (Some console) None) snap mem ''File'') (\<lambda>child.
         andthen time_now (\<lambda>at_resume.
         andthen (sleep_for P (3 / 2)) (\<lambda>_.
         andthen (kill P child) (\<lambda>_.
         andthen (read_consoles [path_join work ''base.console'', console]) (\<lambda>cs.
         lift_sum (e_evaluate pause_s at_snapshot at_resume (cs ! 0) (cs ! 1)))))))))))"

section \<open>Spike F: the size of incremental snapshots\<close>

record f_report =
  fr_full :: nat
  fr_diff :: nat
  fr_logical :: nat
  fr_ratio :: "rat option"
  fr_validated :: bool

definition f_spec :: "string \<Rightarrow> string \<Rightarrow> vm_spec" where
  "f_spec kern rootfs =
     \<lparr>vs_kernel = kern, vs_rootfs = rootfs, vs_mem_mib = 512, vs_vcpus = 1, vs_track_dirty = True, vs_rootfs_ro = True,
      vs_scratch = None, vs_vsock_uds = None, vs_vsock_cid = 3,
      vs_boot_args = ''console=ttyS0 reboot=k panic=1 pci=off i8042.noaux i8042.nomux''\<rparr>"

text \<open>\<open>phys_bytes\<close>; \<open>blocks\<close> is \<open>st_blocks\<close> of a file.\<close>

definition phys_bytes :: "('v host \<Rightarrow> string \<Rightarrow> nat) \<Rightarrow> string \<Rightarrow> ('v, nat) hostm" where
  "phys_bytes blocks p h = (if exists_file p h then (Inr (blocks h p * 512), h) else (Inl (no_such_file p), h))"

definition f_evaluate :: "nat \<Rightarrow> nat \<Rightarrow> nat \<Rightarrow> f_report" where
  "f_evaluate full diff logical =
     (let ratio = (if full \<noteq> 0 then Some (of_nat diff / of_nat full) else None)
      in \<lparr>fr_full = full, fr_diff = diff, fr_logical = logical, fr_ratio = ratio,
          fr_validated = (case ratio of None \<Rightarrow> False | Some r \<Rightarrow> r < 1 / 5)\<rparr>)"

definition spike_f ::
  "'v platform \<Rightarrow> ('v host \<Rightarrow> string \<Rightarrow> nat) \<Rightarrow> string \<Rightarrow> string \<Rightarrow> string \<Rightarrow> ('v, (rat \<times> rat) \<times> f_report) hostm" where
  "spike_f P blocks kern rootfs work =
     (let fmem = path_join work ''full.mem''; dmem = path_join work ''diff.mem''
      in andthen (with_vm P (microvm_init (f_spec kern rootfs) work ''base'' None None) (\<lambda>vm.
           andthen (configure_and_start P vm) (\<lambda>_.
           andthen (sleep_for P 2) (\<lambda>_.
           andthen (timed_snapshot P vm (path_join work ''full.snap'') fmem False) (\<lambda>full_ms.
           andthen (sleep_for P 1) (\<lambda>_.
           andthen (timed_snapshot P vm (path_join work ''diff.snap'') dmem True) (\<lambda>diff_ms.
           ret (full_ms, diff_ms)))))))) (\<lambda>windows.
         andthen (phys_bytes blocks fmem) (\<lambda>full.
         andthen (phys_bytes blocks dmem) (\<lambda>diff.
         andthen (file_size fmem) (\<lambda>logical.
         ret (windows, f_evaluate full diff logical))))))"

section \<open>The smoke test\<close>

definition smoke_spec :: "string \<Rightarrow> string \<Rightarrow> vm_spec" where
  "smoke_spec kern rootfs =
     \<lparr>vs_kernel = kern, vs_rootfs = rootfs, vs_mem_mib = 1024, vs_vcpus = 1, vs_track_dirty = True, vs_rootfs_ro = False,
      vs_scratch = None, vs_vsock_uds = None, vs_vsock_cid = 3,
      vs_boot_args = ''console=ttyS0 reboot=k panic=1 pci=off i8042.noaux i8042.nomux''\<rparr>"

definition smoke :: "'v platform \<Rightarrow> string \<Rightarrow> string \<Rightarrow> string \<Rightarrow> ('v, bool) hostm" where
  "smoke P kern base_rootfs work =
     andthen (require_files [kern, base_rootfs]) (\<lambda>_.
     let rootfs = path_join work ''rootfs.ext4''; snap = path_join work ''s.snapshot''; mem = path_join work ''s.mem''
     in andthen (copy_file base_rootfs rootfs) (\<lambda>_.
        with_vm P (microvm_init (smoke_spec kern rootfs) work ''smoke'' None None) (\<lambda>vm.
          andthen (configure_and_start P vm) (\<lambda>_.
          andthen (sleep_for P 2) (\<lambda>_.
          andthen (fc_req P (mv_sock vm) ''GET'' ''/'' None) (\<lambda>info.
          andthen (lift_sum (json_get info ''state'')) (\<lambda>state.
          andthen (pause P vm) (\<lambda>_.
          andthen (vm_snapshot P vm snap mem False) (\<lambda>_.
          andthen (resume P vm) (\<lambda>_.
          andthen (file_size snap) (\<lambda>_.
          andthen (file_size mem) (\<lambda>_.
          ret (state = Some (JStr ''Running''))))))))))))))"

section \<open>Full first, then diffs\<close>

lemma time_now_frame: "keeps (same_calls lg path) time_now"
  by (rule keepsI) (simp add: time_now_def file_calls)

lemma unlink_frame: "keeps (same_calls lg path) (unlink_quietly p)"
proof -
  have "keeps (same_calls lg path) (remove_file p)" by (rule keepsI) (simp add: remove_file_def file_calls)
  then show ?thesis unfolding unlink_quietly_def
    by (intro call_frame.keeps_attempt) (auto simp: call_frame.keeps_ret call_frame.keeps_throw split: exn.split)
qed

lemma protect_frame:
  fixes m :: "('v, 'a) hostm"
  assumes "keeps (same_calls lg path) m" "keeps (same_calls lg path) c"
  shows "keeps (same_calls lg path) (protect m c)"
proof -
  have "keeps (same_calls lg path) (lift_sum r)" for r :: "exn + 'a"
    by (rule keepsI) (simp add: lift_sum_def file_calls)
  with assms show ?thesis unfolding protect_def
    by (intro call_frame.keeps_andthen call_frame.keeps_attempt call_frame.keeps_ret)
qed

lemma restore_frame:
  assumes "records lg P" "quiet lg P"
  shows "keeps (same_calls lg ''/snapshot/create'') (timed_restore P spec work i)"
proof -
  have "keeps (same_calls lg ''/snapshot/create'') (load P vm snap mem ''File'' True False None)" for vm snap mem
    unfolding load_def by (rule run_requests_calls [OF assms(1)]) (simp add: load_requests_def)
  with assms show ?thesis unfolding timed_restore_def with_vm_def
    by (intro call_frame.keeps_andthen protect_frame spawn_calls kill_calls time_now_frame call_frame.keeps_ret) simp_all
qed

lemma vm_snapshot_request: "vm_snapshot P vm snap mem diff = run_requests P (mv_sock vm) [snapshot_request snap mem diff]"
  by (simp add: vm_snapshot_def snapshot_request_def)

lemma time_now_ran: "time_now h = (Inr t, h') \<Longrightarrow> h' = h"
  by (simp add: time_now_def)

lemma snapshot_calls:
  assumes "records lg P" "timed_snapshot P vm snap mem diff h = (Inr w, h')"
  shows "calls lg ''/snapshot/create'' h' = calls lg ''/snapshot/create'' h @ [entry (pf_codec P) (snapshot_request snap mem diff) True]"
proof -
  obtain h1 h2 where run: "pause P vm h = (Inr (), h1)" "vm_snapshot P vm snap mem diff h1 = (Inr (), h2)"
      "resume P vm h2 = (Inr (), h')"
    using assms(2) unfolding timed_snapshot_def
    by (auto elim!: andthen_InrE dest!: time_now_ran simp: ret_def)
  have frame: "same_calls lg ''/snapshot/create'' h h1" "same_calls lg ''/snapshot/create'' h2 h'"
    using run_requests_calls [OF assms(1), of "[pause_request]" "''/snapshot/create''" "mv_sock vm"]
      run_requests_calls [OF assms(1), of "[resume_request]" "''/snapshot/create''" "mv_sock vm"] run
    by (auto simp: pause_def resume_def pause_request_def resume_request_def dest: keepsD)
  have "lg (h_mach h2) = lg (h_mach h1) @ [entry (pf_codec P) (snapshot_request snap mem diff) True]"
    using run_requests_ok_log [OF assms(1), of "mv_sock vm" "[snapshot_request snap mem diff]" h1 h2] run(2)
    by (simp add: vm_snapshot_request del: run_requests.simps)
  with frame show ?thesis by (simp add: same_calls_def calls_def entry_def snapshot_request_def)
qed

lemma iteration_calls:
  assumes "records lg P" "quiet lg P" "a_iteration P spec work vm i h = (Inr wr, h')"
  shows "calls lg ''/snapshot/create'' h' = calls lg ''/snapshot/create'' h @
    [entry (pf_codec P) (snapshot_request (snap_i work i) (mem_i work i) (0 < i)) True]"
proof -
  let ?drop = "if 0 < i then andthen (unlink_quietly (snap_i work i)) (\<lambda>_. unlink_quietly (mem_i work i)) else ret ()"
  obtain window h1 restore h2 where run: "timed_snapshot P vm (snap_i work i) (mem_i work i) (0 < i) h = (Inr window, h1)"
      "timed_restore P spec work i h1 = (Inr restore, h2)" "?drop h2 = (Inr (), h')"
    using assms(3) unfolding a_iteration_def by (auto elim!: andthen_InrE simp: ret_def)
  have "keeps (same_calls lg ''/snapshot/create'') ?drop"
    by (auto intro!: call_frame.keeps_andthen call_frame.keeps_ret unlink_frame)
  then have "same_calls lg ''/snapshot/create'' h2 h'" by (rule keepsD [where m = ?drop]) (rule run(3))
  with keepsD [OF restore_frame [OF assms(1,2)] run(2)] snapshot_calls [OF assms(1) run(1)]
  show ?thesis by (simp add: same_calls_def)
qed

lemma a_loop_calls:
  "records lg P \<Longrightarrow> quiet lg P \<Longrightarrow> a_loop P spec work vm is h = (Inr (full, diff, restores), h') \<Longrightarrow>
    calls lg ''/snapshot/create'' h' = calls lg ''/snapshot/create'' h @
      map (\<lambda>i. entry (pf_codec P) (snapshot_request (snap_i work i) (mem_i work i) (0 < i)) True) is \<and>
    length full = length (filter (\<lambda>i. i = 0) is) \<and> length diff = length (filter (\<lambda>i. 0 < i) is) \<and> length restores = length is"
proof (induction "is" arbitrary: h full diff restores)
  case (Cons i rest)
  let ?put = "\<lambda>(window, restore). andthen (a_loop P spec work vm rest) (\<lambda>(full, diff, restores).
      ret (if 0 < i then full else window # full, if 0 < i then window # diff else diff, restore # restores))"
  from Cons.prems(3) [unfolded a_loop.simps] obtain wr h1 where one: "a_iteration P spec work vm i h = (Inr wr, h1)"
      and two: "?put wr h1 = (Inr (full, diff, restores), h')" by (rule andthen_InrE)
  obtain window restore where wr: "wr = (window, restore)" by (cases wr)
  from two [unfolded wr] obtain full' diff' restores' where rest: "a_loop P spec work vm rest h1 = (Inr (full', diff', restores'), h')"
      "full = (if 0 < i then full' else window # full')" "diff = (if 0 < i then window # diff' else diff')" "restores = restore # restores'"
    by (auto elim!: andthen_InrE simp: ret_def)
  from Cons.IH [OF Cons.prems(1,2) rest(1)] iteration_calls [OF Cons.prems(1,2) one] rest(2-4)
  show ?case by auto
qed (simp add: ret_def)

text \<open>
  What Spike A measures: when its loop over \<open>n\<close> iterations ends normally, the snapshots Firecracker
  was asked for are, in this order, one full snapshot and then only diffs (which need the full one as
  their baseline), each accepted; and there is one full pause window, \<open>n - 1\<close> diff windows and \<open>n\<close>
  restore times. Restores and the dropped files add no snapshot calls.
\<close>

theorem first_snapshot_is_full:
  assumes "records lg P" "quiet lg P" "0 < n"
    and "a_loop P spec work vm [0..<n] h = (Inr (full, diff, restores), h')"
  shows "calls lg ''/snapshot/create'' h' = calls lg ''/snapshot/create'' h @
      entry (pf_codec P) (snapshot_request (snap_i work 0) (mem_i work 0) False) True #
      map (\<lambda>i. entry (pf_codec P) (snapshot_request (snap_i work i) (mem_i work i) True) True) [1..<n] \<and>
    length full = 1 \<and> length diff = n - 1 \<and> length restores = n"
proof -
  have split: "[0..<n] = 0 # [1..<n]" using assms(3) by (simp add: upt_conv_Cons)
  have pos: "filter (\<lambda>i. i = 0) [1..<n] = []" "filter (\<lambda>i. 0 < i) [1..<n] = [1..<n]" by (auto simp: filter_empty_conv filter_id_conv)
  have "map (\<lambda>i. entry (pf_codec P) (snapshot_request (snap_i work i) (mem_i work i) (0 < i)) True) [1..<n] =
      map (\<lambda>i. entry (pf_codec P) (snapshot_request (snap_i work i) (mem_i work i) True) True) [1..<n]"
    by (rule map_cong) auto
  with a_loop_calls [OF assms(1,2,4)] pos split
  show ?thesis using assms(3) by simp
qed

lemma goes_iteration: "goes (a_iteration demo_boots spec work vm i)"
  unfolding a_iteration_def timed_snapshot_def timed_restore_def pause_def resume_def vm_snapshot_def load_def
  by (intro goes_andthen goes_ret goes_time_now goes_requests goes_with_vm goes_unlink demo_boots_boots)
    (simp_all add: microvm_init_def goes_andthen goes_ret goes_unlink)

lemma goes_a_loop: "goes (a_loop demo_boots spec work vm is)"
  by (induction "is") (auto intro!: goes_andthen goes_ret goes_iteration split: prod.splits)

theorem first_snapshot_is_full_witness:
  "\<exists>full diff restores h'. a_loop demo_boots (f_spec ''k'' ''r'') ''w'' demo_vm [0..<2] demo_fc_host = (Inr (full, diff, restores), h') \<and>
     calls (\<lambda>m. m) ''/snapshot/create'' h' =
       [entry demo_fc_codec (snapshot_request (snap_i ''w'' 0) (mem_i ''w'' 0) False) True,
        entry demo_fc_codec (snapshot_request (snap_i ''w'' 1) (mem_i ''w'' 1) True) True] \<and>
     length full = 1 \<and> length diff = 1 \<and> length restores = 2"
proof -
  obtain full diff restores h' where run:
      "a_loop demo_boots (f_spec ''k'' ''r'') ''w'' demo_vm [0..<2] demo_fc_host = (Inr (full, diff, restores), h')"
    using goes_a_loop unfolding goes_def by (metis prod_cases3)
  have start: "calls (\<lambda>m. m) ''/snapshot/create'' demo_fc_host = []" by (simp add: calls_def demo_fc_host_def)
  have K: "pf_codec demo_boots = demo_fc_codec" by (simp add: demo_boots_def demo_fc_def)
  have "[1..<2] = [1::nat]" by (simp add: upt_rec)
  with first_snapshot_is_full [OF demo_boots_log _ run] run start K show ?thesis by auto
qed

end
