(* ===== verification/Cleanup.thy ===== *)
theory Cleanup
  imports Latency_Experiments Browser_Session
begin

text \<open>
  Which processes an experiment is responsible for, from the first \<open>Popen\<close> to the last \<open>kill\<close>. Every
  operation is given the set of processes it takes over and the set it hands on with its result, in the
  manner of a Hoare triple; the experiments of \<open>spikes/harness\<close> start with none and hand on none.
\<close>

section \<open>Processes come from \<open>Popen\<close>\<close>

text \<open>
  Documented of processes: nothing but \<open>Popen\<close> starts one, and it starts the one it returns; a request to
  Firecracker or to a guest and the passing of time start none, and a command that is waited for leaves none.
\<close>

definition births_by_popen :: "'v platform \<Rightarrow> bool" where
  "births_by_popen P \<longleftrightarrow> sigkill_ok P \<and>
     (\<forall>sock meth path body q h. \<not> pf_alive P q h \<longrightarrow> \<not> pf_alive P q (snd (pf_http P sock meth path body h))) \<and>
     (\<forall>u d q h. \<not> pf_alive P q h \<longrightarrow> \<not> pf_alive P q (snd (pf_connect P u d h))) \<and>
     (\<forall>u d q h. \<not> pf_alive P q h \<longrightarrow> \<not> pf_alive P q (snd (pf_send P u d h))) \<and>
     (\<forall>d q h. \<not> pf_alive P q h \<longrightarrow> \<not> pf_alive P q (pf_idle P d h)) \<and>
     (\<forall>cmd q h. \<not> pf_alive P q h \<longrightarrow> \<not> pf_alive P q (snd (pf_run P cmd h))) \<and>
     (\<forall>cmd q h. \<not> pf_alive P q h \<longrightarrow> fst (pf_popen P cmd h) \<noteq> Inr q \<longrightarrow> \<not> pf_alive P q (snd (pf_popen P cmd h)))"

definition no_new :: "'v platform \<Rightarrow> 'v host \<Rightarrow> 'v host \<Rightarrow> bool" where
  "no_new P h h' \<longleftrightarrow> (\<forall>q. dead P q h \<longrightarrow> dead P q h')"

interpretation births: state_order "no_new P" for P :: "'v platform"
  by unfold_locales (simp_all add: no_new_def)

lemma births_sigkill: "births_by_popen P \<Longrightarrow> sigkill_ok P"
  by (simp add: births_by_popen_def)

lemma no_new_mach: "sigkill_ok P \<Longrightarrow> h_mach h = h_mach h' \<Longrightarrow> no_new P h h'"
  using dead_mach unfolding no_new_def by blast

text \<open>The clock and the files do not matter, so an operation starts no process if its platform call does not.\<close>

lemma no_new_forward:
  assumes "sigkill_ok P"
  shows "no_new P h (forward g h') = no_new P h h'"
  using dead_mach [OF assms, of "forward g h'" h'] dead_mach [OF assms, of h' "forward g h'"] by (auto simp: no_new_def)

lemma no_new_timed: "sigkill_ok P \<Longrightarrow> (\<And>h. no_new P h (snd (m h))) \<Longrightarrow> keeps (no_new P) (timed m)"
  by (rule keepsI) (simp add: timed_def split_beta no_new_forward)

lemma no_new_calls:
  assumes "births_by_popen P"
  shows "keeps (no_new P) (timed (pf_http P sock meth path body))" "keeps (no_new P) (timed (pf_connect P u d))"
    "keeps (no_new P) (timed (pf_send P u d))" "no_new P h (pf_idle P t h)" "keeps (no_new P) (timed (pf_run P cmd))"
proof -
  note s = births_sigkill [OF assms]
  show "keeps (no_new P) (timed (pf_http P sock meth path body))" "keeps (no_new P) (timed (pf_connect P u d))"
    "keeps (no_new P) (timed (pf_send P u d))" "keeps (no_new P) (timed (pf_run P cmd))"
    by (rule no_new_timed [OF s]; use assms in \<open>simp add: births_by_popen_def no_new_def dead_def\<close>)+
  show "no_new P h (pf_idle P t h)" using assms by (simp add: births_by_popen_def no_new_def dead_def)
qed

lemma no_new_files: "sigkill_ok P \<Longrightarrow> (\<And>h. h_mach (snd (m h)) = h_mach h) \<Longrightarrow> keeps (no_new P) m"
  by (rule keepsI) (simp add: no_new_mach)

lemma no_new_lift: "keeps (no_new P) (lift_sum r)"
  by (rule keepsI) (simp add: lift_sum_def births.R_refl)

lemma no_new_request: "births_by_popen P \<Longrightarrow> keeps (no_new P) (fc_req P sock meth path body)"
  unfolding fc_req_def
  by (intro births.keeps_andthen no_new_calls) (auto simp: births.keeps_throw births.keeps_ret no_new_lift split: prod.split)

lemma no_new_requests: "births_by_popen P \<Longrightarrow> keeps (no_new P) (run_requests P sock rs)"
proof (induction rs)
  case (Cons q rs)
  then show ?case by (cases q) (simp add: births.keeps_andthen no_new_request)
qed (simp add: births.keeps_ret)

lemma no_new_vsock:
  assumes "births_by_popen P"
  shows "keeps (no_new P) (vsock_request P uds port msg)"
  unfolding vsock_request_def Let_def
  by (intro births.keeps_andthen no_new_calls [OF assms] births.keeps_if births.keeps_throw births.keeps_ret no_new_lift)

lemma no_new_sleep:
  assumes "births_by_popen P"
  shows "no_new P h (py_sleep P d h)"
proof -
  have "no_new P (pf_idle P d h) (py_sleep P d h)"
    by (rule no_new_mach [OF births_sigkill [OF assms]]) (simp add: py_sleep_def Let_def)
  with no_new_calls(4) [OF assms] births.R_trans show ?thesis by blast
qed

lemma no_new_kill: "sigkill_ok P \<Longrightarrow> keeps (no_new P) (kill P vm)"
  by (rule keepsI) (auto simp: no_new_def dest: kill_dead(2) [OF _ surjective_pairing])

lemma no_new_try:
  assumes "births_by_popen P"
  shows "no_new P h (snd (try_api P vm h))"
  using keeps_snd [OF no_new_request [OF assms], of h "mv_sock vm" "''GET''" "''/''" None]
  by (auto simp: try_api_def births.R_refl split: prod.splits sum.splits)

lemma no_new_await: "births_by_popen P \<Longrightarrow> no_new P h (snd (await_sock P vm deadline h))"
proof (induction P vm deadline h rule: await_sock.induct)
  case (1 P vm deadline h)
  obtain up h1 where t: "try_api P vm h = (up, h1)" by fastforce
  have s1: "no_new P h h1" using no_new_try [OF "1.prems", of h vm] t by simp
  show ?case
  proof (cases "h_clock h < deadline \<and> \<not> up")
    case True
    have "no_new P (py_sleep P (1 / 100) h1) (snd (await_sock P vm deadline (py_sleep P (1 / 100) h1)))"
      using "1.IH" [OF _ t [symmetric] refl] True "1.prems" by simp
    then have "no_new P h (snd (await_sock P vm deadline (py_sleep P (1 / 100) h1)))"
      using s1 no_new_sleep [OF "1.prems", of h1 "1 / 100"] births.R_trans by blast
    with True t show ?thesis by (subst await_sock.simps) simp
  next
    case False
    then show ?thesis using s1 t by (subst await_sock.simps) (auto simp: births.R_refl)
  qed
qed

section \<open>What an operation takes over and hands on\<close>

text \<open>
  \<open>hands P A f m\<close>: if, of the processes that were not running at the start, only those in \<open>A\<close> are, and
  \<open>m\<close> returns \<open>x\<close>, then only those in \<open>f x\<close> are.
\<close>

definition hands :: "'v platform \<Rightarrow> nat set \<Rightarrow> ('a \<Rightarrow> nat set) \<Rightarrow> ('v, 'a) hostm \<Rightarrow> bool" where
  "hands P A f m \<longleftrightarrow> (\<forall>h x h' q. m h = (Inr x, h') \<longrightarrow> q \<in> A \<or> dead P q h \<longrightarrow> q \<in> f x \<or> dead P q h')"

lemma handsD: "hands P A f m \<Longrightarrow> m h = (Inr x, h') \<Longrightarrow> q \<in> A \<or> dead P q h \<Longrightarrow> q \<in> f x \<or> dead P q h'"
  unfolding hands_def by blast

lemma hands_andthen:
  assumes "hands P A f m" "\<And>x. hands P (f x) g (k x)"
  shows "hands P A g (andthen m k)"
  unfolding hands_def
proof (intro allI impI)
  fix h y h' q
  assume run: "andthen m k h = (Inr y, h')" and q: "q \<in> A \<or> dead P q h"
  obtain x u where x: "m h = (Inr x, u)" "k x u = (Inr y, h')" using run by (rule andthen_InrE)
  from handsD [OF assms(2) x(2)] handsD [OF assms(1) x(1) q] show "q \<in> g y \<or> dead P q h'" by blast
qed

lemma hands_keeps: "keeps (no_new P) m \<Longrightarrow> hands P A (\<lambda>_. A) m"
  by (auto simp: hands_def no_new_def dest: keepsD)

lemma hands_ret: "A \<subseteq> f x \<Longrightarrow> hands P A f (ret x)"
  by (auto simp: hands_def ret_def)

lemma hands_lift: "hands P A (\<lambda>_. A) (lift_sum r)"
  by (rule hands_keeps [OF no_new_lift])

lemma hands_frame: "hands P A f m \<Longrightarrow> hands P (A \<union> B) (\<lambda>x. f x \<union> B) m"
  by (fastforce simp: hands_def)

lemma hands_weaken: "hands P A f m \<Longrightarrow> B \<subseteq> A \<Longrightarrow> (\<And>x. f x \<subseteq> g x) \<Longrightarrow> hands P B g m"
  by (fastforce simp: hands_def)

lemma hands_read: "(\<And>h. h_mach (snd (m h)) = h_mach h) \<Longrightarrow> sigkill_ok P \<Longrightarrow> hands P A (\<lambda>_. A) m"
  by (rule hands_keeps) (rule no_new_files)

lemma hands_sleep: "births_by_popen P \<Longrightarrow> hands P A (\<lambda>_. A) (sleep_for P d)"
  by (intro hands_keeps keepsI) (simp add: sleep_for_def no_new_sleep)

lemma hands_protect:
  assumes "hands P A (\<lambda>_. B) m" "hands P B (\<lambda>_. C) c"
  shows "hands P A (\<lambda>_. C) (protect m c)"
  unfolding hands_def
proof (intro allI impI)
  fix h y h' q
  assume run: "protect m c h = (Inr y, h')" and q: "q \<in> A \<or> dead P q h"
  obtain x u z where x: "m h = (Inr x, u)" "c u = (Inr z, h')"
    using run by (auto simp: protect_def andthen_def attempt_def ret_def lift_sum_def split: sum.splits prod.splits)
  from handsD [OF assms(2) x(2)] handsD [OF assms(1) x(1) q] show "q \<in> C \<or> dead P q h'" by blast
qed

section \<open>Virtual machines\<close>

definition pids_of :: "microvm \<Rightarrow> nat set" where
  "pids_of vm = set_option (mv_proc vm)"

lemma hands_kill: "sigkill_ok P \<Longrightarrow> hands P (pids_of vm) (\<lambda>_. {}) (kill P vm)"
  by (auto simp: hands_def pids_of_def dest: kill_dead)

lemma hands_kill_all: "sigkill_ok P \<Longrightarrow> hands P (\<Union>c\<in>set cs. pids_of c) (\<lambda>_. {}) (kill_all P cs)"
  by (auto simp: hands_def pids_of_def dest: kill_all_dead)

lemma hands_kill_handlers: "sigkill_ok P \<Longrightarrow> hands P (set ps) (\<lambda>_. {}) (kill_handlers P ps)"
  by (auto simp: hands_def dest: kill_handlers_dead)

lemma hands_popen:
  assumes "births_by_popen P"
  shows "hands P A (\<lambda>pid. {pid} \<union> A) (timed (pf_popen P cmd))"
  unfolding hands_def
proof (intro allI impI)
  fix h pid h' q
  assume run: "timed (pf_popen P cmd) h = (Inr pid, h')" and q: "q \<in> A \<or> dead P q h"
  obtain u where u: "pf_popen P cmd h = (Inr pid, u)" "h' = forward h u"
    using run by (auto simp: timed_def split: prod.splits)
  show "q \<in> {pid} \<union> A \<or> dead P q h'"
  proof (cases "q \<in> {pid} \<union> A")
    case False
    with q u(1) assms have "dead P q u"
      unfolding births_by_popen_def dead_def by (metis UnCI fst_conv insertI1 snd_conv sum.inject(2))
    with dead_mach [OF births_sigkill [OF assms], of u h'] u(2) show ?thesis by simp
  qed simp
qed

lemma hands_spawn:
  assumes "births_by_popen P"
  shows "hands P A (\<lambda>vm'. pids_of vm' \<union> A) (spawn P vm)"
proof -
  note s = births_sigkill [OF assms]
  have fresh: "hands P A (\<lambda>_. A) (\<lambda>h. if exists_file p h then remove_file p h else (Inr (), h))" for p
    by (rule hands_read [OF _ s]) (simp add: remove_file_def)
  have console: "hands P A (\<lambda>_. A) (case c of Some p \<Rightarrow> if p \<noteq> [] then write_file p [] else ret () | None \<Rightarrow> ret ())" for c
    by (rule hands_read [OF _ s]) (simp add: write_file_def ret_def split: option.splits)
  have clock: "hands P B (\<lambda>_. B) time_now" for B by (rule hands_read [OF _ s]) (simp add: time_now_def)
  have wait: "hands P B (\<lambda>_. B) (await_sock P vm' d)" for B vm' d
    by (intro hands_keeps keepsI) (rule no_new_await [OF assms])
  show ?thesis
    unfolding spawn_def Let_def
    by (rule hands_andthen [OF fresh] hands_andthen [OF console] hands_andthen [OF hands_popen [OF assms]]
        hands_andthen [OF clock] hands_andthen [OF wait] hands_ret | simp add: pids_of_def)+
qed

lemma hands_requests: "births_by_popen P \<Longrightarrow> hands P A (\<lambda>_. A) (run_requests P sock rs)"
  by (rule hands_keeps [OF no_new_requests])

lemma hands_fork_vm:
  assumes "births_by_popen P"
  shows "hands P A (\<lambda>c. pids_of c \<union> A) (fork_vm P vm snap mem backend)"
  unfolding fork_vm_def load_def
  by (rule hands_andthen [OF hands_spawn [OF assms]], rule hands_andthen [OF hands_requests [OF assms]], rule hands_ret) simp

lemma hands_fork_vms:
  assumes "births_by_popen P"
  shows "hands P A (\<lambda>cs. (\<Union>c\<in>set cs. pids_of c) \<union> A) (fork_vms P mk snap mem is)"
proof (induction "is" arbitrary: A)
  case (Cons i "is")
  show ?case unfolding fork_vms.simps
    by (rule hands_andthen [OF hands_fork_vm [OF assms]], rule hands_andthen [OF Cons], rule hands_ret) auto
qed (simp add: hands_ret)

lemma hands_with_vm:
  assumes "births_by_popen P" "\<And>vm' A. hands P A (\<lambda>_. A) (body vm')"
  shows "hands P {} (\<lambda>_. {}) (with_vm P vm body)"
  unfolding with_vm_def
  by (rule hands_andthen [OF hands_spawn [OF assms(1)]], rule hands_protect [OF assms(2)])
    (simp add: hands_kill births_sigkill [OF assms(1)])

section \<open>The operations between\<close>

definition same_mach :: "'v host \<Rightarrow> 'v host \<Rightarrow> bool" where
  "same_mach h h' \<longleftrightarrow> h_mach h' = h_mach h"

interpretation still: state_order same_mach
  by unfold_locales (simp_all add: same_mach_def)

lemma still_hands: "sigkill_ok P \<Longrightarrow> keeps same_mach m \<Longrightarrow> hands P A (\<lambda>_. A) m"
  by (rule hands_read) (simp_all add: keeps_def same_mach_def)

lemma still_files [intro]:
  "keeps same_mach time_now" "keeps same_mach (read_file p)" "keeps same_mach (write_file p d)" "keeps same_mach (remove_file p)"
  "keeps same_mach (read_consoles ps)" "keeps same_mach (vm_pss procfs vm)" "keeps same_mach (phys_bytes blocks p)"
  "keeps same_mach (count_alive P cs)" "keeps same_mach (remove_tree dir)" "keeps same_mach (lift_sum r)"
  by (rule keepsI; simp add: same_mach_def time_now_def read_file_def write_file_def remove_file_def read_consoles_def vm_pss_def
      phys_bytes_def count_alive_def remove_tree_def lift_sum_def split: option.split)+

lemma still_size [intro]: "keeps same_mach (file_size p)"
  unfolding file_size_def by (intro still.keeps_andthen still.keeps_ret still_files)

lemma still_copy [intro]: "keeps same_mach (copy_file p q)"
  unfolding copy_file_def by (intro still.keeps_andthen still_files)

lemma still_unlink [intro]: "keeps same_mach (unlink_quietly p)"
  unfolding unlink_quietly_def
  by (intro still.keeps_attempt still_files) (simp add: still.keeps_ret still.keeps_throw split: exn.split)

lemma still_require [intro]: "keeps same_mach (require_files ps)"
proof (rule keepsI)
  fix h :: "'a host"
  show "same_mach h (snd (require_files ps h))" by (induction ps) (simp_all add: same_mach_def)
qed

lemma still_all_pss [intro]: "keeps same_mach (all_pss procfs cs)"
  by (induction cs) (auto intro: still.keeps_andthen still.keeps_ret)

lemma still_exists [intro]: "keeps same_mach (\<lambda>h. if exists_file p h then (Inr (), h) else (Inl e, h))"
  by (rule keepsI) (simp add: same_mach_def)

lemma hands_vsock: "births_by_popen P \<Longrightarrow> hands P A (\<lambda>_. A) (vsock_request P uds port msg)"
  by (rule hands_keeps [OF no_new_vsock])

lemma hands_drive_fork:
  assumes "births_by_popen P"
  shows "hands P A (\<lambda>_. A) (drive_fork P uds i n)"
proof -
  have "keeps (no_new P) time_now" by (rule no_new_files [OF births_sigkill [OF assms]]) (simp add: time_now_def)
  then show ?thesis unfolding drive_fork_def
    by (intro hands_keeps births.keeps_andthen births.keeps_attempt no_new_vsock [OF assms] no_new_lift births.keeps_ret)
qed

lemma hands_in_turn: "(\<And>i. hands P A (\<lambda>_. A) (f i)) \<Longrightarrow> hands P A (\<lambda>_. A) (in_turn f is)"
  by (induction "is") (auto intro: hands_ret hands_andthen)

lemma hands_g_probe:
  assumes "births_by_popen P"
  shows "hands P A (\<lambda>_. A) (g_probe P uds)"
proof -
  have "keeps (no_new P) (sleep_for P d)" for d by (rule keepsI) (simp add: sleep_for_def no_new_sleep [OF assms])
  then show ?thesis unfolding g_probe_def
    by (intro hands_keeps births.keeps_andthen births.keeps_attempt no_new_vsock [OF assms] births.keeps_throw births.keeps_ret)
qed

lemma hands_seal_base:
  assumes "births_by_popen P" "\<And>b A. hands P A (\<lambda>_. A) (probe b)"
  shows "hands P {} (\<lambda>_. {}) (seal_base P vm warm snap mem probe)"
  unfolding seal_base_def configure_and_start_def pause_def vm_snapshot_def
  by (rule hands_with_vm [OF assms(1)])
    (rule hands_andthen [OF hands_requests [OF assms(1)]] hands_andthen [OF hands_sleep [OF assms(1)]] hands_andthen [OF assms(2)]
       hands_ret subset_refl)+

text \<open>One step of a proof for an experiment: an operation that changes no process, then the rest.\<close>

lemma hands_still: "sigkill_ok P \<Longrightarrow> keeps same_mach m \<Longrightarrow> (\<And>x. hands P A g (k x)) \<Longrightarrow> hands P A g (andthen m k)"
  by (rule hands_andthen [OF still_hands])

lemma hands_wait_file: "births_by_popen P \<Longrightarrow> hands P A (\<lambda>_. A) (wait_file P n p)"
proof (intro hands_keeps keepsI)
  fix h assume b: "births_by_popen P"
  show "no_new P h (snd (wait_file P n p h))"
  proof (induction n arbitrary: h)
    case (Suc n)
    show ?case using births.R_trans [OF no_new_sleep [OF b, of h "5 / 1000"] Suc] by (simp add: births.R_refl)
  qed (simp add: births.R_refl)
qed

lemma hands_fork_all: "births_by_popen P \<Longrightarrow> hands P {} (\<lambda>cs. \<Union>c\<in>set cs. pids_of c) (fork_vms P mk snap mem is)"
  using hands_fork_vms [of P "{}"] by simp

lemma hands_observe:
  assumes "births_by_popen P"
  shows "hands P (\<Union>c\<in>set cs. pids_of c) (\<lambda>_. {}) (protect (sleep_for P d) (kill_all P cs))"
  by (rule hands_protect [OF hands_sleep [OF assms] hands_kill_all [OF births_sigkill [OF assms]]])

section \<open>The experiments\<close>

lemma spike_c_hands:
  assumes "births_by_popen P"
  shows "hands P {} (\<lambda>_. {}) (spike_c P kern rootfs mem_mib mode work forks warm observe)"
proof -
  note s = births_sigkill [OF assms]
  note steps = hands_andthen [OF hands_seal_base [OF assms hands_ret [OF subset_refl]]] hands_andthen [OF hands_fork_all [OF assms]]
    hands_andthen [OF hands_observe [OF assms]]
  show ?thesis unfolding spike_c_def Let_def
    by (rule hands_still [OF s still_exists] steps hands_still [OF s still_files(5)] hands_ret subset_refl)+
qed

lemma hands_any: "hands P {} (\<lambda>_. {}) m \<Longrightarrow> hands P A (\<lambda>_. A) m"
  using hands_frame [of P "{}" "\<lambda>_. {}" m A] by simp

lemma hands_fork_one: "births_by_popen P \<Longrightarrow> hands P {} pids_of (fork_vm P vm snap mem backend)"
  using hands_fork_vm [of P "{}"] by simp

lemma hands_window:
  assumes "births_by_popen P"
  shows "hands P A (\<lambda>_. A) (timed_snapshot P vm snap mem diff)"
  unfolding timed_snapshot_def pause_def vm_snapshot_def resume_def
  by (rule hands_still [OF births_sigkill [OF assms] still_files(1)] hands_andthen [OF hands_requests [OF assms]] hands_ret subset_refl)+

lemma hands_restore:
  assumes "births_by_popen P"
  shows "hands P {} (\<lambda>_. {}) (timed_restore P spec work i)"
  unfolding timed_restore_def load_def
  by (rule hands_with_vm [OF assms])
    (rule hands_still [OF births_sigkill [OF assms] still_files(1)] hands_andthen [OF hands_requests [OF assms]] hands_ret subset_refl)+

lemma hands_a_loop:
  assumes "births_by_popen P"
  shows "hands P A (\<lambda>_. A) (a_loop P spec work vm is)"
proof (induction "is")
  case (Cons i "is")
  note s = births_sigkill [OF assms]
  have "keeps same_mach (if b then andthen (unlink_quietly p) (\<lambda>_. unlink_quietly q) else ret ())" for b p q
    by (auto intro: still.keeps_andthen still.keeps_ret)
  then have one: "hands P A (\<lambda>_. A) (a_iteration P spec work vm i)"
    unfolding a_iteration_def
    by (intro hands_andthen [OF hands_window [OF assms]] hands_andthen [OF hands_any [OF hands_restore [OF assms]]] hands_still [OF s]
        hands_ret subset_refl)
  show ?case unfolding a_loop.simps
    by (rule hands_andthen [OF one]) (auto intro!: hands_andthen [OF Cons] hands_ret split: prod.split)
qed (simp add: hands_ret)

lemma spike_a_hands:
  assumes "births_by_popen P"
  shows "hands P {} (\<lambda>_. {}) (spike_a P spec work iterations settle)"
proof -
  have body: "hands P A (\<lambda>_. A) (andthen (configure_and_start P vm) (\<lambda>_. andthen (sleep_for P settle) (\<lambda>_. a_loop P spec work vm [0..<iterations])))" for A vm
    unfolding configure_and_start_def
    by (rule hands_andthen [OF hands_requests [OF assms]] hands_andthen [OF hands_sleep [OF assms]] hands_a_loop [OF assms])+
  show ?thesis unfolding spike_a_def
    by (rule hands_still [OF births_sigkill [OF assms] still_require] hands_andthen [OF hands_with_vm [OF assms body]] hands_lift)+
qed

lemma spike_e_hands:
  assumes "births_by_popen P"
  shows "hands P {} (\<lambda>_. {}) (spike_e P kern rootfs work pause_s)"
proof -
  note s = births_sigkill [OF assms]
  show ?thesis unfolding spike_e_def Let_def
    by (rule hands_andthen [OF hands_seal_base [OF assms hands_ret [OF subset_refl]]] hands_still [OF s still_files(1)]
        hands_andthen [OF hands_sleep [OF assms]] hands_andthen [OF hands_fork_one [OF assms]] hands_andthen [OF hands_kill [OF s]]
        hands_still [OF s still_files(5)] hands_lift)+
qed

lemma spike_f_hands:
  assumes "births_by_popen P"
  shows "hands P {} (\<lambda>_. {}) (spike_f P blocks kern rootfs work)"
proof -
  note s = births_sigkill [OF assms]
  have body: "hands P A (\<lambda>_. A) (andthen (configure_and_start P vm) (\<lambda>_. andthen (sleep_for P 2) (\<lambda>_.
      andthen (timed_snapshot P vm fs fm False) (\<lambda>full_ms. andthen (sleep_for P 1) (\<lambda>_.
      andthen (timed_snapshot P vm ds dm True) (\<lambda>diff_ms. ret (full_ms, diff_ms)))))))" for A vm fs fm ds dm
    unfolding configure_and_start_def
    by (rule hands_andthen [OF hands_requests [OF assms]] hands_andthen [OF hands_sleep [OF assms]] hands_andthen [OF hands_window [OF assms]]
        hands_ret subset_refl)+
  show ?thesis unfolding spike_f_def Let_def
    by (rule hands_andthen [OF hands_with_vm [OF assms body]] hands_still [OF s still_files(7)] hands_still [OF s still_size] hands_ret subset_refl)+
qed

lemma smoke_hands:
  assumes "births_by_popen P"
  shows "hands P {} (\<lambda>_. {}) (smoke P kern base_rootfs work)"
proof -
  note s = births_sigkill [OF assms]
  show ?thesis unfolding smoke_def Let_def configure_and_start_def pause_def vm_snapshot_def resume_def
    by (rule hands_still [OF s still_require] hands_still [OF s still_copy] hands_with_vm [OF assms]
        hands_andthen [OF hands_requests [OF assms]] hands_andthen [OF hands_sleep [OF assms]]
        hands_andthen [OF hands_keeps [OF no_new_request [OF assms]]] hands_andthen [OF hands_lift]
        hands_still [OF s still_size] hands_ret subset_refl)+
qed

lemma spike_g_hands:
  assumes "births_by_popen P"
  shows "hands P {} (\<lambda>_. {}) (spike_g P kern rootfs mem_mib work n)"
proof -
  note s = births_sigkill [OF assms]
  have child: "hands P {} (\<lambda>_. {}) (g_child P spec work uds snap mem n i)" for spec uds snap mem i
    unfolding g_child_def
    by (rule hands_still [OF s still_unlink] hands_andthen [OF hands_fork_one [OF assms]] hands_andthen [OF hands_drive_fork [OF assms]]
        hands_andthen [OF hands_sleep [OF assms]] hands_andthen [OF hands_kill [OF s]] hands_ret subset_refl)+
  show ?thesis unfolding spike_g_def Let_def
    by (rule hands_andthen [OF hands_seal_base [OF assms hands_g_probe [OF assms]]] hands_andthen [OF hands_in_turn [OF child]]
        hands_still [OF s still_files(5)] hands_andthen [OF hands_lift] hands_ret subset_refl)+
qed

lemma spike_h_hands:
  assumes "births_by_popen P"
  shows "hands P {} (\<lambda>_. {}) (spike_h P kern rootfs mem_mib work n load_s)"
proof -
  note s = births_sigkill [OF assms]
  have child: "hands P {} (\<lambda>_. {}) (h_child P spec work uds snap mem i)" for spec uds snap mem i
    unfolding h_child_def
    by (rule hands_still [OF s still_unlink] hands_andthen [OF hands_fork_one [OF assms]] hands_andthen [OF hands_vsock [OF assms]]
        hands_andthen [OF hands_sleep [OF assms]] hands_andthen [OF hands_kill [OF s]] hands_ret subset_refl)+
  have probe: "hands P A (\<lambda>_. A) (andthen (vsock_request P uds 5000 m) (\<lambda>c. andthen (lift_sum (json_get c k)) (\<lambda>_. ret c)))" for A uds m k
    by (rule hands_andthen [OF hands_vsock [OF assms]] hands_andthen [OF hands_lift] hands_ret subset_refl)+
  show ?thesis unfolding spike_h_def Let_def
    by (rule hands_andthen [OF hands_seal_base [OF assms probe]] hands_andthen [OF hands_in_turn [OF child]] hands_lift)+
qed

lemma spike_i_hands:
  assumes "births_by_popen P"
  shows "hands P {} (\<lambda>_. {}) (spike_i P kern rootfs mem_mib work n)"
proof -
  note s = births_sigkill [OF assms]
  have probe: "hands P A (\<lambda>_. A) (i_probe P uds)" for A uds
    unfolding i_probe_def by (rule hands_andthen [OF hands_vsock [OF assms]] hands_sleep [OF assms])+
  show ?thesis unfolding spike_i_def Let_def
    by (rule hands_still [OF s still_unlink] hands_andthen [OF hands_seal_base [OF assms probe]] hands_still [OF s still_files(1)]
        hands_andthen [OF hands_fork_all [OF assms]] hands_still [OF s still_files(8)] hands_andthen [OF hands_in_turn [OF hands_drive_fork [OF assms]]]
        hands_andthen [OF hands_sleep [OF assms]] hands_andthen [OF hands_kill_all [OF s]] hands_still [OF s still_files(5)]
        hands_andthen [OF hands_lift] hands_still [OF s still_files(9)] hands_ret subset_refl)+
qed

definition fork_pids :: "microvm list \<times> rat \<times> nat list \<Rightarrow> nat set" where
  "fork_pids x = (case x of (cs, wall, hs) \<Rightarrow> (\<Union>c\<in>set cs. pids_of c) \<union> set hs)"

lemma hands_uffd_loop:
  assumes "births_by_popen P"
  shows "hands P A (\<lambda>(cs, hs). (\<Union>c\<in>set cs. pids_of c) \<union> set hs \<union> A) (fork_uffd_loop P bin spec work snap mem is)"
proof (induction "is" arbitrary: A)
  case (Cons i "is")
  show ?case unfolding fork_uffd_loop.simps Let_def
    by (rule hands_andthen [OF hands_popen [OF assms]], rule hands_andthen [OF hands_wait_file [OF assms]],
        rule hands_andthen [OF hands_fork_vm [OF assms]], rule hands_andthen [OF Cons])
      (auto simp: hands_def ret_def)
qed (simp add: hands_ret)

lemma hands_mechanism:
  assumes "births_by_popen P"
  shows "hands P {} fork_pids (case mech of
      FileCow \<Rightarrow> andthen (fork_file_cow P spec work snap mem n) (\<lambda>(cs, wall). ret (cs, wall, []))
    | Uffd \<Rightarrow> fork_uffd P bin spec work snap mem n)"
proof (cases mech)
  case FileCow
  have "hands P {} (\<lambda>(cs, wall). \<Union>c\<in>set cs. pids_of c) (fork_file_cow P spec work snap mem n)"
    unfolding fork_file_cow_def
    by (rule hands_still [OF births_sigkill [OF assms] still_files(1)] hands_andthen [OF hands_fork_all [OF assms]] | simp add: hands_ret)+
  then show ?thesis unfolding FileCow mechanism.case
    by (rule hands_andthen) (auto simp: hands_def ret_def fork_pids_def)
next
  case Uffd
  note s = births_sigkill [OF assms]
  have loop: "hands P {} (\<lambda>(cs, hs). (\<Union>c\<in>set cs. pids_of c) \<union> set hs) (fork_uffd_loop P bin spec work snap mem [0..<n])"
    using hands_uffd_loop [OF assms, of "{}"] by simp
  have last: "hands P (case x of (cs, hs) \<Rightarrow> (\<Union>c\<in>set cs. pids_of c) \<union> set hs) fork_pids
      (case x of (cs, hs) \<Rightarrow> andthen time_now (\<lambda>t1. ret (cs, (t1 - t0) * 1000, hs)))" for x t0
    by (cases x) (auto simp: hands_def ret_def time_now_def andthen_def fork_pids_def)
  show ?thesis unfolding Uffd mechanism.case fork_uffd_def
    by (rule hands_still [OF s still_exists] hands_still [OF s still_files(1)] hands_andthen [OF loop] last)+
qed

lemma hands_observe_forks:
  assumes "births_by_popen P"
  shows "hands P (fork_pids (cs, wall, hs)) (\<lambda>_. {}) (observe_forks P procfs observe cs hs)"
proof -
  note s = births_sigkill [OF assms]
  let ?A = "(\<Union>c\<in>set cs. pids_of c) \<union> set hs"
  have watch: "hands P ?A (\<lambda>_. ?A) (andthen (sleep_for P observe) (\<lambda>_. all_pss procfs cs))"
    by (rule hands_andthen [OF hands_sleep [OF assms]] still_hands [OF s still_all_pss])+
  have "hands P ?A (\<lambda>_. set hs) (kill_all P cs)" using hands_frame [OF hands_kill_all [OF s, of cs], of "set hs"] by simp
  then have "hands P ?A (\<lambda>_. {}) (andthen (kill_all P cs) (\<lambda>_. kill_handlers P hs))"
    by (rule hands_andthen) (rule hands_kill_handlers [OF s])
  then show ?thesis unfolding observe_forks_def fork_pids_def prod.case by (rule hands_protect [OF watch])
qed

lemma spike_b_hands:
  assumes "births_by_popen P"
  shows "hands P {} (\<lambda>_. {}) (spike_b P procfs mech bin spec work forks settle observe)"
proof -
  note s = births_sigkill [OF assms]
  have rest: "hands P (fork_pids x) (\<lambda>_. {}) (case x of (children, wall, handlers) \<Rightarrow>
      andthen (observe_forks P procfs observe children handlers) (\<lambda>child_pss. ret (b_evaluate forks base_pss wall child_pss)))" for x base_pss
    by (cases x) (auto intro!: hands_andthen [OF hands_observe_forks [OF assms]] hands_ret)
  show ?thesis unfolding spike_b_def Let_def
    by (rule hands_still [OF s still_require] hands_andthen [OF hands_seal_base [OF assms still_hands [OF s still_files(6)]]]
        hands_andthen [OF hands_mechanism [OF assms]] rest)+
qed

lemma no_new_poll:
  assumes "births_by_popen P" "keeps (no_new P) step"
  shows "no_new P h (snd (poll P gap step deadline h))"
  using assms
proof (induction P gap step deadline h rule: poll.induct)
  case (1 P gap step deadline h)
  note s = births_sigkill [OF "1.prems"(1)]
  obtain r h1 where t: "timed step h = (r, h1)" by fastforce
  have s1: "no_new P h h1"
    using keeps_snd [OF no_new_timed [OF s keeps_snd [OF "1.prems"(2)]], of h] t by simp
  show ?case
  proof (cases "h_clock h < deadline \<and> 0 < gap \<and> r = Inr None")
    case True
    have "no_new P (py_sleep P gap h1) (snd (poll P gap step deadline (py_sleep P gap h1)))"
      using "1.IH" True t "1.prems" by (metis (no_types))
    then have "no_new P h (snd (poll P gap step deadline (py_sleep P gap h1)))"
      using s1 no_new_sleep [OF "1.prems"(1), of h1 gap] births.R_trans by blast
    with True t show ?thesis by (subst poll.simps) simp
  next
    case False
    then show ?thesis using s1 t by (subst poll.simps) (auto simp: births.R_refl split: sum.splits option.splits)
  qed
qed

lemma hands_poll: "births_by_popen P \<Longrightarrow> keeps (no_new P) step \<Longrightarrow> hands P A (\<lambda>_. A) (poll P gap step deadline)"
  by (rule hands_keeps, rule keepsI) (rule no_new_poll)

lemma no_new_bstate:
  assumes "births_by_popen P"
  shows "keeps (no_new P) (bstate P uds)"
proof (rule keepsI)
  fix h
  show "no_new P h (snd (bstate P uds h))"
    using keeps_snd [OF no_new_vsock [OF assms], of h uds 5000 "simple_message ''BROWSER_CHECK''"]
    by (auto simp: bstate_def split: prod.splits sum.splits)
qed

lemma hands_browser_waits:
  assumes "births_by_popen P"
  shows "hands P A (\<lambda>_. A) (wait_pong P uds d)" "hands P A (\<lambda>_. A) (wait_browser P uds d)" "hands P A (\<lambda>_. A) (bstate P uds)"
proof -
  note s = births_sigkill [OF assms]
  have ping: "keeps (no_new P) (ping_step P uds)" unfolding ping_step_def
    by (intro births.keeps_attempt births.keeps_andthen no_new_vsock [OF assms] no_new_lift births.keeps_ret)
  have token: "keeps (no_new P) (token_step P uds)" unfolding token_step_def
    by (rule births.keeps_andthen [OF no_new_bstate [OF assms]]) (auto intro: births.keeps_ret split: prod.split)
  show "hands P A (\<lambda>_. A) (wait_pong P uds d)" "hands P A (\<lambda>_. A) (wait_browser P uds d)" unfolding wait_pong_def wait_browser_def
    by (rule hands_still [OF s still_files(1)] hands_andthen [OF hands_poll [OF assms ping]] hands_poll [OF assms token] hands_ret subset_refl)+
  show "hands P A (\<lambda>_. A) (bstate P uds)" by (rule hands_keeps [OF no_new_bstate [OF assms]])
qed

lemma hands_check_fork:
  assumes "births_by_popen P"
  shows "hands P A (\<lambda>_. A) (check_fork P uds tok)"
proof -
  have later: "hands P A (\<lambda>_. A) (case x of (tok1, s1) \<Rightarrow> andthen (sleep_for P 1) (\<lambda>_.
      andthen (bstate P uds) (\<lambda>(_, s2). ret (judge_fork tok tok1 s1 s2))))" for x
    by (cases x) (auto intro!: hands_andthen [OF hands_sleep [OF assms]] hands_andthen [OF hands_browser_waits(3) [OF assms]] hands_ret)
  show ?thesis unfolding check_fork_def
    by (rule hands_andthen [OF hands_browser_waits(1) [OF assms]] hands_andthen [OF hands_browser_waits(3) [OF assms]] later)+
qed

lemma hands_throw: "hands P A f (throw e)"
  by (simp add: hands_def throw_def)

lemma hands_browser_base:
  assumes "births_by_popen P"
  shows "hands P {} (\<lambda>_. {}) (browser_base P spec work snap mem)"
proof -
  note s = births_sigkill [OF assms] and waits = hands_browser_waits [OF assms]
  have none: "hands P (pids_of b) (\<lambda>_. {}) (andthen (bstate P uds) (\<lambda>(_, dbg). andthen (kill P b) (\<lambda>_. throw (e dbg))))" for b uds e
    by (rule hands_andthen [OF waits(3)]) (auto intro!: hands_andthen [OF hands_kill [OF s]] hands_throw)
  have some: "hands P (pids_of b) (\<lambda>_. {}) (andthen (bstate P uds) (\<lambda>_. andthen (pause P b) (\<lambda>_.
      andthen (vm_snapshot P b snap mem False) (\<lambda>_. andthen (kill P b) (\<lambda>_. ret t)))))" for b uds and t :: json
    unfolding pause_def vm_snapshot_def
    by (rule hands_andthen [OF waits(3)] hands_andthen [OF hands_requests [OF assms]] hands_andthen [OF hands_kill [OF s]] hands_ret subset_refl)+
  show ?thesis
    unfolding browser_base_def Let_def configure_and_start_def
    by (rule hands_andthen [OF hands_spawn [OF assms, of "{}", simplified]], rule hands_andthen [OF hands_requests [OF assms]],
        rule hands_andthen [OF waits(1)])
      (auto intro!: hands_throw hands_andthen [OF waits(2)] none some split: option.split)
qed

lemma spike_j_hands:
  assumes "births_by_popen P"
  shows "hands P {} (\<lambda>_. {}) (spike_j P kern rootfs mem_mib work n)"
  unfolding spike_j_def Let_def
  by (rule hands_andthen [OF hands_browser_base [OF assms]] hands_andthen [OF hands_fork_all [OF assms]]
      hands_andthen [OF hands_in_turn [OF hands_check_fork [OF assms]]] hands_andthen [OF hands_kill_all [OF births_sigkill [OF assms]]]
      hands_ret subset_refl)+

section \<open>Nothing is left running\<close>

text \<open>After \<open>m\<close> has returned, every process that runs was already running when it was called.\<close>

definition leaves_nothing :: "'v platform \<Rightarrow> ('v, 'a) hostm \<Rightarrow> bool" where
  "leaves_nothing P m \<longleftrightarrow> (\<forall>h x h' pid. m h = (Inr x, h') \<and> pf_alive P pid h' \<longrightarrow> pf_alive P pid h)"

lemma leaves_nothingI: "hands P {} (\<lambda>_. {}) m \<Longrightarrow> leaves_nothing P m"
  unfolding leaves_nothing_def hands_def dead_def by blast

text \<open>
  C23. An experiment that returns its report has cleaned up: whatever the guests and Firecracker answered,
  and however many forks were asked for, no process runs afterwards that was not running before.
\<close>

theorem experiments_leave_nothing:
  assumes "births_by_popen P"
  shows "leaves_nothing P (spike_a P spec work n d) \<and> leaves_nothing P (spike_b P procfs mech bin spec work n d d') \<and>
    leaves_nothing P (spike_c P kern rootfs mem_mib mode work n d d') \<and> leaves_nothing P (spike_e P kern rootfs work d) \<and>
    leaves_nothing P (spike_f P blocks kern rootfs work) \<and> leaves_nothing P (spike_g P kern rootfs mem_mib work n) \<and>
    leaves_nothing P (spike_h P kern rootfs mem_mib work n d) \<and> leaves_nothing P (spike_i P kern rootfs mem_mib work n) \<and>
    leaves_nothing P (spike_j P kern rootfs mem_mib work n) \<and> leaves_nothing P (smoke P kern rootfs work)"
  using spike_a_hands spike_b_hands spike_c_hands spike_e_hands spike_f_hands spike_g_hands spike_h_hands spike_i_hands spike_j_hands smoke_hands
    assms leaves_nothingI by metis

text \<open>A toy machine with processes: every one that is started has its socket at once.\<close>

definition demo_machine :: "nat list platform" where
  "demo_machine = demo_processes\<lparr>pf_popen := (\<lambda>cmd h. (Inr (Suc (sum_list (h_mach h))),
     h\<lparr>h_files := (h_files h)(last cmd := Some []), h_mach := Suc (sum_list (h_mach h)) # h_mach h\<rparr>))\<rparr>"

lemma demo_machine_births: "births_by_popen demo_machine"
  by (auto simp: births_by_popen_def sigkill_ok_def demo_machine_def demo_processes_def)

lemma demo_machine_boots: "boots demo_machine"
  by (simp add: boots_def demo_machine_def demo_processes_def)

theorem experiments_leave_nothing_witness:
  "\<exists>r h'. spike_c demo_machine ''k'' ''r'' 512 Vanilla ''w'' 3 1 1 \<lparr>h_files = (\<lambda>_. Some []), h_clock = 0, h_mach = [7]\<rparr> = (Inr r, h') \<and>
     (\<forall>pid. pf_alive demo_machine pid h' \<longrightarrow> pid = 7)"
proof -
  let ?h = "\<lparr>h_files = (\<lambda>_. Some []), h_clock = 0, h_mach = [7]\<rparr> :: nat list host"
  let ?spec = "c_spec ''k'' ''r'' 512 Vanilla"
  note b = demo_machine_boots
  have "goes (kill_all demo_machine cs)" for cs by (induction cs) (auto intro: goes_andthen goes_kill goes_ret)
  then have watch: "goes (protect (sleep_for demo_machine 1) (kill_all demo_machine cs))" for cs by (intro goes_protect goes_sleep)
  have "goes (andthen (seal_base demo_machine (console_base ?spec ''w'') 1 s m (\<lambda>_. ret ())) (\<lambda>_.
      andthen (fork_vms demo_machine (console_child ?spec ''w'') s m [0..<3]) (\<lambda>children.
      andthen (protect (sleep_for demo_machine 1) (kill_all demo_machine children)) (\<lambda>_.
      andthen (read_consoles cs) (\<lambda>consoles. ret (c_evaluate consoles))))))" for s m cs
    by (intro goes_andthen goes_seal_base [OF b] goes_fork_vms [OF b] watch goes_ret)
      (simp_all add: console_base_def console_child_def microvm_init_def goes_def read_consoles_def)
  from goes_run [OF this, of "path_join ''w'' ''base.snapshot''" "path_join ''w'' ''base.mem''" "map (child_console ''w'') [0..<3]" ?h]
  obtain r h' where go: "andthen (seal_base demo_machine (console_base ?spec ''w'') 1 (path_join ''w'' ''base.snapshot'')
        (path_join ''w'' ''base.mem'') (\<lambda>_. ret ())) (\<lambda>_.
      andthen (fork_vms demo_machine (console_child ?spec ''w'') (path_join ''w'' ''base.snapshot'') (path_join ''w'' ''base.mem'') [0..<3]) (\<lambda>children.
      andthen (protect (sleep_for demo_machine 1) (kill_all demo_machine children)) (\<lambda>_.
      andthen (read_consoles (map (child_console ''w'') [0..<3])) (\<lambda>consoles. ret (c_evaluate consoles))))) ?h = (Inr r, h')" by blast
  have "spike_c demo_machine ''k'' ''r'' 512 Vanilla ''w'' 3 1 1 ?h = (Inr r, h')"
    unfolding spike_c_def Let_def by (subst andthen_Inr, simp add: exists_file_def) (rule go)
  moreover have "leaves_nothing demo_machine (spike_c demo_machine ''k'' ''r'' 512 Vanilla ''w'' 3 1 1)"
    by (rule experiments_leave_nothing [OF demo_machine_births, THEN conjunct2, THEN conjunct2, THEN conjunct1])
  ultimately have "pf_alive demo_machine pid ?h" if "pf_alive demo_machine pid h'" for pid
    using that unfolding leaves_nothing_def by blast
  then have "\<forall>pid. pf_alive demo_machine pid h' \<longrightarrow> pid = 7" by (simp add: demo_machine_def demo_processes_def)
  with \<open>spike_c _ _ _ _ _ _ _ _ _ _ = _\<close> show ?thesis by blast
qed

end
