(* ===== verification/Image_Race.thy ===== *)
theory Image_Race
  imports Memory_Images
begin

text \<open>
  Several requests that fork one snapshot at the same time. \<open>ThreadingHTTPServer\<close> gives every request
  a thread, and \<open>_reconstruct_mem\<close> takes no lock, so its file operations interleave: the test whether
  the image is there, the opening of the temporary file (which truncates it), the writes through the
  buffer of the file object, and the renaming. The file system has inodes here, because a thread goes
  on writing to the file it opened after another thread has renamed that file to the image.
\<close>

section \<open>Files with inodes\<close>

text \<open>An inode is named by the path it had when the requests came in, or by a number if it was made since.\<close>

type_synonym inode = "string + nat"

text \<open>Where a thread stands in \<open>_reconstruct_mem\<close>: before the existence test, before reading the manifest,
  before opening the temporary file, inside the \<open>with\<close> block (the inode it writes to, the offset, what
  the buffer holds, and the hashes to come), before \<open>os.replace\<close>, and at its end.\<close>

datatype fork_phase =
    Asked
  | Absent
  | Manifest json
  | Filling inode nat bytes "string list"
  | Filled
  | Answered string
  | Raised exn

record 'srv race =
  rc_data :: "inode \<Rightarrow> bytes"
  rc_made :: nat
  rc_dir :: "string \<Rightarrow> inode option"
  rc_store :: "'srv cas"
  rc_phase :: "nat \<Rightarrow> fork_phase"

definition rc_file :: "'srv race \<Rightarrow> string \<Rightarrow> bytes option" where
  "rc_file s p = map_option (rc_data s) (rc_dir s p)"

definition now_at :: "nat \<Rightarrow> fork_phase \<Rightarrow> 'srv race \<Rightarrow> 'srv race" where
  "now_at t ph s = s\<lparr>rc_phase := (rc_phase s)(t := ph)\<rparr>"

text \<open>\<open>pwrite\<close>: the bytes land at the offset of the writer; a gap behind the end of the file reads as zeros.\<close>

definition write_at :: "nat \<Rightarrow> bytes \<Rightarrow> bytes \<Rightarrow> bytes" where
  "write_at pos d c =
     (if d = [] then c else take pos (c @ replicate (pos - length c) 0) @ d @ drop (pos + length d) c)"

definition put_data :: "inode \<Rightarrow> nat \<Rightarrow> bytes \<Rightarrow> 'srv race \<Rightarrow> 'srv race" where
  "put_data i pos d s = s\<lparr>rc_data := (rc_data s)(i := write_at pos d (rc_data s i))\<rparr>"

text \<open>\<open>open(tmp, "wb")\<close>: the file of that name is emptied, a new one is made when there is none.\<close>

definition open_tmp :: "string \<Rightarrow> 'srv race \<Rightarrow> inode \<times> 'srv race" where
  "open_tmp tmp s =
     (case rc_dir s tmp of
        Some i \<Rightarrow> (i, s\<lparr>rc_data := (rc_data s)(i := [])\<rparr>)
      | None \<Rightarrow> (let i = Inr (rc_made s)
                 in (i, s\<lparr>rc_data := (rc_data s)(i := []), rc_dir := (rc_dir s)(tmp := Some i), rc_made := rc_made s + 1\<rparr>)))"

definition rename :: "string \<Rightarrow> string \<Rightarrow> 'srv race \<Rightarrow> 'srv race" where
  "rename src dst s = s\<lparr>rc_dir := (rc_dir s)(dst := rc_dir s src, src := None)\<rparr>"

section \<open>The steps of a request\<close>

text \<open>The next operation of thread \<open>t\<close>. Leaving the \<open>with\<close> block, also by an exception, writes out the buffer.\<close>

definition advance :: "('v, 'srv) engine \<Rightarrow> string \<Rightarrow> nat \<Rightarrow> 'srv race \<Rightarrow> 'srv race" where
  "advance ev sid t s =
     (let mem = snap_file ev sid ''mem''; man = snap_file ev sid ''mem.manifest''; tmp = mem @ ''.tmp''
      in case rc_phase s t of
        Asked \<Rightarrow> now_at t (if rc_file s mem \<noteq> None \<or> rc_file s man = None then Answered mem else Absent) s
      | Absent \<Rightarrow>
          (case rc_file s man of
             None \<Rightarrow> now_at t (Raised (no_such_file man)) s
           | Some text \<Rightarrow>
               (case loads (pf_codec (ev_plat ev)) (decode_bytes text) of
                  Inl e \<Rightarrow> now_at t (Raised e) s
                | Inr m \<Rightarrow> now_at t (Manifest m) s))
      | Manifest m \<Rightarrow>
          (let (i, s1) = open_tmp tmp s
           in case manifest_hashes m of
                Inl e \<Rightarrow> now_at t (Raised e) s1
              | Inr hs \<Rightarrow> now_at t (Filling i 0 [] hs) s1)
      | Filling i pos buf [] \<Rightarrow> now_at t Filled (put_data i pos buf s)
      | Filling i pos buf (h # hs) \<Rightarrow>
          (case cas_get (ev_cas ev) h (rc_store s) of
             (Inl e, st) \<Rightarrow> now_at t (Raised e) (put_data i pos buf (s\<lparr>rc_store := st\<rparr>))
           | (Inr b, st) \<Rightarrow> now_at t (Filling i pos (buf @ b) hs) (s\<lparr>rc_store := st\<rparr>))
      | Filled \<Rightarrow>
          (case rc_dir s tmp of
             None \<Rightarrow> now_at t (Raised (no_such_file tmp)) s
           | Some _ \<Rightarrow> now_at t (Answered mem) (rename tmp mem s))
      | Answered _ \<Rightarrow> s
      | Raised _ \<Rightarrow> s)"

text \<open>The file object hands the first \<open>k\<close> bytes of its buffer to the system; it may do so at any moment.\<close>

definition drain :: "nat \<Rightarrow> nat \<Rightarrow> 'srv race \<Rightarrow> 'srv race" where
  "drain t k s =
     (case rc_phase s t of
        Filling i pos buf hs \<Rightarrow>
          now_at t (Filling i (pos + length (take k buf)) (drop k buf) hs) (put_data i pos (take k buf) s)
      | _ \<Rightarrow> s)"

inductive image_run :: "('v, 'srv) engine \<Rightarrow> string \<Rightarrow> nat set \<Rightarrow> 'srv race \<Rightarrow> 'srv race \<Rightarrow> bool"
  for ev sid T s0 where
  start: "image_run ev sid T s0 s0"
| move: "image_run ev sid T s0 s \<Longrightarrow> t \<in> T \<Longrightarrow> image_run ev sid T s0 (advance ev sid t s)"
| spill: "image_run ev sid T s0 s \<Longrightarrow> t \<in> T \<Longrightarrow> image_run ev sid T s0 (drain t k s)"

text \<open>The moment the requests come in: nobody has started, and the files are those of the host.\<close>

definition race_of :: "('v, 'srv) world \<Rightarrow> 'srv race" where
  "race_of w = \<lparr>rc_data = (\<lambda>i. case i of Inl p \<Rightarrow> (case h_files (w_host w) p of None \<Rightarrow> [] | Some d \<Rightarrow> d) | Inr _ \<Rightarrow> []),
     rc_made = 0, rc_dir = (\<lambda>p. if h_files (w_host w) p = None then None else Some (Inl p)),
     rc_store = w_store w, rc_phase = (\<lambda>_. Asked)\<rparr>"

lemma race_of_simps [simp]:
  "rc_file (race_of w) = h_files (w_host w)" "rc_store (race_of w) = w_store w" "rc_phase (race_of w) t = Asked"
  by (auto simp: race_of_def rc_file_def fun_eq_iff)

lemma now_at_simps [simp]:
  "rc_file (now_at t ph s) = rc_file s" "rc_store (now_at t ph s) = rc_store s" "rc_data (now_at t ph s) = rc_data s"
  "rc_dir (now_at t ph s) = rc_dir s" "rc_made (now_at t ph s) = rc_made s"
  "rc_phase (now_at t ph s) u = (if u = t then ph else rc_phase s u)"
  by (simp_all add: now_at_def rc_file_def fun_eq_iff)

lemma put_data_simps [simp]:
  "rc_store (put_data i pos d s) = rc_store s" "rc_phase (put_data i pos d s) = rc_phase s"
  "rc_dir (put_data i pos d s) = rc_dir s" "rc_made (put_data i pos d s) = rc_made s"
  "rc_data (put_data i pos d s) = (rc_data s)(i := write_at pos d (rc_data s i))"
  by (simp_all add: put_data_def)

lemma write_at_end [simp]: "write_at (length c) d c = c @ d"
  by (simp add: write_at_def)

lemma write_at_none [simp]: "write_at pos [] c = c"
  by (simp add: write_at_def)

section \<open>A request that runs alone\<close>

text \<open>No two names for one inode, and numbers not yet given are free.\<close>

definition inodes_ok :: "'srv race \<Rightarrow> bool" where
  "inodes_ok s \<longleftrightarrow> inj_on (rc_dir s) (dom (rc_dir s)) \<and> (\<forall>p n. rc_dir s p = Some (Inr n) \<longrightarrow> n < rc_made s)"

lemma race_of_inodes [simp]: "inodes_ok (race_of w)"
  by (auto simp: inodes_ok_def race_of_def inj_on_def dom_def split: if_splits)

lemma inodes_ok_now_at [simp]: "inodes_ok (now_at t ph s) = inodes_ok s"
  by (simp add: inodes_ok_def)

lemma inodes_ok_put_data [simp]: "inodes_ok (put_data i pos d s) = inodes_ok s"
  by (simp add: inodes_ok_def)

lemma inodes_ok_store [simp]: "inodes_ok (s\<lparr>rc_store := st\<rparr>) = inodes_ok s"
  by (simp add: inodes_ok_def)

lemma inodes_ok_one: "inodes_ok s \<Longrightarrow> rc_dir s p = Some i \<Longrightarrow> rc_dir s q = Some i \<Longrightarrow> p = q"
  by (auto simp: inodes_ok_def inj_on_def dom_def)

lemma open_tmp_result:
  assumes "open_tmp tmp s = (i, s1)"
  shows "rc_dir s1 tmp = Some i \<and> rc_data s1 i = [] \<and> rc_store s1 = rc_store s \<and> rc_phase s1 = rc_phase s \<and>
    (\<forall>p. p \<noteq> tmp \<longrightarrow> rc_dir s1 p = rc_dir s p) \<and> (\<forall>j. j \<noteq> i \<longrightarrow> rc_data s1 j = rc_data s j) \<and>
    (rc_dir s tmp = Some i \<or> rc_dir s tmp = None \<and> i = Inr (rc_made s)) \<and> rc_made s \<le> rc_made s1"
  using assms by (auto simp: open_tmp_def Let_def split: option.splits)

lemma open_tmp_inodes:
  assumes "open_tmp tmp s = (i, s1)" "inodes_ok s"
  shows "inodes_ok s1"
proof (cases "rc_dir s tmp")
  case None
  with assms(1) have s1: "rc_dir s1 = (rc_dir s)(tmp := Some (Inr (rc_made s)))" "rc_made s1 = rc_made s + 1"
    by (auto simp: open_tmp_def Let_def)
  have n: "rc_dir s p \<noteq> Some (Inr (rc_made s))" for p using assms(2) by (auto simp: inodes_ok_def)
  show ?thesis
    unfolding inodes_ok_def
  proof (intro conjI allI impI)
    show "inj_on (rc_dir s1) (dom (rc_dir s1))"
      using assms(2) n by (auto simp: s1 inj_on_def inodes_ok_def dom_def split: if_splits)
    fix p m assume "rc_dir s1 p = Some (Inr m)"
    with assms(2) show "m < rc_made s1" by (auto simp: s1 inodes_ok_def less_Suc_eq split: if_splits)
  qed
next
  case (Some j)
  with assms show ?thesis by (auto simp: open_tmp_def inodes_ok_def)
qed

lemma open_tmp_files:
  assumes "open_tmp tmp s = (i, s1)" "inodes_ok s"
  shows "rc_file s1 = (rc_file s)(tmp := Some [])"
proof (rule ext)
  fix p
  note res = open_tmp_result [OF assms(1)]
  show "rc_file s1 p = ((rc_file s)(tmp := Some [])) p"
  proof (cases "p = tmp")
    case True
    with res show ?thesis by (simp add: rc_file_def)
  next
    case False
    have "rc_dir s p \<noteq> Some i"
      using res False inodes_ok_one [OF assms(2), of p i tmp] assms(2) by (auto simp: inodes_ok_def)
    with res False show ?thesis by (cases "rc_dir s p") (auto simp: rc_file_def)
  qed
qed

lemma put_data_files:
  assumes "inodes_ok s" "rc_dir s p = Some i"
  shows "rc_file (put_data i pos d s) = (rc_file s)(p := Some (write_at pos d (rc_data s i)))"
proof (rule ext)
  fix q
  show "rc_file (put_data i pos d s) q = ((rc_file s)(p := Some (write_at pos d (rc_data s i)))) q"
    using inodes_ok_one [OF assms(1), of q i p] assms(2)
    by (cases "rc_dir s q") (auto simp: rc_file_def)
qed

lemma rename_files:
  assumes "src \<noteq> dst"
  shows "rc_file (rename src dst s) = (rc_file s)(dst := rc_file s src, src := None)"
  using assms by (auto simp: rc_file_def rename_def)

lemma rename_simps [simp]:
  "rc_store (rename src dst s) = rc_store s" "rc_phase (rename src dst s) = rc_phase s" "rc_data (rename src dst s) = rc_data s"
  "rc_made (rename src dst s) = rc_made s"
  by (simp_all add: rename_def)

lemma rename_inodes: "inodes_ok s \<Longrightarrow> src \<noteq> dst \<Longrightarrow> rc_dir s src = Some i \<Longrightarrow> inodes_ok (rename src dst s)"
  unfolding inodes_ok_def rename_def
  by (auto simp: inj_on_def dom_def split: if_splits)

text \<open>What the atomic definition still has to do from where the thread stands.\<close>

definition world_with :: "('v, 'srv) world \<Rightarrow> (string \<Rightarrow> bytes option) \<Rightarrow> 'srv cas \<Rightarrow> ('v, 'srv) world" where
  "world_with w F st = w\<lparr>w_host := (w_host w)\<lparr>h_files := F\<rparr>, w_store := st\<rparr>"

abbreviation race_world :: "('v, 'srv) world \<Rightarrow> 'srv race \<Rightarrow> ('v, 'srv) world" where
  "race_world w s \<equiv> world_with w (rc_file s) (rc_store s)"

lemma on_host_with:
  "on_host (read_file p) (world_with w F st) = (case F p of None \<Rightarrow> Inl (no_such_file p) | Some d \<Rightarrow> Inr d, world_with w F st)"
  "on_host (write_file p d) (world_with w F st) = (Inr (), world_with w (F(p := Some d)) st)"
  "F p = Some old \<Longrightarrow> on_host (append_file p d) (world_with w F st) = (Inr (), world_with w (F(p := Some (old @ d))) st)"
  by (auto simp: on_host_def read_file_def write_file_def append_file_def andthen_def world_with_def intro!: world.equality split: option.split)

lemma replace_with:
  "src \<noteq> dst \<Longrightarrow> F src = Some d \<Longrightarrow>
    on_host (replace_file src dst) (world_with w F st) = (Inr (), world_with w (F(dst := Some d, src := None)) st)"
  by (auto simp: on_host_def read_file_def write_file_def replace_file_def remove_file_def exists_file_def andthen_def world_with_def
      intro!: world.equality)

lemma on_store_with:
  "on_store (cas_get c h) (world_with w F st) = (fst (cas_get c h st), world_with w F (snd (cas_get c h st)))"
  by (auto simp: on_store_def world_with_def split: prod.split)

lemma exists_with [simp]: "exists_file p (w_host (world_with w F st)) = (F p \<noteq> None)"
  by (simp add: exists_file_def world_with_def)

definition fill_rest :: "('v, 'srv) engine \<Rightarrow> string \<Rightarrow> string list \<Rightarrow> ('v, 'srv, string) enginem" where
  "fill_rest ev mem hs =
     andthen (write_chunks ev (mem @ ''.tmp'') hs) (\<lambda>_. andthen (on_host (replace_file (mem @ ''.tmp'') mem)) (\<lambda>_. ret mem))"

definition manifest_rest :: "('v, 'srv) engine \<Rightarrow> string \<Rightarrow> json \<Rightarrow> ('v, 'srv, string) enginem" where
  "manifest_rest ev mem m =
     andthen (on_host (write_file (mem @ ''.tmp'') [])) (\<lambda>_. andthen (lift_sum (manifest_hashes m)) (fill_rest ev mem))"

definition absent_rest :: "('v, 'srv) engine \<Rightarrow> string \<Rightarrow> ('v, 'srv, string) enginem" where
  "absent_rest ev sid =
     andthen (on_host (read_file (snap_file ev sid ''mem.manifest''))) (\<lambda>text.
     andthen (lift_sum (loads (pf_codec (ev_plat ev)) (decode_bytes text))) (manifest_rest ev (snap_file ev sid ''mem'')))"

definition remaining :: "('v, 'srv) engine \<Rightarrow> string \<Rightarrow> nat \<Rightarrow> ('v, 'srv) world \<Rightarrow> 'srv race \<Rightarrow> (exn + string) \<times> ('v, 'srv) world" where
  "remaining ev sid t w s =
     (let mem = snap_file ev sid ''mem'' in
      case rc_phase s t of
        Asked \<Rightarrow> reconstruct_mem ev sid (race_world w s)
      | Absent \<Rightarrow> absent_rest ev sid (race_world w s)
      | Manifest m \<Rightarrow> manifest_rest ev mem m (race_world w s)
      | Filling i pos buf hs \<Rightarrow>
          fill_rest ev mem hs (world_with w ((rc_file s)(mem @ ''.tmp'' := Some (rc_data s i @ buf))) (rc_store s))
      | Filled \<Rightarrow> fill_rest ev mem [] (race_world w s)
      | Answered p \<Rightarrow> (Inr p, race_world w s)
      | Raised e \<Rightarrow> (Inl e, race_world w s))"

definition solo_ok :: "('v, 'srv) engine \<Rightarrow> string \<Rightarrow> nat \<Rightarrow> 'srv race \<Rightarrow> bool" where
  "solo_ok ev sid t s \<longleftrightarrow> inodes_ok s \<and>
     (case rc_phase s t of
        Filling i pos buf hs \<Rightarrow> rc_dir s (snap_file ev sid ''mem'' @ ''.tmp'') = Some i \<and> pos = length (rc_data s i)
      | Filled \<Rightarrow> rc_dir s (snap_file ev sid ''mem'' @ ''.tmp'') \<noteq> None
      | _ \<Rightarrow> True)"

lemma reconstruct_mem_rest:
  "reconstruct_mem ev sid w =
    (if exists_file (snap_file ev sid ''mem'') (w_host w) \<or> \<not> exists_file (snap_file ev sid ''mem.manifest'') (w_host w)
     then (Inr (snap_file ev sid ''mem''), w) else absent_rest ev sid w)"
  by (simp add: reconstruct_mem_def absent_rest_def manifest_rest_def [abs_def] fill_rest_def [abs_def] Let_def)

text \<open>Every step of the thread does a part of it.\<close>

lemma advance_asked:
  assumes "rc_phase s t = Asked"
  shows "remaining ev sid t w (advance ev sid t s) = remaining ev sid t w s"
  using assms by (auto simp: remaining_def advance_def Let_def reconstruct_mem_rest)

lemma advance_absent:
  assumes "rc_phase s t = Absent"
  shows "remaining ev sid t w (advance ev sid t s) = remaining ev sid t w s"
  using assms by (auto simp: remaining_def advance_def Let_def absent_rest_def andthen_def on_host_with lift_sum_def
      split: option.split sum.split)

lemma advance_manifest:
  assumes "rc_phase s t = Manifest m" "inodes_ok s"
  shows "remaining ev sid t w (advance ev sid t s) = remaining ev sid t w s"
proof -
  obtain i s1 where o: "open_tmp (snap_file ev sid ''mem'' @ ''.tmp'') s = (i, s1)" by fastforce
  show ?thesis
    using open_tmp_files [OF o assms(2)] open_tmp_result [OF o] assms(1)
    by (auto simp: remaining_def advance_def Let_def o manifest_rest_def andthen_def on_host_with lift_sum_def split: sum.split)
qed

lemma advance_filling:
  assumes "rc_phase s t = Filling i pos buf hs" "solo_ok ev sid t s"
  shows "remaining ev sid t w (advance ev sid t s) = remaining ev sid t w s"
proof -
  let ?tmp = "snap_file ev sid ''mem'' @ ''.tmp''"
  have inode: "inodes_ok s" "rc_dir s ?tmp = Some i" "pos = length (rc_data s i)" using assms by (simp_all add: solo_ok_def)
  have put: "rc_file (put_data i pos buf (s\<lparr>rc_store := st\<rparr>)) = (rc_file s)(?tmp := Some (rc_data s i @ buf))" for st
    using put_data_files [of "s\<lparr>rc_store := st\<rparr>" ?tmp i pos buf] inode by (simp add: rc_file_def fun_eq_iff)
  show ?thesis
  proof (cases hs)
    case Nil
    with assms(1) put [of "rc_store s"] show ?thesis by (simp add: remaining_def advance_def Let_def)
  next
    case (Cons h hs')
    obtain r st where get: "cas_get (ev_cas ev) h (rc_store s) = (r, st)" by fastforce
    have same: "rc_file (s\<lparr>rc_store := st\<rparr>) = rc_file s" by (simp add: rc_file_def fun_eq_iff)
    show ?thesis
      using assms(1) Cons get put [of st] same
      by (cases r) (simp_all add: remaining_def advance_def Let_def fill_rest_def andthen_def on_store_with on_host_with)
  qed
qed

lemma advance_filled:
  assumes "rc_phase s t = Filled" "solo_ok ev sid t s"
  shows "remaining ev sid t w (advance ev sid t s) = remaining ev sid t w s"
proof -
  let ?mem = "snap_file ev sid ''mem''"
  let ?tmp = "?mem @ ''.tmp''"
  obtain i where i: "rc_dir s ?tmp = Some i" using assms by (auto simp: solo_ok_def)
  have f: "rc_file s ?tmp = Some (rc_data s i)" using i by (simp add: rc_file_def)
  show ?thesis
    using assms(1) i f rename_files [of ?tmp ?mem s] snap_file_names(2) [of ev sid]
    by (simp add: remaining_def advance_def Let_def fill_rest_def andthen_def replace_with ret_def)
qed

lemma advance_remaining:
  assumes "solo_ok ev sid t s"
  shows "remaining ev sid t w (advance ev sid t s) = remaining ev sid t w s"
proof (cases "rc_phase s t")
  case (Manifest m)
  with assms show ?thesis by (intro advance_manifest) (auto simp: solo_ok_def)
next
  case (Filling i pos buf hs)
  show ?thesis by (rule advance_filling [OF Filling assms])
qed (use assms advance_asked advance_absent advance_filled in \<open>blast | simp add: advance_def Let_def\<close>)+

lemma advance_solo_ok:
  assumes "solo_ok ev sid t s"
  shows "solo_ok ev sid t (advance ev sid t s)"
proof (cases "rc_phase s t")
  case (Manifest m)
  obtain i s1 where o: "open_tmp (snap_file ev sid ''mem'' @ ''.tmp'') s = (i, s1)" by fastforce
  show ?thesis
    using assms Manifest o open_tmp_inodes [OF o] open_tmp_result [OF o]
    by (auto simp: solo_ok_def advance_def Let_def split: sum.split)
next
  case (Filling i pos buf hs)
  with assms show ?thesis by (cases hs) (auto simp: solo_ok_def advance_def Let_def split: sum.split prod.split)
next
  case Filled
  then obtain i where i: "rc_dir s (snap_file ev sid ''mem'' @ ''.tmp'') = Some i" using assms by (auto simp: solo_ok_def)
  have "inodes_ok s" using assms by (simp add: solo_ok_def)
  from rename_inodes [OF this snap_file_names(2) i] i Filled show ?thesis by (simp add: solo_ok_def advance_def Let_def)
qed (use assms in \<open>auto simp: solo_ok_def advance_def Let_def split: option.split sum.split\<close>)

lemma drain_solo:
  assumes "solo_ok ev sid t s"
  shows "remaining ev sid t w (drain t k s) = remaining ev sid t w s \<and> solo_ok ev sid t (drain t k s)"
proof (cases "rc_phase s t")
  case (Filling i pos buf hs)
  let ?tmp = "snap_file ev sid ''mem'' @ ''.tmp''"
  have inode: "inodes_ok s" "rc_dir s ?tmp = Some i" "pos = length (rc_data s i)" using assms Filling by (simp_all add: solo_ok_def)
  have "rc_file (put_data i pos (take k buf) s) = (rc_file s)(?tmp := Some (rc_data s i @ take k buf))"
    using put_data_files [of s ?tmp i pos "take k buf"] inode by simp
  with Filling inode show ?thesis
    by (simp add: remaining_def drain_def Let_def solo_ok_def)
qed (use assms in \<open>simp_all add: drain_def\<close>)

lemma solo_run_remaining:
  assumes "image_run ev sid {t} s0 s" "solo_ok ev sid t s0"
  shows "remaining ev sid t w s = remaining ev sid t w s0 \<and> solo_ok ev sid t s"
  using assms by induction (auto simp: advance_remaining advance_solo_ok drain_solo)

text \<open>A thread that gets its turns comes to an end.\<close>

fun ended :: "fork_phase \<Rightarrow> bool" where
  "ended (Answered p) = True"
| "ended (Raised e) = True"
| "ended _ = False"

fun moves :: "('v, 'srv) engine \<Rightarrow> string \<Rightarrow> nat list \<Rightarrow> 'srv race \<Rightarrow> 'srv race" where
  "moves ev sid [] s = s"
| "moves ev sid (t # ts) s = moves ev sid ts (advance ev sid t s)"

lemma moves_append [simp]: "moves ev sid (ts @ us) s = moves ev sid us (moves ev sid ts s)"
  by (induction ts arbitrary: s) simp_all

lemma moves_run: "image_run ev sid T s0 s \<Longrightarrow> set ts \<subseteq> T \<Longrightarrow> image_run ev sid T s0 (moves ev sid ts s)"
  by (induction ts arbitrary: s) (auto intro: image_run.move)

lemma filled_ends: "rc_phase s t = Filled \<Longrightarrow> ended (rc_phase (advance ev sid t s) t)"
  by (simp add: advance_def Let_def split: option.split)

lemma filling_ends: "rc_phase s t = Filling i pos buf hs \<Longrightarrow> \<exists>n. ended (rc_phase (moves ev sid (replicate n t) s) t)"
proof (induction hs arbitrary: s buf)
  case Nil
  then have "rc_phase (advance ev sid t s) t = Filled" by (simp add: advance_def Let_def)
  from filled_ends [OF this] show ?case by (intro exI [of _ "Suc (Suc 0)"]) simp
next
  case (Cons h hs)
  obtain r st where get: "cas_get (ev_cas ev) h (rc_store s) = (r, st)" by fastforce
  show ?case
  proof (cases r)
    case (Inl e)
    with Cons.prems get show ?thesis by (intro exI [of _ "Suc 0"]) (simp add: advance_def Let_def)
  next
    case (Inr b)
    with Cons.prems get have "rc_phase (advance ev sid t s) t = Filling i pos (buf @ b) hs" by (simp add: advance_def Let_def)
    from Cons.IH [OF this] obtain n where "ended (rc_phase (moves ev sid (replicate n t) (advance ev sid t s)) t)" ..
    then show ?thesis by (intro exI [of _ "Suc n"]) simp
  qed
qed

lemma manifest_ends:
  assumes "rc_phase s t = Manifest m"
  shows "\<exists>n. ended (rc_phase (moves ev sid (replicate n t) s) t)"
proof -
  obtain i s1 where o: "open_tmp (snap_file ev sid ''mem'' @ ''.tmp'') s = (i, s1)" by fastforce
  show ?thesis
  proof (cases "manifest_hashes m")
    case (Inl e)
    with assms o show ?thesis by (intro exI [of _ "Suc 0"]) (simp add: advance_def Let_def)
  next
    case (Inr hs)
    with assms o have "rc_phase (advance ev sid t s) t = Filling i 0 [] hs" by (simp add: advance_def Let_def)
    from filling_ends [OF this] obtain n where "ended (rc_phase (moves ev sid (replicate n t) (advance ev sid t s)) t)" ..
    then show ?thesis by (intro exI [of _ "Suc n"]) simp
  qed
qed

lemma absent_ends:
  assumes "rc_phase s t = Absent"
  shows "\<exists>n. ended (rc_phase (moves ev sid (replicate n t) s) t)"
proof (cases "\<exists>m. rc_phase (advance ev sid t s) t = Manifest m")
  case True
  with manifest_ends obtain n where "ended (rc_phase (moves ev sid (replicate n t) (advance ev sid t s)) t)" by metis
  then show ?thesis by (intro exI [of _ "Suc n"]) simp
next
  case False
  with assms show ?thesis
    by (intro exI [of _ "Suc 0"]) (auto simp: advance_def Let_def split: option.splits sum.splits)
qed

lemma asked_ends:
  assumes "rc_phase s t = Asked"
  shows "\<exists>n. ended (rc_phase (moves ev sid (replicate n t) s) t)"
proof (cases "rc_phase (advance ev sid t s) t = Absent")
  case True
  from absent_ends [OF this] obtain n where "ended (rc_phase (moves ev sid (replicate n t) (advance ev sid t s)) t)" ..
  then show ?thesis by (intro exI [of _ "Suc n"]) simp
next
  case False
  with assms show ?thesis by (intro exI [of _ "Suc 0"]) (auto simp: advance_def Let_def split: if_splits)
qed

fun ending :: "exn + string \<Rightarrow> fork_phase" where
  "ending (Inr p) = Answered p"
| "ending (Inl e) = Raised e"

text \<open>
  C7. The atomic reading of a fork is right for a request that runs alone: whatever the file object keeps
  in its buffer and whenever it writes it out, the steps of one request come to an end, and the result,
  the files and the store are then those of \<open>_reconstruct_mem\<close> taken as one step, errors included.
\<close>

theorem solo_run_is_reconstruct_mem:
  "(\<exists>s. image_run ev sid {t} (race_of w) s \<and> ended (rc_phase s t)) \<and>
   (\<forall>s r. image_run ev sid {t} (race_of w) s \<and> rc_phase s t = ending r \<longrightarrow>
      reconstruct_mem ev sid w = (r, w\<lparr>w_host := (w_host w)\<lparr>h_files := rc_file s\<rparr>, w_store := rc_store s\<rparr>))"
proof (intro conjI allI impI)
  obtain n where "ended (rc_phase (moves ev sid (replicate n t) (race_of w)) t)"
    using asked_ends [of "race_of w" t ev sid] by auto
  then show "\<exists>s. image_run ev sid {t} (race_of w) s \<and> ended (rc_phase s t)"
    using moves_run [OF image_run.start, of "replicate n t" "{t}" ev sid] by fastforce
next
  fix s r assume run: "image_run ev sid {t} (race_of w) s \<and> rc_phase s t = ending r"
  have "remaining ev sid t w s = remaining ev sid t w (race_of w)"
    using solo_run_remaining [of ev sid t "race_of w" s w] run by (simp add: solo_ok_def)
  moreover have "race_world w (race_of w) = w" by (simp add: world_with_def)
  ultimately show "reconstruct_mem ev sid w = (r, w\<lparr>w_host := (w_host w)\<lparr>h_files := rc_file s\<rparr>, w_store := rc_store s\<rparr>)"
    using run by (cases r) (simp_all add: remaining_def world_with_def)
qed

theorem solo_run_is_reconstruct_mem_witness:
  "\<exists>s r. image_run demo_image_engine ''x'' {0} (race_of demo_image_world) s \<and> rc_phase s 0 = ending r \<and>
     reconstruct_mem demo_image_engine ''x'' demo_image_world =
       (r, demo_image_world\<lparr>w_host := (w_host demo_image_world)\<lparr>h_files := rc_file s\<rparr>, w_store := rc_store s\<rparr>)"
proof -
  note C = solo_run_is_reconstruct_mem [of demo_image_engine "''x''" 0 demo_image_world]
  obtain s where s: "image_run demo_image_engine ''x'' {0} (race_of demo_image_world) s" "ended (rc_phase s 0)"
    using C by blast
  from s(2) obtain r where "rc_phase s 0 = ending r"
    by (cases "rc_phase s 0") (auto intro: that [of "Inr _"] that [of "Inl _"])
  with C s show ?thesis by blast
qed

section \<open>Requests that overlap\<close>

text \<open>
  The snapshot is intact: its manifest is there and lists \<open>hs\<close>, and the hot cache has the blocks \<open>bs\<close>
  under those hashes.
\<close>

definition image_ready :: "('v, 'srv) engine \<Rightarrow> string \<Rightarrow> ('v, 'srv) world \<Rightarrow> string list \<Rightarrow> bytes list \<Rightarrow> bool" where
  "image_ready ev sid w hs bs \<longleftrightarrow> zlib_ok (ev_cas ev) \<and> cas_ok (ev_cas ev) (w_store w) \<and>
     map (hot_lookup (ev_cas ev) (w_store w)) hs = map Some bs \<and>
     (case h_files (w_host w) (snap_file ev sid ''mem.manifest'') of
        None \<Rightarrow> False
      | Some text \<Rightarrow> (case loads (pf_codec (ev_plat ev)) (decode_bytes text) of
                        Inl _ \<Rightarrow> False | Inr m \<Rightarrow> manifest_hashes m = Inr hs))"

lemma image_ready_manifest:
  assumes "image_ready ev sid w hs bs"
  obtains raw m where "h_files (w_host w) (snap_file ev sid ''mem.manifest'') = Some raw"
    "loads (pf_codec (ev_plat ev)) (decode_bytes raw) = Inr m" "manifest_hashes m = Inr hs"
  using assms by (auto simp: image_ready_def split: option.splits sum.splits)

lemma image_ready_get:
  assumes "image_ready ev sid w hs bs" "hot_lookup (ev_cas ev) (w_store w) h = Some b"
  shows "cas_get (ev_cas ev) h (w_store w) = (Inr b, w_store w)"
  using hot.get_look [of "ev_cas ev" "w_store w" h b] assms by (simp add: image_ready_def)

subsection \<open>A small instance\<close>

definition demo_hashes :: "string list" where
  "demo_hashes = [[CHR 0x01, CHR 0x02], [CHR 0x01, CHR 0x02], [CHR 0x03]]"

definition demo_race_world :: "(nat, unit) world" where
  "demo_race_world = demo_world\<lparr>w_host := \<lparr>h_files = (\<lambda>_. None)(snap_file demo_image_engine ''x'' ''mem.manifest'' := Some [77]),
     h_clock = 0, h_mach = 0\<rparr>, w_store := snd (put_file demo_cfg read_buf [1, 2, 1, 2, 3] (cas_new (\<lambda>_. None) ()))\<rparr>"

lemma demo_race_ready: "\<exists>bs. image_ready demo_image_engine ''x'' demo_race_world demo_hashes bs \<and> concat bs = [1, 2, 1, 2, 3]"
proof -
  let ?s = "cas_new (\<lambda>_. None) () :: unit cas"
  have cfg: "ev_cas demo_image_engine = demo_cfg" by (simp add: demo_image_engine_def demo_engine_def)
  have fits: "store_fits demo_cfg read_buf ?s [1, 2, 1, 2, 3]"
    by (auto simp: store_fits_def collision_free_def new_stored file_blocks_def pieces.simps demo_cfg_def
        blocks_def inj_on_def read_buf_def)
  have ok: "cas_ok demo_cfg ?s" by (rule new_cas_ok) (simp add: demo_cfg_def)
  have "\<exists>s1. put_file demo_cfg read_buf [1, 2, 1, 2, 3] ?s = (Inr demo_hashes, s1)"
    by (simp add: put_file_def pieces.simps demo_cfg_def put_bytes_def blocks_def put_block_def cas_new_def read_buf_def demo_hashes_def
        andthen_def ret_def tier_of_def Let_def chunk_key_def char_of_def bit_Suc_0_iff)
  then obtain s1 where put: "put_file demo_cfg read_buf [1, 2, 1, 2, 3] ?s = (Inr demo_hashes, s1)" by blast
  obtain bs where bs: "map (hot_lookup demo_cfg s1) demo_hashes = map Some bs" "concat bs = [1, 2, 1, 2, 3]"
    using hot.put_stored [of demo_cfg ?s read_buf "[1, 2, 1, 2, 3]" demo_hashes s1] demo_zlib ok fits put by blast
  have "cas_ok demo_cfg s1"
    using hot.put_ok [of demo_cfg ?s read_buf "[1, 2, 1, 2, 3]" "Inr demo_hashes" s1] demo_zlib ok put by blast
  then have "image_ready demo_image_engine ''x'' demo_race_world demo_hashes bs"
    using demo_zlib put bs(1)
    by (simp add: image_ready_def cfg demo_race_world_def) (simp add: demo_image_engine_def demo_manifest_def demo_hashes_def)
  with bs(2) show ?thesis by blast
qed

lemma demo_race_absent: "h_files (w_host demo_race_world) (snap_file demo_image_engine ''x'' ''mem'') = None"
  using snap_file_names(1) [of demo_image_engine "''x''"] by (simp add: demo_race_world_def)

subsection \<open>What one of them may see\<close>

lemma now_at_now_at [simp]: "now_at t ph (now_at t ph' s) = now_at t ph s"
  by (simp add: now_at_def)

lemma now_at_same: "rc_phase s t = ph \<Longrightarrow> now_at t ph s = s"
  by (auto simp: now_at_def intro!: race.equality)

lemma fetch_moves:
  assumes "image_ready ev sid w ks cs" "rc_store s = w_store w" "rc_phase s t = Filling i pos buf hs"
    and "map (hot_lookup (ev_cas ev) (w_store w)) hs = map Some bs"
  shows "moves ev sid (replicate (length hs) t) s = now_at t (Filling i pos (buf @ concat bs) []) s"
  using assms(2-)
proof (induction hs arbitrary: bs buf s)
  case Nil
  then show ?case by (simp add: now_at_same)
next
  case (Cons h hs)
  then obtain b bs' where bs: "bs = b # bs'" and h: "hot_lookup (ev_cas ev) (w_store w) h = Some b" by (cases bs) auto
  have same: "s\<lparr>rc_store := w_store w\<rparr> = s" using Cons.prems(1) by (auto intro!: race.equality)
  have "advance ev sid t s = now_at t (Filling i pos (buf @ b) hs) s"
    using Cons.prems(1,2) image_ready_get [OF assms(1) h] by (simp add: advance_def Let_def same)
  moreover have "moves ev sid (replicate (length hs) t) (now_at t (Filling i pos (buf @ b) hs) s) =
      now_at t (Filling i pos ((buf @ b) @ concat bs') []) (now_at t (Filling i pos (buf @ b) hs) s)"
    using Cons.prems bs by (intro Cons.IH) simp_all
  ultimately show ?case by (simp add: bs)
qed

lemma manifest_moves:
  assumes "image_ready ev sid w hs bs" "h_files (w_host w) (snap_file ev sid ''mem'') = None"
    and "rc_phase s t = Asked" "rc_file s = h_files (w_host w)"
  shows "\<exists>m. manifest_hashes m = Inr hs \<and> moves ev sid [t, t] s = now_at t (Manifest m) s"
proof -
  obtain raw m where man: "h_files (w_host w) (snap_file ev sid ''mem.manifest'') = Some raw"
      "loads (pf_codec (ev_plat ev)) (decode_bytes raw) = Inr m" "manifest_hashes m = Inr hs"
    using image_ready_manifest [OF assms(1)] .
  have a: "advance ev sid t s = now_at t Absent s"
    using assms(2-4) man by (simp add: advance_def Let_def)
  have b: "advance ev sid t (now_at t Absent s) = now_at t (Manifest m) s"
    using assms(4) man by (simp add: advance_def Let_def)
  show ?thesis using man(3) by (auto simp: a b)
qed

lemma fill_moves:
  assumes "image_ready ev sid w hs bs" "rc_store s = w_store w" "rc_phase s t = Manifest m" "manifest_hashes m = Inr hs"
    and "open_tmp (snap_file ev sid ''mem'' @ ''.tmp'') s = (i, s1)"
  shows "moves ev sid (replicate (length hs + 2) t) s = now_at t Filled (put_data i 0 (concat bs) s1)"
proof -
  note o = open_tmp_result [OF assms(5)]
  have a: "advance ev sid t s = now_at t (Filling i 0 [] hs) s1"
    using assms(3-5) by (simp add: advance_def Let_def)
  have b: "moves ev sid (replicate (length hs) t) (now_at t (Filling i 0 [] hs) s1) = now_at t (Filling i 0 (concat bs) []) s1"
    using fetch_moves [OF assms(1), of "now_at t (Filling i 0 [] hs) s1" t i 0 "[]" hs bs] assms(1,2) o
    by (simp add: image_ready_def)
  have c: "advance ev sid t (now_at t (Filling i 0 (concat bs) []) s1) = now_at t Filled (put_data i 0 (concat bs) s1)"
    by (simp add: advance_def Let_def now_at_def put_data_def)
  have "replicate (length hs + 2) t = t # replicate (length hs) t @ [t]"
    by (simp add: replicate_append_same)
  then show ?thesis by (simp add: a b c)
qed

lemma rc_file_dir: "rc_dir s p = Some i \<Longrightarrow> rc_file s p = Some (rc_data s i)"
  by (simp add: rc_file_def)

lemma both_have_asked:
  assumes "image_ready ev sid w hs bs" "h_files (w_host w) (snap_file ev sid ''mem'') = None" "t \<noteq> u"
  obtains m m' where "manifest_hashes m = Inr hs" "manifest_hashes m' = Inr hs"
    "moves ev sid [t, t, u, u] (race_of w) = now_at u (Manifest m') (now_at t (Manifest m) (race_of w))"
proof -
  obtain m where m: "manifest_hashes m = Inr hs" "moves ev sid [t, t] (race_of w) = now_at t (Manifest m) (race_of w)"
    using manifest_moves [OF assms(1,2), of "race_of w" t] by auto
  obtain m' where m': "manifest_hashes m' = Inr hs"
      "moves ev sid [u, u] (now_at t (Manifest m) (race_of w)) = now_at u (Manifest m') (now_at t (Manifest m) (race_of w))"
    using manifest_moves [OF assms(1,2), of "now_at t (Manifest m) (race_of w)" u] assms(3) by auto
  show ?thesis using that [OF m(1) m'(1)] m(2) m'(2) by simp
qed

text \<open>The writer whose file was renamed under its hands.\<close>

lemma overtaken_writer:
  assumes "image_ready ev sid w hs bs" "rc_store s = w_store w" "rc_phase s u = Filling i 0 [] hs"
    and "rc_dir s mem = Some i" "rc_dir s (mem @ ''.tmp'') = None" "rc_data s i = []" "mem = snap_file ev sid ''mem''"
  shows "rc_phase (moves ev sid (replicate (length hs) u @ [u, u]) s) u = Raised (no_such_file (mem @ ''.tmp'')) \<and>
    rc_file (moves ev sid (replicate (length hs) u @ [u, u]) s) mem = Some (concat bs)"
proof -
  let ?s1 = "now_at u (Filling i 0 (concat bs) []) s"
  let ?s2 = "now_at u Filled (put_data i 0 (concat bs) ?s1)"
  have a: "moves ev sid (replicate (length hs) u) s = ?s1"
    using fetch_moves [OF assms(1-3), of bs] assms(1) by (simp add: image_ready_def)
  have b: "advance ev sid u ?s1 = ?s2" by (simp add: advance_def Let_def)
  have c: "advance ev sid u ?s2 = now_at u (Raised (no_such_file (mem @ ''.tmp''))) ?s2"
    using assms(5,7) by (simp add: advance_def Let_def)
  have f: "rc_file ?s2 mem = Some (concat bs)"
    using rc_file_dir [of ?s2 mem i] assms(4,6) by (simp add: write_at_def)
  show ?thesis using f by (simp add: a b c del: put_data_simps)
qed

text \<open>
  C5. Two requests that fork one snapshot can get in each other's way: both have seen that the image is
  not there; one fills the temporary file, the other opens it and so empties it, and the first renames it
  and returns its path. What it is about to load is then an empty file. The other writes the image
  through its own handle, finds nothing to rename and fails, although the image is now complete.
\<close>

theorem overlapping_forks_tear_the_image:
  assumes "image_ready ev sid w hs bs" and "h_files (w_host w) (snap_file ev sid ''mem'') = None" and "t \<noteq> u"
  shows "\<exists>s s'. image_run ev sid {t, u} (race_of w) s \<and> image_run ev sid {t, u} s s' \<and>
    rc_phase s t = Answered (snap_file ev sid ''mem'') \<and> rc_file s (snap_file ev sid ''mem'') = Some [] \<and>
    rc_phase s' u = Raised (no_such_file (snap_file ev sid ''mem'' @ ''.tmp'')) \<and>
    rc_file s' (snap_file ev sid ''mem'') = Some (concat bs)"
proof -
  let ?mem = "snap_file ev sid ''mem''"
  let ?tmp = "?mem @ ''.tmp''"
  obtain m m' where m: "manifest_hashes m = Inr hs" "manifest_hashes m' = Inr hs"
      "moves ev sid [t, t, u, u] (race_of w) = now_at u (Manifest m') (now_at t (Manifest m) (race_of w))" (is "_ = ?s2")
    using both_have_asked [OF assms] .
  obtain i s3 where o: "open_tmp ?tmp ?s2 = (i, s3)" by fastforce
  note o3 = open_tmp_result [OF o]
  let ?s4 = "now_at t Filled (put_data i 0 (concat bs) s3)"
  have s4: "moves ev sid (replicate (length hs + 2) t) ?s2 = ?s4"
    using fill_moves [OF assms(1) _ _ m(1) o] assms(3) by simp
  let ?s5 = "now_at u (Filling i 0 [] hs) (?s4\<lparr>rc_data := (rc_data ?s4)(i := [])\<rparr>)"
  have o4: "open_tmp ?tmp ?s4 = (i, ?s4\<lparr>rc_data := (rc_data ?s4)(i := [])\<rparr>)"
    using o3 by (simp add: open_tmp_def)
  have s5: "advance ev sid u ?s4 = ?s5" using assms(3) o3 m(2) by (simp add: advance_def Let_def o4)
  let ?s6 = "now_at t (Answered ?mem) (rename ?tmp ?mem ?s5)"
  have s6: "advance ev sid t ?s5 = ?s6" using assms(3) o3 by (simp add: advance_def Let_def)
  have dir6: "rc_dir ?s6 ?mem = Some i" "rc_dir ?s6 ?tmp = None" "rc_data ?s6 i = []"
    using o3 snap_file_names(2) [of ev sid] by (simp_all add: rename_def)
  let ?ts = "[t, t, u, u] @ replicate (length hs + 2) t @ [u, t]"
  have eq: "moves ev sid ?ts (race_of w) = ?s6"
    unfolding moves_append m(3) s4 by (simp only: moves.simps s5 s6)
  have "set ?ts \<subseteq> {t, u}" by auto
  from moves_run [OF image_run.start this, of ev sid "race_of w"] have run6: "image_run ev sid {t, u} (race_of w) ?s6"
    by (simp only: eq)
  have "rc_file ?s6 ?mem = Some []" using rc_file_dir [OF dir6(1)] dir6(3) by simp
  moreover have "image_run ev sid {t, u} ?s6 (moves ev sid (replicate (length hs) u @ [u, u]) ?s6)"
    by (rule moves_run [OF image_run.start]) auto
  moreover have "rc_store ?s6 = w_store w" "rc_phase ?s6 u = Filling i 0 [] hs" "rc_phase ?s6 t = Answered ?mem"
    using o3 assms(3) by simp_all
  ultimately show ?thesis
    using run6 overtaken_writer [OF assms(1) _ _ dir6 refl] by blast
qed

theorem overlapping_forks_tear_the_image_witness:
  "\<exists>s s'. image_run demo_image_engine ''x'' {0, 1} (race_of demo_race_world) s \<and> image_run demo_image_engine ''x'' {0, 1} s s' \<and>
    rc_phase s 0 = Answered (snap_file demo_image_engine ''x'' ''mem'') \<and>
    rc_file s (snap_file demo_image_engine ''x'' ''mem'') = Some [] \<and>
    rc_phase s' 1 = Raised (no_such_file (snap_file demo_image_engine ''x'' ''mem'' @ ''.tmp'')) \<and>
    rc_file s' (snap_file demo_image_engine ''x'' ''mem'') = Some [1, 2, 1, 2, 3]"
proof -
  obtain bs where bs: "image_ready demo_image_engine ''x'' demo_race_world demo_hashes bs" "concat bs = [1, 2, 1, 2, 3]"
    using demo_race_ready by blast
  show ?thesis
    using overlapping_forks_tear_the_image [OF bs(1) demo_race_absent, of 0 1] unfolding bs(2) by simp
qed

subsection \<open>What all of them together leave\<close>

text \<open>
  Every byte of the file is that of the image, or a thread that has the file open will still come to it.
\<close>

definition covered :: "'srv race \<Rightarrow> inode \<Rightarrow> nat \<Rightarrow> bool" where
  "covered s i p \<longleftrightarrow> (\<exists>u pos buf hs. rc_phase s u = Filling i pos buf hs \<and> pos \<le> p)"

definition settled :: "bytes \<Rightarrow> 'srv race \<Rightarrow> inode \<Rightarrow> bool" where
  "settled img s i \<longleftrightarrow> length (rc_data s i) \<le> length img \<and>
     (\<forall>p<length img. p < length (rc_data s i) \<and> rc_data s i ! p = img ! p \<or> covered s i p)"

lemma covered_now_at:
  "covered (now_at t ph s) i p \<longleftrightarrow>
    (\<exists>pos buf hs. ph = Filling i pos buf hs \<and> pos \<le> p) \<or> (\<exists>u pos buf hs. u \<noteq> t \<and> rc_phase s u = Filling i pos buf hs \<and> pos \<le> p)"
  unfolding covered_def by auto

lemma covered_put_data [simp]: "covered (put_data j pos d s) i p = covered s i p"
  by (simp add: covered_def)

text \<open>A step of a thread that is not writing the file, and does not touch it, leaves it settled.\<close>

lemma settled_other:
  assumes "settled img s j" "rc_data s' j = rc_data s j" "rc_phase s' = rc_phase s"
    and "\<And>pos buf hs. rc_phase s t \<noteq> Filling j pos buf hs"
  shows "settled img (now_at t ph s') j"
proof -
  have "covered (now_at t ph s') j p" if "covered s j p" for p
  proof -
    from that obtain u q b r where u: "rc_phase s u = Filling j q b r" "q \<le> p" by (auto simp: covered_def)
    with assms(4) have "u \<noteq> t" by metis
    with u assms(3) show ?thesis unfolding covered_now_at by metis
  qed
  with assms(1,2) show ?thesis by (auto simp: settled_def)
qed

lemma write_at_length: "d \<noteq> [] \<Longrightarrow> length (write_at pos d c) = max (length c) (pos + length d)"
  by (auto simp: write_at_def)

lemma write_at_nth:
  "p < length c \<Longrightarrow> p < pos \<or> pos + length d \<le> p \<Longrightarrow> write_at pos d c ! p = c ! p"
  "pos \<le> p \<Longrightarrow> p < pos + length d \<Longrightarrow> write_at pos d c ! p = d ! (p - pos)"
  by (auto simp: write_at_def nth_append min_def)

lemma settled_write:
  assumes "settled img s j" "rc_phase s t = Filling i pos buf hs" "pos + length d \<le> length img" "take (length d) (drop pos img) = d"
    and "\<And>p. pos + length d \<le> p \<Longrightarrow> p < length img \<Longrightarrow> \<exists>q b r. ph = Filling i q b r \<and> q \<le> p"
  shows "settled img (now_at t ph (put_data i pos d s)) j"
proof (cases "j = i")
  case False
  with assms(1,2) show ?thesis by (intro settled_other [of img s]) simp_all
next
  case True
  let ?c = "rc_data s i"
  let ?c' = "write_at pos d ?c"
  have len: "length ?c \<le> length img" using assms(1) True by (simp add: settled_def)
  have len': "length ?c' \<le> length img" using len assms(3) write_at_length [of d pos ?c] by (cases "d = []") auto
  have "p < length ?c' \<and> ?c' ! p = img ! p \<or> covered (now_at t ph s) i p" if p: "p < length img" for p
  proof -
    consider "pos + length d \<le> p" | "pos \<le> p" "p < pos + length d" | "p < pos" by linarith
    then show ?thesis
    proof cases
      case 1
      from assms(5) [OF this p] show ?thesis by (auto simp: covered_now_at)
    next
      case 2
      then have "?c' ! p = d ! (p - pos)" by (simp add: write_at_nth)
      also have "\<dots> = take (length d) (drop pos img) ! (p - pos)" using assms(4) by simp
      also have "\<dots> = img ! p" using 2 p by simp
      finally have "?c' ! p = img ! p" .
      moreover have "p < length ?c'" using 2 write_at_length [of d pos ?c] by (cases "d = []") auto
      ultimately show ?thesis by blast
    next
      case 3
      have "covered (now_at t ph s) i p" if "covered s i p"
      proof -
        from that obtain u q b r where u: "rc_phase s u = Filling i q b r" "q \<le> p" by (auto simp: covered_def)
        with 3 assms(2) have "u \<noteq> t" by auto
        with u show ?thesis unfolding covered_now_at by metis
      qed
      moreover have "p < length ?c'" "?c' ! p = ?c ! p" if "p < length ?c"
        using that 3 write_at_nth(1) [of p ?c pos d] write_at_length [of d pos ?c] by (cases "d = []"; simp)+
      ultimately show ?thesis using assms(1) p True by (auto simp: settled_def)
    qed
  qed
  moreover have "covered (now_at t ph (put_data i pos d s)) i p = covered (now_at t ph s) i p" for p
    by (simp add: covered_now_at)
  ultimately show ?thesis using len' True by (simp add: settled_def)
qed

fun opened :: "fork_phase \<Rightarrow> bool" where
  "opened (Filling i pos buf hs) = True"
| "opened Filled = True"
| "opened _ = False"

text \<open>What holds of a thread in each phase, and of the files, at any time.\<close>

definition phase_ok :: "('v, 'srv) engine \<Rightarrow> string \<Rightarrow> ('v, 'srv) world \<Rightarrow> string list \<Rightarrow> bytes \<Rightarrow> 'srv race \<Rightarrow> fork_phase \<Rightarrow> bool" where
  "phase_ok ev sid w hs img s ph =
     (let mem = snap_file ev sid ''mem'' in
      case ph of
        Manifest m \<Rightarrow> manifest_hashes m = Inr hs
      | Filling i pos buf rest \<Rightarrow> rc_dir s (snap_file ev sid ''mem.manifest'') \<noteq> Some i \<and> pos \<le> length img \<and>
          (\<exists>ws. map (hot_lookup (ev_cas ev) (w_store w)) rest = map Some ws \<and> drop pos img = buf @ concat ws)
      | Answered p \<Rightarrow> p = mem \<and> rc_dir s mem \<noteq> None
      | Raised e \<Rightarrow> e = no_such_file (mem @ ''.tmp'') \<and> rc_dir s mem \<noteq> None
      | _ \<Rightarrow> True)"

definition image_inv :: "('v, 'srv) engine \<Rightarrow> string \<Rightarrow> ('v, 'srv) world \<Rightarrow> string list \<Rightarrow> bytes \<Rightarrow> 'srv race \<Rightarrow> bool" where
  "image_inv ev sid w hs img s \<longleftrightarrow>
     (let mem = snap_file ev sid ''mem''; man = snap_file ev sid ''mem.manifest''
      in rc_store s = w_store w \<and> inodes_ok s \<and> rc_file s man = h_files (w_host w) man \<and>
         (\<forall>t. phase_ok ev sid w hs img s (rc_phase s t)) \<and>
         (\<forall>i. rc_dir s mem = Some i \<longrightarrow> settled img s i) \<and>
         ((\<exists>t. opened (rc_phase s t)) \<longrightarrow>
            (\<forall>i. rc_dir s (mem @ ''.tmp'') = Some i \<longrightarrow> settled img s i) \<and>
            (rc_dir s (mem @ ''.tmp'') \<noteq> None \<or> rc_dir s mem \<noteq> None)))"

lemma phase_ok_mono:
  assumes "phase_ok ev sid w hs img s ph" "rc_dir s' (snap_file ev sid ''mem.manifest'') = rc_dir s (snap_file ev sid ''mem.manifest'')"
    and "rc_dir s (snap_file ev sid ''mem'') \<noteq> None \<Longrightarrow> rc_dir s' (snap_file ev sid ''mem'') \<noteq> None"
  shows "phase_ok ev sid w hs img s' ph"
  using assms by (auto simp: phase_ok_def Let_def split: fork_phase.splits)

lemma phase_ok_dir: "rc_dir s' = rc_dir s \<Longrightarrow> phase_ok ev sid w hs img s' ph = phase_ok ev sid w hs img s ph"
  by (cases ph) (simp_all add: phase_ok_def)

lemma phase_ok_simps [simp]:
  "phase_ok ev sid w hs img (now_at t new s) ph = phase_ok ev sid w hs img s ph"
  "phase_ok ev sid w hs img (put_data i pos d s) ph = phase_ok ev sid w hs img s ph"
  by (rule phase_ok_dir; simp)+

lemma image_inv_quiet:
  assumes inv: "image_inv ev sid w hs img s" and ok: "phase_ok ev sid w hs img s ph"
    and "\<And>i pos buf r. rc_phase s t \<noteq> Filling i pos buf r" and "opened ph \<Longrightarrow> opened (rc_phase s t)"
  shows "image_inv ev sid w hs img (now_at t ph s)"
proof -
  have "phase_ok ev sid w hs img (now_at t ph s) (rc_phase (now_at t ph s) u)" for u
    using inv ok by (auto simp: image_inv_def Let_def)
  moreover have "settled img (now_at t ph s) i" if "settled img s i" for i
    using that assms(3) by (intro settled_other [of img s]) simp_all
  ultimately show ?thesis
    using inv assms(4) by (auto simp: image_inv_def Let_def split: if_splits)
qed

lemma image_inv_write:
  assumes inv: "image_inv ev sid w hs img s" and ph: "rc_phase s t = Filling i pos buf rest"
    and ok: "phase_ok ev sid w hs img s new" "opened new"
    and d: "take (length d) (drop pos img) = d" "pos + length d \<le> length img"
    and cov: "\<And>p. pos + length d \<le> p \<Longrightarrow> p < length img \<Longrightarrow> \<exists>q b r. new = Filling i q b r \<and> q \<le> p"
  shows "image_inv ev sid w hs img (now_at t new (put_data i pos d s))"
proof -
  let ?s = "now_at t new (put_data i pos d s)"
  let ?man = "snap_file ev sid ''mem.manifest''"
  have settled: "settled img ?s j" if "settled img s j" for j
    using settled_write [OF that ph d(2,1)] cov by blast
  have "phase_ok ev sid w hs img s (rc_phase s u)" for u using inv by (simp add: image_inv_def Let_def)
  then have phases: "phase_ok ev sid w hs img ?s (rc_phase ?s u)" for u
    using ok(1) by simp
  have "rc_dir s ?man \<noteq> Some i" using inv ph by (auto simp: image_inv_def Let_def phase_ok_def split: fork_phase.splits)
  then have "rc_file ?s ?man = rc_file s ?man" by (cases "rc_dir s ?man") (auto simp: rc_file_def)
  moreover have "opened (rc_phase s t)" using ph by simp
  ultimately show ?thesis using inv settled phases unfolding image_inv_def Let_def by auto
qed

lemma image_inv_open:
  assumes inv: "image_inv ev sid w hs img s" and ph: "rc_phase s t = Manifest m"
    and o: "open_tmp (snap_file ev sid ''mem'' @ ''.tmp'') s = (i, s1)"
    and look: "map (hot_lookup (ev_cas ev) (w_store w)) hs = map Some bs" "img = concat bs"
  shows "image_inv ev sid w hs img (now_at t (Filling i 0 [] hs) s1)"
proof -
  let ?mem = "snap_file ev sid ''mem''"
  let ?man = "snap_file ev sid ''mem.manifest''"
  let ?s = "now_at t (Filling i 0 [] hs) s1"
  note names = snap_file_names [of ev sid]
  note res = open_tmp_result [OF o]
  have ok1: "inodes_ok s1" using open_tmp_inodes [OF o] inv by (simp add: image_inv_def Let_def)
  have dirs: "rc_dir s1 ?mem = rc_dir s ?mem" "rc_dir s1 ?man = rc_dir s ?man" using res names by auto
  have other: "rc_dir s1 p \<noteq> Some i" if "p \<noteq> ?mem @ ''.tmp''" for p
    using that res inodes_ok_one [OF ok1, of p i "?mem @ ''.tmp''"] by auto
  have "covered ?s i p" for p by (auto simp: covered_now_at)
  then have mine: "settled img ?s i" using res by (simp add: settled_def)
  have "settled img ?s j" if "settled img s j" "j \<noteq> i" for j
    using that res ph by (intro settled_other [of img s]) simp_all
  moreover have "rc_file s1 ?man = rc_file s ?man"
    using open_tmp_files [OF o] inv names by (simp add: image_inv_def Let_def)
  moreover have "phase_ok ev sid w hs img s1 (Filling i 0 [] hs)"
    using other [of ?man] names look by (auto simp: phase_ok_def)
  moreover have "phase_ok ev sid w hs img s (rc_phase s u)" for u using inv by (simp add: image_inv_def Let_def)
  then have "phase_ok ev sid w hs img s1 (rc_phase s u)" for u
    using dirs phase_ok_mono [of ev sid w hs img s "rc_phase s u"] by auto
  ultimately have "\<forall>u. phase_ok ev sid w hs img ?s (rc_phase ?s u)"
      "\<And>j. rc_dir s ?mem = Some j \<Longrightarrow> settled img ?s j" "rc_file ?s ?man = rc_file s ?man"
    using res inv other [of ?mem] names dirs
    by (auto simp: image_inv_def Let_def)
  then show ?thesis using inv res mine ok1 dirs by (auto simp: image_inv_def Let_def)
qed

lemma image_inv_rename:
  assumes inv: "image_inv ev sid w hs img s" and ph: "rc_phase s t = Filled"
    and tmp: "rc_dir s (snap_file ev sid ''mem'' @ ''.tmp'') = Some i"
  shows "image_inv ev sid w hs img (now_at t (Answered (snap_file ev sid ''mem''))
    (rename (snap_file ev sid ''mem'' @ ''.tmp'') (snap_file ev sid ''mem'') s))"
proof -
  let ?mem = "snap_file ev sid ''mem''"
  let ?man = "snap_file ev sid ''mem.manifest''"
  let ?s1 = "rename (?mem @ ''.tmp'') ?mem s"
  note names = snap_file_names [of ev sid]
  have dirs: "rc_dir ?s1 ?mem = Some i" "rc_dir ?s1 ?man = rc_dir s ?man" "rc_dir ?s1 (?mem @ ''.tmp'') = None"
    using names tmp by (auto simp: rename_def)
  have "settled img s i" using inv ph tmp by (auto simp: image_inv_def Let_def intro: exI [of _ t])
  then have "settled img (now_at t (Answered ?mem) ?s1) i" using ph by (intro settled_other [of img s]) simp_all
  moreover have "rc_file ?s1 ?man = rc_file s ?man" using dirs by (simp add: rc_file_def)
  moreover have "inodes_ok ?s1" using inv tmp names by (intro rename_inodes) (auto simp: image_inv_def Let_def)
  moreover have "phase_ok ev sid w hs img s (rc_phase s u)" for u using inv by (simp add: image_inv_def Let_def)
  then have "phase_ok ev sid w hs img ?s1 (rc_phase s u)" for u
    using dirs phase_ok_mono [of ev sid w hs img s "rc_phase s u"] by auto
  then have "phase_ok ev sid w hs img (now_at t (Answered ?mem) ?s1) (rc_phase (now_at t (Answered ?mem) ?s1) u)" for u
    using dirs(1) by (cases "u = t") (simp_all add: phase_ok_def [of ev sid w hs img _ "Answered ?mem"])
  ultimately show ?thesis using inv dirs by (simp add: image_inv_def Let_def)
qed

lemma image_inv_advance:
  assumes ready: "image_ready ev sid w hs bs" and inv: "image_inv ev sid w hs (concat bs) s"
  shows "image_inv ev sid w hs (concat bs) (advance ev sid t s)"
proof -
  let ?mem = "snap_file ev sid ''mem''"
  obtain raw m where man: "h_files (w_host w) (snap_file ev sid ''mem.manifest'') = Some raw"
    "loads (pf_codec (ev_plat ev)) (decode_bytes raw) = Inr m" "manifest_hashes m = Inr hs"
    using image_ready_manifest [OF ready] .
  have st: "rc_store s = w_store w" "rc_file s (snap_file ev sid ''mem.manifest'') = Some raw"
    and ok: "\<And>t. phase_ok ev sid w hs (concat bs) s (rc_phase s t)"
    using inv man(1) by (simp_all add: image_inv_def Let_def)
  show ?thesis
  proof (cases "rc_phase s t")
    case Asked
    moreover have "image_inv ev sid w hs (concat bs) (now_at t (if rc_file s ?mem \<noteq> None then Answered ?mem else Absent) s)"
      using inv Asked by (intro image_inv_quiet) (auto simp: phase_ok_def rc_file_def split: option.splits if_splits)
    ultimately show ?thesis using st(2) by (simp add: advance_def Let_def)
  next
    case Absent
    moreover have "image_inv ev sid w hs (concat bs) (now_at t (Manifest m) s)"
      using inv Absent man(3) by (intro image_inv_quiet) (auto simp: phase_ok_def)
    ultimately show ?thesis using st(2) man(2) by (simp add: advance_def Let_def)
  next
    case (Manifest m')
    obtain i s1 where o: "open_tmp (?mem @ ''.tmp'') s = (i, s1)" by fastforce
    have "manifest_hashes m' = Inr hs" using ok [of t] Manifest by (simp add: phase_ok_def)
    with image_inv_open [OF inv Manifest o] ready Manifest o show ?thesis
      by (simp add: advance_def Let_def image_ready_def)
  next
    case (Filling i pos buf rest)
    obtain ws where ws: "map (hot_lookup (ev_cas ev) (w_store w)) rest = map Some ws" "drop pos (concat bs) = buf @ concat ws"
        "pos \<le> length (concat bs)" "rc_dir s (snap_file ev sid ''mem.manifest'') \<noteq> Some i"
      using ok [of t] Filling by (auto simp: phase_ok_def Let_def)
    show ?thesis
    proof (cases rest)
      case Nil
      with ws have buf: "drop pos (concat bs) = buf" by simp
      then have len: "length buf = length (concat bs) - pos" by (metis length_drop)
      have "image_inv ev sid w hs (concat bs) (now_at t Filled (put_data i pos buf s))"
        using buf len ws(3) by (intro image_inv_write [OF inv Filling]) (auto simp: phase_ok_def)
      with Filling Nil show ?thesis by (simp add: advance_def Let_def)
    next
      case (Cons h rest')
      with ws obtain b ws' where b: "ws = b # ws'" "hot_lookup (ev_cas ev) (w_store w) h = Some b" by (cases ws) auto
      have same: "s\<lparr>rc_store := w_store w\<rparr> = s" using st(1) by (auto intro!: race.equality)
      have "image_inv ev sid w hs (concat bs) (now_at t (Filling i pos (buf @ b) rest') (put_data i pos [] s))"
        using ws Cons b by (intro image_inv_write [OF inv Filling]) (auto simp: phase_ok_def)
      moreover have "put_data i pos [] s = s" by (simp add: put_data_def)
      ultimately show ?thesis using Filling Cons image_ready_get [OF ready b(2)] by (simp add: advance_def Let_def st(1) same)
    qed
  next
    case Filled
    show ?thesis
    proof (cases "rc_dir s (?mem @ ''.tmp'')")
      case None
      with inv Filled have "rc_dir s ?mem \<noteq> None" by (auto simp: image_inv_def Let_def intro: exI [of _ t])
      then have "image_inv ev sid w hs (concat bs) (now_at t (Raised (no_such_file (?mem @ ''.tmp''))) s)"
        using inv Filled by (intro image_inv_quiet) (auto simp: phase_ok_def)
      with Filled None show ?thesis by (simp add: advance_def Let_def)
    next
      case (Some i)
      with image_inv_rename [OF inv Filled] Filled show ?thesis by (simp add: advance_def Let_def)
    qed
  qed (use inv in \<open>simp_all add: advance_def Let_def\<close>)
qed

lemma image_inv_drain:
  assumes inv: "image_inv ev sid w hs img s"
  shows "image_inv ev sid w hs img (drain t k s)"
proof (cases "rc_phase s t")
  case (Filling i pos buf rest)
  let ?d = "take k buf"
  have "phase_ok ev sid w hs img s (Filling i pos buf rest)"
    using inv Filling unfolding image_inv_def Let_def by metis
  then obtain ws where ws: "map (hot_lookup (ev_cas ev) (w_store w)) rest = map Some ws" "drop pos img = buf @ concat ws"
      "pos \<le> length img" "rc_dir s (snap_file ev sid ''mem.manifest'') \<noteq> Some i"
    by (auto simp: phase_ok_def Let_def)
  have "length img - pos = length buf + length (concat ws)" using ws(2) by (metis length_append length_drop)
  then have fits: "pos + length ?d \<le> length img" using ws(3) by simp
  have taken: "take (length ?d) (drop pos img) = ?d" using ws(2) by (simp add: min_def)
  have "drop (pos + length ?d) img = drop (length ?d) (drop pos img)" by (simp add: add.commute)
  also have "\<dots> = drop k buf @ concat ws" using ws(2) by (simp add: min_def)
  finally have rest: "drop (pos + length ?d) img = drop k buf @ concat ws" .
  have "image_inv ev sid w hs img (now_at t (Filling i (pos + length ?d) (drop k buf) rest) (put_data i pos ?d s))"
    using ws fits rest taken by (intro image_inv_write [OF inv Filling]) (auto simp: phase_ok_def)
  with Filling show ?thesis by (simp add: drain_def)
qed (use inv in \<open>simp_all add: drain_def\<close>)

lemma image_inv_start:
  assumes "h_files (w_host w) (snap_file ev sid ''mem'') \<in> {None, Some img}"
  shows "image_inv ev sid w hs img (race_of w)"
  using assms by (auto simp: image_inv_def Let_def phase_ok_def settled_def race_of_def split: if_splits option.splits)
    (auto simp: race_of_def [symmetric])

lemma image_run_inv:
  assumes "image_run ev sid T s0 s" "image_ready ev sid w hs bs" "image_inv ev sid w hs (concat bs) s0"
  shows "image_inv ev sid w hs (concat bs) s"
  using assms by induction (auto intro: image_inv_advance image_inv_drain)

lemma settled_whole:
  assumes "settled img s i" "\<And>p. \<not> covered s i p"
  shows "rc_data s i = img"
proof (rule nth_equalityI)
  have same: "p < length (rc_data s i) \<and> rc_data s i ! p = img ! p" if "p < length img" for p
    using assms that by (simp add: settled_def)
  have "length (rc_data s i) \<le> length img" using assms(1) by (simp add: settled_def)
  moreover have "length img \<le> length (rc_data s i)"
    using same [of "length (rc_data s i)"] by (meson leI less_irrefl)
  ultimately show len: "length (rc_data s i) = length img" by simp
  fix p assume "p < length (rc_data s i)"
  with same [of p] len show "rc_data s i ! p = img ! p" by simp
qed

text \<open>
  C4. However many requests fork an intact snapshot at the same time, and however their steps interleave:
  whenever none of them has the temporary file open, the file at the path of the image is the complete
  image if there is one; every request that has come to an end returned that path, or failed because
  another had already renamed the temporary file, and then the image is there.
\<close>

theorem image_settles:
  assumes "image_ready ev sid w hs bs" and "h_files (w_host w) (snap_file ev sid ''mem'') \<in> {None, Some (concat bs)}"
    and "image_run ev sid T (race_of w) s" and "\<And>t i pos buf r. rc_phase s t \<noteq> Filling i pos buf r"
  shows "rc_file s (snap_file ev sid ''mem'') \<in> {None, Some (concat bs)} \<and>
    (\<forall>t. ended (rc_phase s t) \<longrightarrow> rc_file s (snap_file ev sid ''mem'') = Some (concat bs) \<and>
       rc_phase s t \<in> {Answered (snap_file ev sid ''mem''), Raised (no_such_file (snap_file ev sid ''mem'' @ ''.tmp''))})"
proof -
  let ?mem = "snap_file ev sid ''mem''"
  have inv: "image_inv ev sid w hs (concat bs) s"
    using image_run_inv [OF assms(3,1)] image_inv_start [OF assms(2)] by blast
  have whole: "rc_file s ?mem = Some (concat bs)" if "rc_dir s ?mem = Some i" for i
  proof -
    have "settled (concat bs) s i" using inv that by (simp add: image_inv_def Let_def)
    moreover have "\<not> covered s i p" for p using assms(4) by (auto simp: covered_def)
    ultimately show ?thesis using settled_whole [of "concat bs" s i] that by (simp add: rc_file_def)
  qed
  have ok: "phase_ok ev sid w hs (concat bs) s (rc_phase s t)" for t using inv by (simp add: image_inv_def Let_def)
  have "rc_file s ?mem = Some (concat bs) \<and> rc_phase s t \<in> {Answered ?mem, Raised (no_such_file (?mem @ ''.tmp''))}"
    if "ended (rc_phase s t)" for t
    using that ok [of t] whole by (cases "rc_phase s t") (auto simp: phase_ok_def Let_def)
  with whole show ?thesis by (cases "rc_dir s ?mem") (auto simp: rc_file_def)
qed

lemma advance_others: "u \<noteq> t \<Longrightarrow> rc_phase (advance ev sid t s) u = rc_phase s u"
proof -
  assume u: "u \<noteq> t"
  obtain i s1 where o: "open_tmp (snap_file ev sid ''mem'' @ ''.tmp'') s = (i, s1)" by fastforce
  show ?thesis
  proof (cases "rc_phase s t")
    case (Filling j pos buf hs)
    with u show ?thesis by (cases hs) (auto simp: advance_def Let_def split: sum.split prod.split)
  qed (use u o open_tmp_result [OF o] in \<open>auto simp: advance_def Let_def split: option.split sum.split\<close>)
qed

lemma moves_others: "u \<notin> set ts \<Longrightarrow> rc_phase (moves ev sid ts s) u = rc_phase s u"
  by (induction ts arbitrary: s) (auto simp: advance_others)

theorem image_settles_witness:
  "\<exists>s. image_run demo_image_engine ''x'' {0, 1} (race_of demo_race_world) s \<and> ended (rc_phase s 0) \<and> ended (rc_phase s 1) \<and>
     rc_file s (snap_file demo_image_engine ''x'' ''mem'') = Some [1, 2, 1, 2, 3]"
proof -
  let ?ev = demo_image_engine
  obtain bs where bs: "image_ready ?ev ''x'' demo_race_world demo_hashes bs" "concat bs = [1, 2, 1, 2, 3]"
    using demo_race_ready by blast
  obtain n where n: "ended (rc_phase (moves ?ev ''x'' (replicate n 0) (race_of demo_race_world)) 0)"
    using asked_ends [of "race_of demo_race_world" 0 ?ev "''x''"] by auto
  let ?s1 = "moves ?ev ''x'' (replicate n 0) (race_of demo_race_world)"
  obtain k where k: "ended (rc_phase (moves ?ev ''x'' (replicate k 1) ?s1) 1)"
    using asked_ends [of ?s1 1 ?ev "''x''"] moves_others [of 1 "replicate n 0" ?ev "''x''" "race_of demo_race_world"] by auto
  let ?s = "moves ?ev ''x'' (replicate n 0 @ replicate k 1) (race_of demo_race_world)"
  have ends: "ended (rc_phase ?s 0)" "ended (rc_phase ?s 1)"
    using n k moves_others [of 0 "replicate k 1" ?ev "''x''" ?s1] by simp_all
  have "rc_phase ?s u = Asked" if "u \<noteq> 0" "u \<noteq> 1" for u
    using that moves_others [of u "replicate n 0 @ replicate k 1" ?ev "''x''" "race_of demo_race_world"] by auto
  then have closed: "rc_phase ?s u \<noteq> Filling i pos buf r" for u i pos buf r
    using ends by (cases "u = 0 \<or> u = 1") auto
  have run: "image_run ?ev ''x'' {0, 1} (race_of demo_race_world) ?s" by (rule moves_run [OF image_run.start]) auto
  from image_settles [OF bs(1) _ run closed] demo_race_absent bs(2) ends(1) have
    "rc_file ?s (snap_file ?ev ''x'' ''mem'') = Some [1, 2, 1, 2, 3]" by auto
  with run ends show ?thesis by blast
qed

end
