(* ===== verification/Daemon_Processes.thy ===== *)
theory Daemon_Processes
  imports Cleanup Http_Api Metering Image_Race
begin

text \<open>
  The processes of the daemon (\<open>spikes/engine/kladosd.py\<close>): \<open>LIVE\<close> accounts for every virtual machine that
  requests have started, as long as they were answered; and what a boot that fails leaves behind.
\<close>

section \<open>\<open>LIVE\<close> accounts for the processes\<close>

definition live_pids :: "('v, 'srv) world \<Rightarrow> nat set" where
  "live_pids w = {q. \<exists>iid vm. map_of (w_live w) iid = Some vm \<and> mv_proc vm = Some q}"

text \<open>No process is lost: one that was live, or not running, is live or not running afterwards.\<close>

definition accounts :: "'v platform \<Rightarrow> ('v, 'srv) world \<Rightarrow> ('v, 'srv) world \<Rightarrow> bool" where
  "accounts P w w' \<longleftrightarrow> (\<forall>q. q \<in> live_pids w \<or> dead P q (w_host w) \<longrightarrow> q \<in> live_pids w' \<or> dead P q (w_host w'))"

interpretation books: state_order "accounts P" for P :: "'v platform"
  by unfold_locales (auto simp: accounts_def)

text \<open>The ids of live instances have been drawn.\<close>

definition ids_drawn :: "('v, 'srv) engine \<Rightarrow> ('v, 'srv) world \<Rightarrow> bool" where
  "ids_drawn ev w \<longleftrightarrow> (\<forall>k. map_of (w_live w) k \<noteq> None \<longrightarrow> (\<exists>j < w_ids w. k = ev_id ev j))"

lemma accounts_same:
  "w_live w' = w_live w \<Longrightarrow> no_new P (w_host w) (w_host w') \<Longrightarrow> accounts P w w'"
  by (auto simp: accounts_def live_pids_def no_new_def)

lemma accounts_update:
  assumes "map_of (w_live w) iid = None" "w_live w' = AList.update iid vm (w_live w)"
    and "\<And>q. dead P q (w_host w) \<Longrightarrow> q \<in> pids_of vm \<or> dead P q (w_host w')"
  shows "accounts P w w'"
  unfolding accounts_def
proof (intro allI impI)
  fix q assume q: "q \<in> live_pids w \<or> dead P q (w_host w)"
  have m: "map_of (w_live w') = (map_of (w_live w))(iid \<mapsto> vm)" by (simp add: assms(2) update_conv')
  have new: "pids_of vm \<subseteq> live_pids w'" by (auto simp: live_pids_def pids_of_def m)
  have "live_pids w \<subseteq> live_pids w'" using assms(1) by (auto simp: live_pids_def m) (metis option.distinct(1))
  with q new assms(3) show "q \<in> live_pids w' \<or> dead P q (w_host w')" by blast
qed

section \<open>The operations\<close>

lemma no_new_attempt_run: "births_by_popen P \<Longrightarrow> keeps (no_new P) (attempt (timed (pf_run P cmd)) (\<lambda>_. ret ()))"
  by (intro births.keeps_attempt no_new_calls births.keeps_ret)

lemma still_no_new: "sigkill_ok P \<Longrightarrow> keeps same_mach m \<Longrightarrow> keeps (no_new P) m"
  by (rule no_new_files) (simp_all add: keeps_def same_mach_def)

lemma hands_scratch:
  assumes "births_by_popen P"
  shows "hands P A (\<lambda>_. A) (\<lambda>h. case src of
      Some s \<Rightarrow> if s \<noteq> [] \<and> exists_file s h then copy_file s p h else if \<not> exists_file p h then make_scratch P p h else (Inr (), h)
    | None \<Rightarrow> if \<not> exists_file p h then make_scratch P p h else (Inr (), h))"
proof (intro hands_keeps keepsI)
  fix h
  note s = births_sigkill [OF assms]
  have "keeps (no_new P) (make_scratch P p)"
    unfolding make_scratch_def by (intro births.keeps_andthen no_new_calls [OF assms])
  moreover have "keeps (no_new P) (copy_file q p)" for q by (rule still_no_new [OF s still_copy])
  ultimately show "no_new P h (snd (case src of
      Some s \<Rightarrow> if s \<noteq> [] \<and> exists_file s h then copy_file s p h else if \<not> exists_file p h then make_scratch P p h else (Inr (), h)
    | None \<Rightarrow> if \<not> exists_file p h then make_scratch P p h else (Inr (), h)))"
    by (auto simp: keeps_snd births.R_refl split: option.split)
qed

lemma on_hostE:
  assumes "on_host m w = (r, w')"
  obtains h' where "m (w_host w) = (r, h')" "w' = w\<lparr>w_host := h'\<rparr>"
  using assms by (auto simp: on_host_def split: prod.splits)

lemma boot_accounts:
  assumes "births_by_popen (ev_plat ev)" "map_of (w_live w) iid = None" "boot_vm ev iid load_from src w = (Inr (vm, uds), w')"
  shows "accounts (ev_plat ev) w w' \<and> w_live w' = AList.update iid vm (w_live w) \<and> w_ids w' = w_ids w"
proof -
  let ?P = "ev_plat ev"
  obtain h1 h2 h3 where run: "w' = w\<lparr>w_host := h3, w_live := AList.update iid vm (w_live w)\<rparr>"
      and h1: "(\<lambda>h. case src of
          Some s \<Rightarrow> if s \<noteq> [] \<and> exists_file s h then copy_file s (path_join (instance_dir ev iid) ''scratch.ext4'') h
            else if \<not> exists_file (path_join (instance_dir ev iid) ''scratch.ext4'') h
              then make_scratch ?P (path_join (instance_dir ev iid) ''scratch.ext4'') h else (Inr (), h)
        | None \<Rightarrow> if \<not> exists_file (path_join (instance_dir ev iid) ''scratch.ext4'') h
            then make_scratch ?P (path_join (instance_dir ev iid) ''scratch.ext4'') h else (Inr (), h)) (w_host w) = (Inr (), h1)"
      and h2: "spawn ?P (microvm_init (engine_spec ev) (instance_dir ev iid) ''vm'' (Some (path_join (instance_dir ev iid) ''console''))
          (Some (baked, instance_dir ev iid))) h1 = (Inr vm, h2)"
      and h3: "(case load_from of None \<Rightarrow> configure_and_start ?P vm | Some (snap, mem) \<Rightarrow> load ?P vm snap mem ''File'' True False None) h2 = (Inr (), h3)"
    using assms(3) unfolding boot_vm_def Let_def by (auto elim!: andthen_InrE on_hostE)
  have last: "hands ?P (pids_of vm) (\<lambda>_. pids_of vm) (case load_from of None \<Rightarrow> configure_and_start ?P vm
      | Some (snap, mem) \<Rightarrow> load ?P vm snap mem ''File'' True False None)"
    unfolding configure_and_start_def load_def
    by (auto intro: hands_requests [OF assms(1)] split: option.split)
  have "q \<in> pids_of vm \<or> dead ?P q h3" if "dead ?P q (w_host w)" for q
    using handsD [OF last h3, of q] handsD [OF hands_spawn [OF assms(1), of "{}"] h2, of q]
      handsD [OF hands_scratch [OF assms(1), of "{}"] h1, of q] that by auto
  with accounts_update [OF assms(2), of w' vm ?P] show ?thesis by (simp add: run)
qed

text \<open>The steps that touch neither \<open>LIVE\<close> nor start a process.\<close>

definition calm :: "'v platform \<Rightarrow> ('v, 'srv) world \<Rightarrow> ('v, 'srv) world \<Rightarrow> bool" where
  "calm P w w' \<longleftrightarrow> no_new P (w_host w) (w_host w') \<and> w_live w' = w_live w \<and> w_ids w \<le> w_ids w'"

interpretation quiet: state_order "calm P" for P :: "'v platform"
  by unfold_locales (auto simp: calm_def intro: births.R_trans births.R_refl)

lemma calm_on_host: "keeps (no_new P) m \<Longrightarrow> keeps (calm P) (on_host m)"
  by (rule keepsI) (auto simp: on_host_def split_beta calm_def dest: keeps_snd)

lemma calm_still: "sigkill_ok P \<Longrightarrow> keeps same_mach m \<Longrightarrow> keeps (calm P) (on_host m)"
  by (rule calm_on_host) (rule still_no_new)

lemma calm_same:
  "(\<And>w. w_live (snd (m w)) = w_live w \<and> w_host (snd (m w)) = w_host w \<and> w_ids w \<le> w_ids (snd (m w))) \<Longrightarrow> keeps (calm P) m"
  by (rule keepsI) (simp add: calm_def births.R_refl)

lemma calm_steps:
  "keeps (calm P) (on_store m)" "keeps (calm P) connect" "keeps (calm P) (commit con)" "keeps (calm P) (new_id ev)"
  "keeps (calm P) (new_token ev)" "keeps (calm P) (lift_sum r)"
  by (rule calm_same; simp add: on_store_def connect_def commit_def new_id_def new_token_def lift_sum_def split_beta)+

lemmas calm_intros = quiet.keeps_andthen quiet.keeps_ret quiet.keeps_throw calm_steps

lemma still_append: "keeps same_mach (append_file p d)"
  unfolding append_file_def by (intro still.keeps_andthen still_files)

lemma still_replace: "keeps same_mach (replace_file p q)"
  unfolding replace_file_def by (intro still.keeps_andthen still.keeps_if still_files still.keeps_ret)

lemma calm_clock: "sigkill_ok P \<Longrightarrow> keeps (calm P) (on_host time_now)"
  by (erule calm_still) (rule still_files(1))

lemma calm_chunk_mem: "sigkill_ok P \<Longrightarrow> keeps (calm P) (chunk_mem ev sid mem)"
  unfolding chunk_mem_def by (intro calm_intros calm_still still_files still_size)

lemma calm_write_chunks: "sigkill_ok P \<Longrightarrow> keeps (calm P) (write_chunks ev tmp hs)"
  by (induction hs) (auto intro!: calm_intros calm_still still_append)

lemma calm_reconstruct:
  assumes "sigkill_ok P"
  shows "keeps (calm P) (reconstruct_mem ev sid)"
proof (rule keepsI)
  fix w
  have "keeps (calm P) (absent_rest ev sid)"
    unfolding absent_rest_def manifest_rest_def fill_rest_def
    by (intro calm_intros calm_still [OF assms] calm_write_chunks [OF assms] still_files still_replace)
  then show "calm P w (snd (reconstruct_mem ev sid w))"
    by (simp add: reconstruct_mem_rest keeps_snd quiet.R_refl)
qed

lemma no_new_wait_agent: "births_by_popen P \<Longrightarrow> no_new P h (snd (wait_agent P uds deadline h))"
proof (induction P uds deadline h rule: wait_agent.induct)
  case (1 P uds deadline h)
  obtain up h1 where t: "ping P uds h = (up, h1)" by fastforce
  have s1: "no_new P h h1"
    using t keeps_snd [OF no_new_vsock [OF "1.prems"], of h uds 5000 "JObj [(''type'', JStr ''PING'')]"]
    by (auto simp: ping_def split: prod.splits sum.splits)
  show ?case
  proof (cases "h_clock h < deadline \<and> \<not> up")
    case True
    have "no_new P (py_sleep P (1 / 5) h1) (snd (wait_agent P uds deadline (py_sleep P (1 / 5) h1)))"
      using "1.IH" [OF _ t [symmetric] refl] True "1.prems" by simp
    then have "no_new P h (snd (wait_agent P uds deadline (py_sleep P (1 / 5) h1)))"
      using s1 no_new_sleep [OF "1.prems", of h1 "1 / 5"] births.R_trans by blast
    with True t show ?thesis by (subst wait_agent.simps) simp
  next
    case False
    then show ?thesis using s1 t by (subst wait_agent.simps) (auto simp: births.R_refl)
  qed
qed

lemma no_new_await_agent: "births_by_popen P \<Longrightarrow> keeps (no_new P) (await_agent P uds)"
  by (rule keepsI) (simp add: await_agent_def split_beta no_new_wait_agent)

lemma no_new_clock: "sigkill_ok P \<Longrightarrow> keeps (no_new P) time_now"
  by (erule still_no_new) (rule still_files(1))

lemma no_new_send_forked:
  assumes "births_by_popen (ev_plat ev)"
  shows "keeps (no_new (ev_plat ev)) (send_forked ev uds i n)"
  unfolding send_forked_def Let_def
  by (intro births.keeps_attempt births.keeps_andthen births.keeps_ret no_new_await_agent no_new_vsock no_new_clock births_sigkill assms no_new_lift)

lemma no_new_seal:
  assumes "births_by_popen (ev_plat ev)"
  shows "keeps (no_new (ev_plat ev)) (seal_vm ev vm iid sid snap mem)"
proof -
  let ?P = "ev_plat ev"
  note s = births_sigkill [OF assms]
  have pause: "keeps (no_new ?P) (\<lambda>h. (Inr (), py_sleep ?P d h))" for d by (rule keepsI) (simp add: no_new_sleep [OF assms])
  have "keeps (no_new ?P) (copy_file p q)" for p q by (rule still_no_new [OF s still_copy])
  then have copy: "keeps (no_new ?P) (\<lambda>h. if exists_file p h then copy_file p q h else (Inr (), h))" for p q
    by (auto simp: keeps_def births.R_refl)
  show ?thesis
    unfolding seal_vm_def quiesce_def Let_def pause_def vm_snapshot_def resume_def
    by (intro births.keeps_attempt births.keeps_andthen births.keeps_ret no_new_vsock no_new_requests pause copy assms)
qed

lemma no_new_fs_diff:
  assumes "births_by_popen (ev_plat ev)"
  shows "keeps (no_new (ev_plat ev)) (fs_diff ev a b)"
proof (rule keepsI)
  fix h
  let ?P = "ev_plat ev"
  have mount: "keeps (no_new ?P) (mount_ro ev img)" for img
  proof (rule keepsI)
    fix h
    have "keeps (no_new ?P) (andthen (timed (pf_run ?P c)) (\<lambda>_. ret m))" for c and m :: string
      by (intro births.keeps_andthen no_new_calls [OF assms] births.keeps_ret)
    then show "no_new ?P h (snd (mount_ro ev img h))" by (simp add: mount_ro_def Let_def keeps_snd)
  qed
  have umount: "keeps (no_new ?P) (umount ev m)" for m
    unfolding umount_def by (rule no_new_attempt_run [OF assms])
  have walk: "keeps (no_new ?P) (\<lambda>h. (Inr (f h), h))" for f :: "'a host \<Rightarrow> file_index \<times> file_index"
    by (rule keepsI) (simp add: births.R_refl)
  have "keeps (no_new ?P) (andthen (mount_ro ev p) (\<lambda>ma. andthen (mount_ro ev q) (\<lambda>mb.
      andthen (\<lambda>h. (Inr (walk_fs (ev_sha1 ev) (ev_tree ev ma h) [], walk_fs (ev_sha1 ev) (ev_tree ev mb h) []), h)) (\<lambda>(fa, fb).
      andthen (umount ev ma) (\<lambda>_. andthen (umount ev mb) (\<lambda>_. ret (g fa fb)))))))" for p q and g :: "file_index \<Rightarrow> file_index \<Rightarrow> json"
    by (intro births.keeps_andthen mount walk) (auto intro!: births.keeps_andthen umount births.keeps_ret split: prod.split)
  then show "no_new ?P h (snd (fs_diff ev a b h))"
    by (simp add: fs_diff_def Let_def births.R_refl keeps_snd)
qed

section \<open>The handlers\<close>

lemma ids_drawn_fresh: "inj (ev_id ev) \<Longrightarrow> ids_drawn ev w \<Longrightarrow> w_ids w \<le> n \<Longrightarrow> map_of (w_live w) (ev_id ev n) = None"
  unfolding ids_drawn_def inj_def by (metis leD)

lemma ids_drawn_mono: "ids_drawn ev w \<Longrightarrow> w_live w' = w_live w \<Longrightarrow> w_ids w \<le> w_ids w' \<Longrightarrow> ids_drawn ev w'"
  unfolding ids_drawn_def by (metis less_le_trans)

lemma ids_drawn_update:
  assumes "ids_drawn ev w" "w_live w' = AList.update (ev_id ev n) vm (w_live w)" "n < w_ids w'" "w_ids w \<le> w_ids w'"
  shows "ids_drawn ev w'"
  using assms unfolding ids_drawn_def by (auto simp: update_conv') (metis less_le_trans option.distinct(1))

text \<open>What a step of a daemon does if it succeeds: it loses no process and draws the ids it uses.\<close>

definition booked :: "('v, 'srv) engine \<Rightarrow> ('v, 'srv) world \<Rightarrow> ('v, 'srv) world \<Rightarrow> bool" where
  "booked ev w w' \<longleftrightarrow> (ids_drawn ev w \<longrightarrow> accounts (ev_plat ev) w w' \<and> ids_drawn ev w')"

interpretation ledger: state_order "booked ev" for ev :: "('v, 'srv) engine"
  by unfold_locales (auto simp: booked_def intro: books.R_trans books.R_refl)

lemma calm_booked: "calm (ev_plat ev) w w' \<Longrightarrow> booked ev w w'"
  by (simp add: booked_def calm_def accounts_same ids_drawn_mono)

lemma booked_boot:
  assumes "births_by_popen (ev_plat ev)" "inj (ev_id ev)" "w_ids w0 \<le> n" "n < w_ids w" "w_live w = w_live w0" "w_host w = w_host w0"
    and "boot_vm ev (ev_id ev n) load_from src w = (Inr (vm, uds), w')"
  shows "booked ev w0 w'"
  unfolding booked_def
proof
  assume d: "ids_drawn ev w0"
  have free: "map_of (w_live w) (ev_id ev n) = None" using ids_drawn_fresh [OF assms(2) d assms(3)] assms(5) by simp
  note b = boot_accounts [OF assms(1) free assms(7)]
  have "accounts (ev_plat ev) w0 w" using assms(5,6) by (simp add: accounts_def live_pids_def)
  with b have "accounts (ev_plat ev) w0 w'" using books.R_trans by blast
  moreover have "ids_drawn ev w'"
    using b assms(3-5) by (intro ids_drawn_update [OF d]) auto
  ultimately show "accounts (ev_plat ev) w0 w' \<and> ids_drawn ev w'" ..
qed

lemma booked_on_host: "keeps (no_new (ev_plat ev)) m \<Longrightarrow> on_host m w = (r, w') \<Longrightarrow> booked ev w w'"
  by (rule calm_booked) (rule keepsD [OF calm_on_host])

lemma quiet_steps:
  "andthen (new_id ev) f w = f (ev_id ev (w_ids w)) (w\<lparr>w_ids := w_ids w + 1\<rparr>)"
  "andthen connect g w = g (w_db w) w"
  "andthen (commit con) k w = k () (w\<lparr>w_db := con\<rparr>)"
  "andthen (on_host time_now) t w = t (h_clock (w_host w)) w"
  "andthen (lift_sum r) l w = (case r of Inl e \<Rightarrow> (Inl e, w) | Inr x \<Rightarrow> l x w)"
  by (simp_all add: andthen_def new_id_def connect_def commit_def on_host_def time_now_def lift_sum_def split: sum.split)

lemma create_run_booked:
  assumes "births_by_popen (ev_plat ev)" "inj (ev_id ev)" "create_run ev pid img w = (Inr j, w')"
  shows "booked ev w w'"
proof -
  obtain con where run: "andthen (boot_vm ev (ev_id ev (Suc (w_ids w))) None None) (\<lambda>(vm, uds).
        andthen (on_host (await_agent (ev_plat ev) uds)) (\<lambda>_.
        ret (JObj [(''run_id'', JStr (ev_id ev (w_ids w))), (''instance_id'', JStr (ev_id ev (Suc (w_ids w))))])))
        (w\<lparr>w_ids := w_ids w + 2, w_db := con\<rparr>) = (Inr j, w')"
    using assms(3) unfolding create_run_def
    by (auto simp: quiet_steps split: sum.splits)
  then obtain w2 vm uds x where b: "boot_vm ev (ev_id ev (Suc (w_ids w))) None None (w\<lparr>w_ids := w_ids w + 2, w_db := con\<rparr>) = (Inr (vm, uds), w2)"
      and a: "on_host (await_agent (ev_plat ev) uds) w2 = (Inr x, w')"
    by (auto elim!: andthen_InrE simp: ret_def)
  have "booked ev w w2" using booked_boot [OF assms(1,2) _ _ _ _ b] by simp
  moreover have "booked ev w2 w'" by (rule booked_on_host [OF no_new_await_agent [OF assms(1)] a])
  ultimately show ?thesis using ledger.R_trans by blast
qed

lemma fork_one_booked:
  assumes "births_by_popen (ev_plat ev)" "inj (ev_id ev)" "fork_one ev snap n i con w = (Inr x, w')"
  shows "booked ev w w'"
proof -
  obtain w2 vm uds b where
        bt: "boot_vm ev (ev_id ev (w_ids w)) (Some (sn_snap_path snap, sn_mem_path snap)) (Some (scratch_of ev (sn_id snap)))
          (w\<lparr>w_ids := w_ids w + 1\<rparr>) = (Inr (vm, uds), w2)"
      and s: "on_host (send_forked ev uds i n) w2 = (Inr b, w')"
    using assms(3) unfolding fork_one_def
    by (auto elim!: andthen_InrE simp: new_id_def time_now_def lift_sum_def ret_def on_host_def [of time_now] split: prod.splits)
  have "booked ev w w2" using booked_boot [OF assms(1,2) _ _ _ _ bt] by simp
  moreover have "booked ev w2 w'" by (rule booked_on_host [OF no_new_send_forked [OF assms(1)] s])
  ultimately show ?thesis using ledger.R_trans by blast
qed

lemma fork_loop_booked:
  assumes "births_by_popen (ev_plat ev)" "inj (ev_id ev)"
  shows "fork_loop ev snap n is con w = (Inr x, w') \<Longrightarrow> booked ev w w'"
proof (induction "is" arbitrary: con w x)
  case (Cons i "is")
  then show ?case
    by (auto elim!: andthen_InrE simp: ret_def split: prod.splits
        intro: ledger.R_trans [OF fork_one_booked [OF assms]])
qed (simp add: ret_def ledger.R_refl)

lemma fork_snapshot_booked:
  assumes "births_by_popen (ev_plat ev)" "inj (ev_id ev)" "fork_snapshot ev sid n w = (Inr j, w')"
  shows "booked ev w w'"
proof -
  obtain snap where "andthen (reconstruct_mem ev sid) (\<lambda>_.
      andthen (fork_loop ev snap n [0..<nat n] (w_db w)) (\<lambda>(con, children).
      andthen (commit con) (\<lambda>_. ret (JObj [(''children'', JList children)])))) w = (Inr j, w')"
    using assms(3) by (auto simp: fork_snapshot_def quiet_steps throw_def split: option.splits)
  then obtain mem con cs w1 w2 where r: "reconstruct_mem ev sid w = (Inr mem, w1)"
      and l: "fork_loop ev snap n [0..<nat n] (w_db w) w1 = (Inr (con, cs), w2)"
      and c: "andthen (commit con) (\<lambda>_. ret (JObj [(''children'', JList cs)])) w2 = (Inr j, w')"
    by (auto elim!: andthen_InrE [of "reconstruct_mem ev sid"] andthen_InrE [of "fork_loop ev s n is k" for s "is" k])
  have "booked ev w w1" by (rule calm_booked [OF keepsD [OF calm_reconstruct [OF births_sigkill [OF assms(1)]] r]])
  moreover have "booked ev w1 w2" by (rule fork_loop_booked [OF assms(1,2) l])
  moreover have k: "keeps (calm (ev_plat ev)) (andthen (commit con) (\<lambda>_. ret (JObj [(''children'', JList cs)])))"
    by (intro calm_intros)
  have "booked ev w2 w'" by (rule calm_booked [OF keepsD [OF k, OF c]])
  ultimately show ?thesis using ledger.R_trans by blast
qed

lemma calm_snapshot:
  assumes "births_by_popen (ev_plat ev)"
  shows "keeps (calm (ev_plat ev)) (snapshot_instance ev iid label)"
proof (rule keepsI)
  fix w
  note s = births_sigkill [OF assms]
  show "calm (ev_plat ev) w (snd (snapshot_instance ev iid label w))"
  proof (cases "map_of (w_live w) iid")
    case None
    then show ?thesis by (simp add: snapshot_instance_def quiet.R_refl)
  next
    case (Some vm)
    show ?thesis
      unfolding snapshot_instance_def Some option.case Let_def
      by (rule keeps_snd) (auto intro!: calm_intros calm_on_host no_new_seal [OF assms] calm_chunk_mem [OF s] calm_clock [OF s] calm_still [OF s still_size]
          split: option.split)
  qed
qed

lemma calm_project: "sigkill_ok (ev_plat ev) \<Longrightarrow> keeps (calm (ev_plat ev)) (create_project ev name)"
  unfolding create_project_def Let_def by (intro calm_intros calm_clock)

lemma destroy_booked:
  assumes "births_by_popen (ev_plat ev)" "destroy_instance ev iid w = (Inr j, w')"
  shows "booked ev w w'"
  unfolding booked_def
proof
  assume d: "ids_drawn ev w"
  let ?P = "ev_plat ev"
  show "accounts ?P w w' \<and> ids_drawn ev w'"
  proof (cases "map_of (w_live w) iid")
    case None
    then have "calm ?P w w'"
      using assms(2) by (auto simp: destroy_instance_def andthen_def quiet_steps connect_def commit_def ret_def calm_def births.R_refl)
    then show ?thesis using calm_booked d unfolding booked_def by blast
  next
    case (Some vm)
    obtain r h1 where k: "kill ?P vm (w_host w) = (r, h1)" by fastforce
    have r: "r = Inr ()" and l: "w_live w' = AList.delete iid (w_live w)" "w_host w' = h1" "w_ids w' = w_ids w"
      using assms(2) k Some
      by (auto simp: destroy_instance_def andthen_def on_host_def connect_def commit_def ret_def split: sum.splits)
    have m: "map_of (w_live w') = (map_of (w_live w))(iid := None)" by (simp add: l delete_conv')
    have killed: "q \<in> pids_of vm \<or> dead ?P q (w_host w) \<Longrightarrow> dead ?P q h1" for q
      using kill_dead [OF births_sigkill [OF assms(1)] k] by (auto simp: pids_of_def)
    have "accounts ?P w w'"
      unfolding accounts_def live_pids_def
      using killed by (auto simp: l(2) m Some pids_of_def split: if_splits) (metis option.inject Some)
    moreover have "ids_drawn ev w'" using d by (auto simp: ids_drawn_def m l(3))
    ultimately show ?thesis ..
  qed
qed

section \<open>The daemon as a whole\<close>

text \<open>What reaches the daemon: requests, and the ticks of the metering thread (with the seconds since the last).\<close>

datatype event = Get api_request | Post api_request | Tick rat

text \<open>
  How the daemon takes an event, and whether it was taken without an exception: a \<open>POST\<close> answered 403 or
  500 is one whose handler raised.
\<close>

definition take_event :: "('v, 'srv) engine \<Rightarrow> event \<Rightarrow> ('v, 'srv) world \<Rightarrow> bool \<times> ('v, 'srv) world" where
  "take_event ev e w =
     (case e of
        Get rq \<Rightarrow> (True, snd (do_GET ev rq w))
      | Post rq \<Rightarrow> (let (a, w') = do_POST ev rq w in (fst a \<notin> {403, 500}, w'))
      | Tick dt \<Rightarrow> (True, snd (meter_tick dt w)))"

fun take_events :: "('v, 'srv) engine \<Rightarrow> event list \<Rightarrow> ('v, 'srv) world \<Rightarrow> bool \<times> ('v, 'srv) world" where
  "take_events ev [] w = (True, w)"
| "take_events ev (e # es) w =
     (let (good, w1) = take_event ev e w; (goods, w2) = take_events ev es w1 in (good \<and> goods, w2))"

lemma calm_get:
  assumes "births_by_popen (ev_plat ev)"
  shows "calm (ev_plat ev) w (snd (do_GET ev rq w))"
proof -
  have own: "keeps (calm (ev_plat ev)) (require_owner pid t x)" for pid t x
    unfolding require_owner_def by (intro calm_intros quiet.keeps_if)
  have "keeps (calm (ev_plat ev)) (get_route ev pid p)" for pid p
    unfolding get_route_def reply_def list_runs_def usage_def timeline_def
    by (intro quiet.keeps_if calm_intros own calm_on_host no_new_fs_diff assms)
  then show ?thesis
    by (simp add: do_GET_def Let_def keeps_snd quiet.R_refl split: option.split)
qed

lemma calm_tick: "sigkill_ok (ev_plat ev) \<Longrightarrow> calm (ev_plat ev) w (snd (meter_tick dt w))"
  unfolding meter_tick_def by (simp add: quiet_steps commit_def calm_def births.R_refl)

lemma post_booked:
  assumes "births_by_popen (ev_plat ev)" "inj (ev_id ev)" "post_route ev pid p b w = (Inr x, w')"
  shows "booked ev w w'"
proof -
  note s = births_sigkill [OF assms(1)]
  have r: "(\<And>j. m w = (Inr j, w') \<Longrightarrow> booked ev w w') \<Longrightarrow> reply m w = (Inr x, w') \<Longrightarrow> booked ev w w'" for m
    by (auto simp: reply_def elim!: andthen_InrE simp: ret_def)
  show ?thesis
    using assms(3) unfolding post_route_def
    by (auto simp: bind_owner bind_sum ret_def ledger.R_refl split: if_splits sum.splits
        intro: r create_run_booked [OF assms(1,2)] fork_snapshot_booked [OF assms(1,2)] destroy_booked [OF assms(1)]
          calm_booked keepsD [OF calm_snapshot [OF assms(1)]] keepsD [OF calm_project [OF s]])
qed

lemma event_booked:
  assumes "births_by_popen (ev_plat ev)" "inj (ev_id ev)" "take_event ev e w = (True, w')"
  shows "booked ev w w'"
proof (cases e)
  case (Get rq)
  then show ?thesis using assms(3) calm_get [OF assms(1)] by (auto simp: take_event_def intro!: calm_booked)
next
  case (Tick dt)
  then show ?thesis using assms(3) calm_tick [OF births_sigkill [OF assms(1)]] by (auto simp: take_event_def intro!: calm_booked)
next
  case (Post rq)
  show ?thesis
  proof (cases "authed ev rq w")
    case None
    then show ?thesis using assms(3) Post by (auto simp: take_event_def do_POST_def Let_def ledger.R_refl)
  next
    case (Some pid)
    let ?m = "andthen (lift_sum (request_body ev rq)) (post_route ev pid (path_parts (ar_path rq)))"
    obtain a where a: "answer ?m w = (a, w')" "fst a \<notin> {403, 500}"
      using assms(3) Post Some by (auto simp: take_event_def do_POST_def Let_def split: prod.splits)
    then obtain x where "?m w = (Inr x, w')"
      by (auto simp: answer_def split: prod.splits sum.splits option.splits exn.splits)
    then show ?thesis using post_booked [OF assms(1,2)] by (auto simp: bind_sum split: sum.splits)
  qed
qed

lemma events_booked:
  assumes "births_by_popen (ev_plat ev)" "inj (ev_id ev)"
  shows "take_events ev es w = (True, w') \<Longrightarrow> booked ev w w'"
proof (induction es arbitrary: w)
  case (Cons e es)
  then show ?case
    by (auto split: prod.splits intro: ledger.R_trans [OF event_booked [OF assms]])
qed (simp add: ledger.R_refl)

text \<open>The processes that run and are not the process of a virtual machine in \<open>LIVE\<close>.\<close>

definition orphans :: "('v, 'srv) engine \<Rightarrow> ('v, 'srv) world \<Rightarrow> nat set" where
  "orphans ev w = {q. pf_alive (ev_plat ev) q (w_host w)} - live_pids w"

text \<open>
  C8. \<open>LIVE\<close> accounts for the processes: however many requests and metering ticks the daemon takes, and
  in whatever order, as long as none of the \<open>POST\<close>s raised there is no process running outside \<open>LIVE\<close>
  that was not before; in particular the process of a destroyed instance is gone.
\<close>

theorem no_orphans:
  assumes "births_by_popen (ev_plat ev)" and "inj (ev_id ev)" and "ids_drawn ev w"
    and "take_events ev es w = (True, w')"
  shows "orphans ev w' \<subseteq> orphans ev w \<and> ids_drawn ev w'"
  using events_booked [OF assms(1,2,4)] assms(3) by (auto simp: booked_def accounts_def orphans_def dead_def)

text \<open>Two forks of the toy host's snapshot, over HTTP.\<close>

definition demo_fork_request :: api_request where
  "demo_fork_request = (let d = dumps number_codec (JObj [(''n'', JInt 2)])
     in \<lparr>ar_path = ''/v1/snapshots/s/fork'', ar_key = ''k'', ar_length = Some (show_nat (length d)), ar_data = encode d\<rparr>)"

lemma demo_engine_ids: "inj (ev_id (demo_engine k))"
proof (rule injI)
  fix m n assume "ev_id (demo_engine k) m = ev_id (demo_engine k) n"
  then have "show_nat m = show_nat n" by (simp add: demo_engine_def)
  then have "parse_int (show_int (int m)) = parse_int (show_int (int n))" by (simp add: show_int_def)
  then show "m = n" by simp
qed

lemma demo_engine_births: "births_by_popen (ev_plat (demo_engine k))"
  by (auto simp: births_by_popen_def sigkill_ok_def demo_engine_def demo_plat_def)

lemma demo_fork_answered:
  "\<exists>j w'. do_POST (demo_engine 9) demo_fork_request demo_world = ((200, j), w') \<and> map fst (w_live w') = [''id0'', ''id1'']"
proof -
  obtain vm1 vm2 j w' where f: "fork_snapshot (demo_engine 9) ''s'' 2 demo_world = (Inr j, w')" "w_live w' = [(''id0'', vm1), (''id1'', vm2)]"
    using demo_fork_two by blast
  have "pf_codec (ev_plat (demo_engine 9)) = number_codec" by (simp add: demo_engine_def demo_plat_def)
  with number_codec_ok have b: "request_body (demo_engine 9) demo_fork_request = Inr (JObj [(''n'', JInt 2)])"
    by (intro request_body_sent [of _ _ _ "encode (dumps number_codec (JObj [(''n'', JInt 2)]))" "[]"])
      (simp_all add: demo_fork_request_def Let_def)
  have a: "authed (demo_engine 9) demo_fork_request demo_world = Some ''p''" "project_of Snapshots ''s'' (w_db demo_world) = Some ''p''"
    by (simp_all add: authed_def project_of_key_def demo_fork_request_def Let_def demo_world_def demo_tables_def hash_key_def demo_engine_def
        project_of_def select_row_def)
  have p: "path_parts (ar_path demo_fork_request) = [''v1'', ''snapshots'', ''s'', ''fork'']"
    by (simp add: demo_fork_request_def Let_def path_parts_def strip_slash_def)
  have "reply (fork_snapshot (demo_engine 9) ''s'' 2) demo_world = (Inr (Some j), w')"
    using f(1) by (simp add: reply_def andthen_def ret_def)
  then have "do_POST (demo_engine 9) demo_fork_request demo_world = ((200, j), w')"
    by (simp add: do_POST_def Let_def a p b bind_sum post_route_def bind_owner body_get_def json_int_def answer_def)
  with f(2) show ?thesis by simp
qed

theorem no_orphans_witness:
  "\<exists>w'. take_events (demo_engine 9) [Post demo_fork_request, Tick 5] demo_world = (True, w') \<and> map fst (w_live w') = [''id0'', ''id1''] \<and>
     orphans (demo_engine 9) w' = {}"
proof -
  obtain j w1 where f: "do_POST (demo_engine 9) demo_fork_request demo_world = ((200, j), w1)" "map fst (w_live w1) = [''id0'', ''id1'']"
    using demo_fork_answered by metis
  let ?w = "snd (meter_tick 5 w1)"
  have run: "take_events (demo_engine 9) [Post demo_fork_request, Tick 5] demo_world = (True, ?w)"
    by (simp add: take_event_def f(1))
  have "w_live ?w = w_live w1" by (simp add: meter_tick_def quiet_steps commit_def)
  moreover have "ids_drawn (demo_engine 9) demo_world" by (simp add: ids_drawn_def demo_world_facts)
  moreover have "orphans (demo_engine 9) demo_world = {}"
    by (simp add: orphans_def demo_engine_def demo_plat_def demo_world_def)
  ultimately show ?thesis
    using no_orphans [OF demo_engine_births demo_engine_ids _ run] run f(2) by auto
qed

section \<open>A boot that is never answered\<close>

text \<open>
  A machine on which Firecracker starts but never answers on its API socket: every \<open>Popen\<close> returns a new,
  running process and no request is answered; the commands for the disk succeed, and neither they nor
  the passing of time end a process.
\<close>

definition mute :: "'v platform \<Rightarrow> bool" where
  "mute P \<longleftrightarrow> (\<forall>sock meth path body h. \<exists>e h'. pf_http P sock meth path body h = (Inl e, h') \<and> h_mach h' = h_mach h) \<and>
     (\<forall>cmd h. \<exists>pid h'. pf_popen P cmd h = (Inr pid, h') \<and> \<not> pf_alive P pid h \<and> pf_alive P pid h') \<and>
     (\<forall>cmd h. \<exists>h'. pf_run P cmd h = (Inr (), h') \<and> h_mach h' = h_mach h) \<and> (\<forall>d h. h_mach (pf_idle P d h) = h_mach h)"

definition never_up :: "microvm \<Rightarrow> exn" where
  "never_up vm = TimeoutError (''firecracker api socket '' @ mv_sock vm @ '' never came up'')"

lemma mute_try:
  assumes "mute P"
  shows "fst (try_api P vm h) = False \<and> h_mach (snd (try_api P vm h)) = h_mach h"
proof -
  obtain e h' where "pf_http P (mv_sock vm) ''GET'' ''/'' None h = (Inl e, h')" "h_mach h' = h_mach h"
    using assms unfolding mute_def by blast
  then show ?thesis by (simp add: try_api_def fc_req_def andthen_def timed_def forward_def)
qed

lemma mute_await:
  "mute P \<Longrightarrow> fst (await_sock P vm deadline h) = Inl (never_up vm) \<and> h_mach (snd (await_sock P vm deadline h)) = h_mach h"
proof (induction P vm deadline h rule: await_sock.induct)
  case (1 P vm deadline h)
  obtain h1 where t: "try_api P vm h = (False, h1)" "h_mach h1 = h_mach h"
    using mute_try [OF "1.prems", of vm h] by (metis prod.collapse)
  have idle: "h_mach (py_sleep P d g) = h_mach g" for d g using "1.prems" by (simp add: py_sleep_def Let_def mute_def)
  show ?case
  proof (cases "h_clock h < deadline")
    case True
    with "1.IH" [OF True t(1) [symmetric] refl] "1.prems" t idle show ?thesis by (subst (1 2) await_sock.simps) simp
  next
    case False
    then show ?thesis by (subst (1 2) await_sock.simps) (simp add: never_up_def)
  qed
qed

lemma mute_spawn:
  assumes "sigkill_ok P" "mute P"
  shows "\<exists>h' pid. spawn P vm h = (Inl (never_up vm), h') \<and> \<not> pf_alive P pid h \<and> pf_alive P pid h'"
proof -
  have same: "pf_alive P q g = pf_alive P q g'" if "h_mach g = h_mach g'" for q g g'
    using assms(1) that unfolding sigkill_ok_def by blast
  define h1 where "h1 = (if exists_file (mv_sock vm) h then snd (remove_file (mv_sock vm) h) else h)"
  define h2 where "h2 = snd ((case mv_console vm of Some c \<Rightarrow> if c \<noteq> [] then write_file c [] else ret () | None \<Rightarrow> ret ()) h1)"
  have m: "h_mach h2 = h_mach h" by (simp add: h2_def h1_def remove_file_def write_file_def ret_def split: option.split)
  obtain pid h3 where p: "pf_popen P (spawn_command vm) h2 = (Inr pid, h3)" "\<not> pf_alive P pid h2" "pf_alive P pid h3"
    using assms(2) unfolding mute_def by blast
  let ?h = "forward h2 h3" and ?vm = "vm\<lparr>mv_proc := Some pid\<rparr>"
  obtain h4 where a: "await_sock P ?vm (h_clock ?h + 5) ?h = (Inl (never_up vm), h4)" "h_mach h4 = h_mach h3"
    using mute_await [OF assms(2), of ?vm "h_clock ?h + 5" ?h] by (cases "await_sock P ?vm (h_clock ?h + 5) ?h")
      (auto simp: never_up_def forward_def)
  have "(if exists_file (mv_sock vm) h then remove_file (mv_sock vm) h else (Inr (), h)) = (Inr (), h1)"
    "(case mv_console vm of Some c \<Rightarrow> if c \<noteq> [] then write_file c [] else ret () | None \<Rightarrow> ret ()) h1 = (Inr (), h2)"
    by (simp_all add: h1_def h2_def remove_file_def write_file_def ret_def split: option.split)
  then have "spawn P vm h = (Inl (never_up vm), h4)"
    by (simp add: spawn_def andthen_def timed_def p(1) time_now_def a(1) Let_def)
  with p(2,3) same [OF m] same [OF a(2)] show ?thesis by blast
qed

text \<open>
  C27. A boot that is never answered leaks its process: \<open>__enter__\<close> raises after the five seconds, so the
  \<open>with\<close> statement does not call \<open>__exit__\<close>, and \<open>_boot_vm\<close> raises before it enters the machine in \<open>LIVE\<close>.
  Either way the process just started keeps running, and nothing that could kill it knows it.
\<close>

theorem unanswered_boot_leaks:
  assumes "sigkill_ok P" and "mute P"
  shows "(\<exists>h' pid. with_vm P vm body h = (Inl (never_up vm), h') \<and> \<not> pf_alive P pid h \<and> pf_alive P pid h') \<and>
    (ev_plat ev = P \<longrightarrow> (\<exists>e w' pid. boot_vm ev iid load_from src w = (Inl (TimeoutError e), w') \<and>
      \<not> pf_alive P pid (w_host w) \<and> pf_alive P pid (w_host w') \<and> w_live w' = w_live w))"
proof (intro conjI impI)
  show "\<exists>h' pid. with_vm P vm body h = (Inl (never_up vm), h') \<and> \<not> pf_alive P pid h \<and> pf_alive P pid h'"
    using mute_spawn [OF assms, of vm h] by (auto simp: with_vm_def andthen_def)
next
  assume ev: "ev_plat ev = P"
  let ?scratch = "path_join (instance_dir ev iid) ''scratch.ext4''"
  let ?vm = "microvm_init (engine_spec ev) (instance_dir ev iid) ''vm'' (Some (path_join (instance_dir ev iid) ''console'')) (Some (baked, instance_dir ev iid))"
  have run: "\<exists>g. timed (pf_run P cmd) h = (Inr (), g) \<and> h_mach g = h_mach h" for cmd h
  proof -
    obtain g where "pf_run P cmd h = (Inr (), g)" "h_mach g = h_mach h" using assms(2) unfolding mute_def by blast
    then show ?thesis by (simp add: timed_def forward_def)
  qed
  have mk: "\<exists>g. make_scratch P p h = (Inr (), g) \<and> h_mach g = h_mach h" for p h
  proof -
    obtain g where g: "timed (pf_run P [''dd'', ''if=/dev/zero'', ''of='' @ p, ''bs=1M'', ''count=32'', ''status=none'']) h = (Inr (), g)"
        "h_mach g = h_mach h" using run by blast
    with run [of "[''mkfs.ext4'', ''-q'', ''-F'', p]" g] show ?thesis by (auto simp: make_scratch_def andthen_def)
  qed
  have cp: "exists_file q h \<Longrightarrow> \<exists>g. copy_file q p h = (Inr (), g) \<and> h_mach g = h_mach h" for q p and h :: "'a host"
    by (auto simp: copy_file_def andthen_def read_file_def write_file_def exists_file_def)
  have "\<exists>h1. (case src of
          Some s \<Rightarrow> if s \<noteq> [] \<and> exists_file s (w_host w) then copy_file s ?scratch (w_host w)
            else if \<not> exists_file ?scratch (w_host w) then make_scratch P ?scratch (w_host w) else (Inr (), w_host w)
        | None \<Rightarrow> if \<not> exists_file ?scratch (w_host w) then make_scratch P ?scratch (w_host w) else (Inr (), w_host w)) = (Inr (), h1) \<and>
      h_mach h1 = h_mach (w_host w)"
    using mk cp by (auto split: option.split)
  then obtain h1 where d: "(case src of
          Some s \<Rightarrow> if s \<noteq> [] \<and> exists_file s (w_host w) then copy_file s ?scratch (w_host w)
            else if \<not> exists_file ?scratch (w_host w) then make_scratch P ?scratch (w_host w) else (Inr (), w_host w)
        | None \<Rightarrow> if \<not> exists_file ?scratch (w_host w) then make_scratch P ?scratch (w_host w) else (Inr (), w_host w)) = (Inr (), h1)"
      "h_mach h1 = h_mach (w_host w)" by blast
  obtain h2 pid where s: "spawn P ?vm h1 = (Inl (never_up ?vm), h2)" "\<not> pf_alive P pid h1" "pf_alive P pid h2"
    using mute_spawn [OF assms] by blast
  have "boot_vm ev iid load_from src w = (Inl (never_up ?vm), w\<lparr>w_host := h2\<rparr>)"
    by (simp add: boot_vm_def Let_def andthen_def on_host_def ev d(1) s(1))
  moreover have "\<not> pf_alive P pid (w_host w)" using s(2) d(2) assms(1) by (metis sigkill_ok_def)
  ultimately show "\<exists>e w' pid. boot_vm ev iid load_from src w = (Inl (TimeoutError e), w') \<and>
      \<not> pf_alive P pid (w_host w) \<and> pf_alive P pid (w_host w') \<and> w_live w' = w_live w"
    using s(3) by (auto simp: never_up_def)
qed

definition demo_mute :: "nat list platform" where
  "demo_mute = demo_machine\<lparr>pf_http := (\<lambda>sock meth path body h. (Inl (TimeoutError ''timed out''), h))\<rparr>"

theorem unanswered_boot_leaks_witness:
  "\<exists>h'. with_vm demo_mute demo_vm (\<lambda>vm. ret vm) \<lparr>h_files = (\<lambda>_. None), h_clock = 0, h_mach = [7]\<rparr> = (Inl (never_up demo_vm), h') \<and>
     (\<exists>pid. pid \<noteq> 7 \<and> pf_alive demo_mute pid h')"
proof -
  let ?h = "\<lparr>h_files = (\<lambda>_. None), h_clock = 0, h_mach = [7]\<rparr> :: nat list host"
  have fresh: "Suc (sum_list xs) \<notin> set xs" for xs :: "nat list"
    using member_le_sum_list [of "Suc (sum_list xs)" xs] by auto
  have "sigkill_ok demo_mute" by (auto simp: sigkill_ok_def demo_mute_def demo_machine_def demo_processes_def)
  moreover have "mute demo_mute" using fresh by (auto simp: mute_def demo_mute_def demo_machine_def demo_processes_def)
  ultimately obtain h' pid where "with_vm demo_mute demo_vm (\<lambda>vm. ret vm) ?h = (Inl (never_up demo_vm), h')"
      "\<not> pf_alive demo_mute pid ?h" "pf_alive demo_mute pid h'"
    using unanswered_boot_leaks [of demo_mute demo_vm "\<lambda>vm. ret vm" ?h] by blast
  moreover from this(2) have "pid \<noteq> 7" by (auto simp: demo_mute_def demo_machine_def demo_processes_def)
  ultimately show ?thesis by blast
qed

end
